(* ===== verification/Prelude.thy ===== *)
theory Prelude imports Main "HOL-Library.Word" begin

text \<open>
  The prelude: machine integers and bytes, the way a C++ run can fail as a value, the loops over
  tables of inode numbers that several methods share, and the little-endian byte codecs of the
  integers that the program keeps on its disk. The collections below gather the facts that carry
  the component proofs: \<open>run\<close> unfolds sequencing of fallible steps.
\<close>

unbundle bit_operations_syntax

named_theorems run "how fallible steps are sequenced"

subsection \<open>Machine integers and bytes\<close>

type_synonym u8 = "8 word"
type_synonym u16 = "16 word"
type_synonym u32 = "32 word"
type_synonym u64 = "64 word"
type_synonym bytes = "u8 list"

subsection \<open>Failing runs\<close>

text \<open>
  How a run of the code can end other than by returning. \<open>Bad_alloc\<close> is the exception
  \<open>std::bad_alloc\<close> the code throws, \<open>Out_of_range\<close> the one \<open>std::string::substr\<close> throws, \<open>Length_error\<close> the one
  \<open>std::string::resize\<close> throws. Nobody catches them, so each ends the program. \<open>Null_deref\<close> and \<open>Out_of_bounds\<close> are the undefined
  behaviours of C++ the code can reach: a null pointer read, an array index or a copy past the end
  of its buffer, \<open>back()\<close> of an empty vector. \<open>Diverges\<close> is a recursion that does not end, \<open>Aborted\<close> a
  \<open>VERIFY\<close> that fails.
\<close>

datatype fault = Bad_alloc | Out_of_range | Length_error | Null_deref | Out_of_bounds | Diverges | Aborted

text \<open>A fallible step followed by another one: the first fault ends the run.\<close>

definition bindF :: "fault + 'a \<Rightarrow> ('a \<Rightarrow> fault + 'b) \<Rightarrow> fault + 'b" where
  "bindF r f = (case r of Inl e \<Rightarrow> Inl e | Inr x \<Rightarrow> f x)"

lemma bindF_Inl [simp, run]: "bindF (Inl e) f = Inl e"
  by (simp add: bindF_def)

lemma bindF_Inr [simp, run]: "bindF (Inr x) f = f x"
  by (simp add: bindF_def)

lemma bindF_eq_Inr [run]: "bindF r f = Inr y \<longleftrightarrow> (\<exists>x. r = Inr x \<and> f x = Inr y)"
  by (cases r) auto

lemma bindF_eq_Inl: "bindF r f = Inl e \<longleftrightarrow> r = Inl e \<or> (\<exists>x. r = Inr x \<and> f x = Inl e)"
  by (cases r) auto

lemma bindF_cong [fundef_cong]:
  "r = r' \<Longrightarrow> (\<And>x. r' = Inr x \<Longrightarrow> f x = g x) \<Longrightarrow> bindF r f = bindF r' g"
  by (cases r') auto

lemma bindF_assoc: "bindF (bindF r f) g = bindF r (\<lambda>x. bindF (f x) g)"
  by (cases r) auto

subsection \<open>The loop over a table of inode numbers\<close>

text \<open>
  The loop
  \<open>for (i = 0; i < BLOCK_SIZE / sizeof(uint32_t); ++i) { if (inum_buf[i] == 0) break; ... }\<close>
  of the reading methods, which collects what the body returns for each entry up to the first
  zero.
\<close>

fun each_sub :: "(u32 \<Rightarrow> fault + 'a) \<Rightarrow> u32 list \<Rightarrow> fault + 'a list" where
  "each_sub f [] = Inr []"
| "each_sub f (x # xs) =
     (if x = 0 then Inr []
      else bindF (f x) (\<lambda>y. bindF (each_sub f xs) (\<lambda>ys. Inr (y # ys))))"

lemma each_sub_cong [fundef_cong]:
  "xs = ys \<Longrightarrow> (\<And>x. x \<in> set ys \<Longrightarrow> f x = g x) \<Longrightarrow> each_sub f xs = each_sub g ys"
proof (induction ys arbitrary: xs)
  case Nil
  then show ?case by simp
next
  case (Cons y ys)
  have "each_sub f ys = each_sub g ys" using Cons.IH Cons.prems by simp
  then show ?case using Cons.prems by simp
qed

lemma each_sub_takeWhile: "each_sub f (takeWhile (\<lambda>x. x \<noteq> 0) xs) = each_sub f xs"
  by (induction xs) auto

lemma each_sub_map:
  assumes "\<And>x. x \<in> set xs \<Longrightarrow> x \<noteq> 0 \<Longrightarrow> f x = Inr (g x)"
  shows "each_sub f xs = Inr (map g (takeWhile (\<lambda>x. x \<noteq> 0) xs))"
  using assms by (induction xs) auto

lemma each_sub_nth:
  assumes "length ys = length xs" and "\<And>k. k < length xs \<Longrightarrow> xs ! k \<noteq> 0 \<and> f (xs ! k) = Inr (ys ! k)"
  shows "each_sub f xs = Inr ys"
  using assms
proof (induction xs arbitrary: ys)
  case Nil
  then show ?case by simp
next
  case (Cons x xs)
  then obtain y zs where ys: "ys = y # zs" by (cases ys) auto
  have "each_sub f xs = Inr zs"
  proof (rule Cons.IH)
    show "length zs = length xs" using Cons.prems(1) ys by simp
    show "xs ! k \<noteq> 0 \<and> f (xs ! k) = Inr (zs ! k)" if "k < length xs" for k
      using Cons.prems(2)[of "Suc k"] that ys by simp
  qed
  then show ?case using Cons.prems(2)[of 0] ys by simp
qed

text \<open>The same loop with a body that only changes the state.\<close>

fun each_sub_st :: "(u32 \<Rightarrow> 's \<Rightarrow> fault + 's) \<Rightarrow> u32 list \<Rightarrow> 's \<Rightarrow> fault + 's" where
  "each_sub_st f [] s = Inr s"
| "each_sub_st f (x # xs) s = (if x = 0 then Inr s else bindF (f x s) (each_sub_st f xs))"

lemma each_sub_st_takeWhile: "each_sub_st f (takeWhile (\<lambda>x. x \<noteq> 0) xs) s = each_sub_st f xs s"
  by (induction xs arbitrary: s) (auto intro: bindF_cong)

text \<open>The same loop where the body also uses the index.\<close>

fun each_sub_ix :: "(nat \<Rightarrow> u32 \<Rightarrow> 's \<Rightarrow> fault + 's) \<Rightarrow> nat \<Rightarrow> u32 list \<Rightarrow> 's \<Rightarrow> fault + 's" where
  "each_sub_ix f i [] s = Inr s"
| "each_sub_ix f i (x # xs) s = (if x = 0 then Inr s else bindF (f i x s) (each_sub_ix f (Suc i) xs))"

text \<open>Loops without an early exit: one that collects results, one that changes the state.\<close>

fun mapF :: "('a \<Rightarrow> fault + 'b) \<Rightarrow> 'a list \<Rightarrow> fault + 'b list" where
  "mapF f [] = Inr []"
| "mapF f (x # xs) = bindF (f x) (\<lambda>y. bindF (mapF f xs) (\<lambda>ys. Inr (y # ys)))"

fun each_st :: "('a \<Rightarrow> 's \<Rightarrow> fault + 's) \<Rightarrow> 'a list \<Rightarrow> 's \<Rightarrow> fault + 's" where
  "each_st f [] s = Inr s"
| "each_st f (x # xs) s = bindF (f x s) (each_st f xs)"

lemma mapF_map: "(\<And>x. x \<in> set xs \<Longrightarrow> f x = Inr (g x)) \<Longrightarrow> mapF f xs = Inr (map g xs)"
  by (induction xs) auto

lemma each_st_noop: "(\<And>x s. x \<in> set xs \<Longrightarrow> f x s = Inr s) \<Longrightarrow> each_st f xs s = Inr s"
  by (induction xs) auto

subsection \<open>Trailing zero bytes\<close>

text \<open>
  The loop at the end of \<open>inode_manager::read_file\<close> that moves the end of the buffer back over
  zero bytes: what is left is the buffer without its trailing zero bytes.
\<close>

definition strip0 :: "bytes \<Rightarrow> bytes" where
  "strip0 bs = rev (dropWhile (\<lambda>b. b = 0) (rev bs))"

lemma strip0_Nil [simp]: "strip0 [] = []"
  by (simp add: strip0_def)

lemma strip0_snoc: "strip0 (bs @ [b]) = (if b = 0 then strip0 bs else bs @ [b])"
  by (simp add: strip0_def)

lemma strip0_append_zeros [simp]: "strip0 (bs @ replicate n 0) = strip0 bs"
proof (induction n)
  case 0
  then show ?case by simp
next
  case (Suc n)
  have "bs @ replicate (Suc n) 0 = (bs @ replicate n 0) @ [0]"
    by (simp add: replicate_append_same)
  then show ?case using Suc by (simp only: strip0_snoc) simp
qed

lemma strip0_zeros [simp]: "strip0 (replicate n 0) = []"
  using strip0_append_zeros[of "[]" n] by simp

lemma strip0_id: "bs = [] \<or> last bs \<noteq> 0 \<Longrightarrow> strip0 bs = bs"
  by (cases bs rule: rev_cases) (auto simp: strip0_snoc)

lemma strip0_idem [simp]: "strip0 (strip0 bs) = strip0 bs"
  by (induction bs rule: rev_induct) (auto simp: strip0_snoc)

lemma strip0_append_nonempty: "strip0 cs \<noteq> [] \<Longrightarrow> strip0 (bs @ cs) = bs @ strip0 cs"
proof (induction cs rule: rev_induct)
  case Nil
  then show ?case by simp
next
  case (snoc c cs)
  show ?case
  proof (cases "c = 0")
    case True
    then have "strip0 cs \<noteq> []" using snoc.prems by (simp add: strip0_snoc)
    then show ?thesis using snoc.IH True strip0_snoc[of "bs @ cs" c] strip0_snoc[of cs c] by simp
  next
    case False
    then show ?thesis using strip0_snoc[of "bs @ cs" c] strip0_snoc[of cs c] by simp
  qed
qed

lemma strip0_append_empty: "strip0 cs = [] \<Longrightarrow> strip0 (bs @ cs) = strip0 bs"
proof (induction cs rule: rev_induct)
  case Nil
  then show ?case by simp
next
  case (snoc c cs)
  then have "c = 0" "strip0 cs = []" by (auto simp: strip0_snoc split: if_splits)
  then show ?case using snoc.IH strip0_snoc[of "bs @ cs" c] by simp
qed

lemma strip0_append_strip0 [simp]: "strip0 (bs @ strip0 cs) = strip0 (bs @ cs)"
proof (cases "strip0 cs = []")
  case True
  then show ?thesis by (simp add: strip0_append_empty)
next
  case False
  then show ?thesis using strip0_append_nonempty[of cs bs] strip0_append_nonempty[of "strip0 cs" bs] by simp
qed

lemma strip0_length: "length (strip0 bs) \<le> length bs"
  by (metis length_dropWhile_le length_rev strip0_def)

subsection \<open>Byte codecs of the on-disk integers\<close>

text \<open>
  The program reads and writes integers of its disk through casts of byte buffers; on the machines
  it is built for they are little-endian. A codec is an encoder of fixed width with a decoder that
  reads the value back from the front of a buffer, which is all the arrays of such values need.
\<close>

fun array_of :: "(bytes \<Rightarrow> 'a) \<Rightarrow> nat \<Rightarrow> nat \<Rightarrow> bytes \<Rightarrow> 'a list" where
  "array_of dec w 0 bs = []"
| "array_of dec w (Suc n) bs = dec (take w bs) # array_of dec w n (drop w bs)"

lemma length_array_of [simp]: "length (array_of dec w n bs) = n"
  by (induction n arbitrary: bs) auto

locale codec =
  fixes enc :: "'a \<Rightarrow> bytes" and dec :: "bytes \<Rightarrow> 'a" and width :: nat
  assumes width_enc: "length (enc x) = width"
    and dec_enc: "dec (enc x) = x"
begin

lemma width_concat: "length (concat (map enc xs)) = width * length xs"
  by (induction xs) (auto simp: width_enc)

lemma array_of_enc: "array_of dec width (length xs) (concat (map enc xs) @ bs) = xs"
  by (induction xs) (auto simp: width_enc dec_enc)

lemma array_of_enc_only: "array_of dec width (length xs) (concat (map enc xs)) = xs"
  using array_of_enc[of xs "[]"] by simp

lemma enc_inject: "enc x = enc y \<longleftrightarrow> x = y"
  by (metis dec_enc)

end

definition bytes_of_u16 :: "u16 \<Rightarrow> bytes" where
  "bytes_of_u16 w = [ucast w, ucast (drop_bit 8 w)]"

fun u16_of_bytes :: "bytes \<Rightarrow> u16" where
  "u16_of_bytes (a # b # bs) = ucast a OR push_bit 8 (ucast b)"
| "u16_of_bytes bs = 0"

definition bytes_of_u32 :: "u32 \<Rightarrow> bytes" where
  "bytes_of_u32 w = [ucast w, ucast (drop_bit 8 w), ucast (drop_bit 16 w), ucast (drop_bit 24 w)]"

fun u32_of_bytes :: "bytes \<Rightarrow> u32" where
  "u32_of_bytes (a # b # c # e # bs) =
     ucast a OR push_bit 8 (ucast b) OR push_bit 16 (ucast c) OR push_bit 24 (ucast e)"
| "u32_of_bytes bs = 0"

lemma u16_of_bytes_of_u16: "u16_of_bytes (bytes_of_u16 w) = w"
  unfolding bytes_of_u16_def u16_of_bytes.simps
  by (rule bit_word_eqI) (auto simp: bit_simps)

lemma u32_of_bytes_of_u32: "u32_of_bytes (bytes_of_u32 w) = w"
proof -
  have "n < 8 \<or> 8 \<le> n \<and> n < 16 \<or> 16 \<le> n \<and> n < 24 \<or> 24 \<le> n" for n :: nat by linarith
  then show ?thesis
    unfolding bytes_of_u32_def u32_of_bytes.simps
    by (intro bit_word_eqI) (force simp: bit_simps)
qed

interpretation c16: codec bytes_of_u16 u16_of_bytes 2
  by unfold_locales (simp_all add: u16_of_bytes_of_u16, simp add: bytes_of_u16_def)

interpretation c32: codec bytes_of_u32 u32_of_bytes 4
  by unfold_locales (simp_all add: u32_of_bytes_of_u32, simp add: bytes_of_u32_def)

text \<open>A 32-bit number stored in a 64-bit one.\<close>

lemma unat_size [simp]: "unat (ucast (s :: u32) :: u64) = unat s"
proof -
  have "unat s < 2 ^ 64" by (rule order_less_trans[OF unsigned_less]) simp
  then show ?thesis by (simp add: unsigned_ucast_eq take_bit_nat_eq_self)
qed

text \<open>A block read as \<open>uint32_t inum_buf[BLOCK_SIZE / sizeof(uint32_t)]\<close>, and written back.\<close>

definition u32s_of_block :: "bytes \<Rightarrow> u32 list" where
  "u32s_of_block bs = array_of u32_of_bytes 4 128 bs"

definition block_of_u32s :: "u32 list \<Rightarrow> bytes" where
  "block_of_u32s ws = concat (map bytes_of_u32 ws)"

lemma length_u32s_of_block [simp]: "length (u32s_of_block bs) = 128"
  by (simp add: u32s_of_block_def)

lemma length_block_of_u32s [simp]: "length (block_of_u32s ws) = 4 * length ws"
  by (simp add: block_of_u32s_def c32.width_concat)

lemma u32s_of_block_of_u32s [simp]: "length ws = 128 \<Longrightarrow> u32s_of_block (block_of_u32s ws) = ws"
  using c32.array_of_enc_only[of ws] by (simp add: u32s_of_block_def block_of_u32s_def)

text \<open>What zero bytes are read as.\<close>

lemma u32_of_zeros: "u32_of_bytes (replicate k 0) = 0"
proof -
  have "k = 0 \<or> k = 1 \<or> k = 2 \<or> k = 3 \<or> (\<exists>n. k = Suc (Suc (Suc (Suc n))))" by presburger
  then show ?thesis by (elim disjE exE) (simp_all add: numeral_eq_Suc)
qed

lemma array_of_zeros: "array_of u32_of_bytes 4 n (replicate k 0) = replicate n 0"
  by (induction n arbitrary: k) (simp_all add: u32_of_zeros)

end
