(* ===== verification/Block_Layer.thy ===== *)
theory Block_Layer imports Prelude begin

text \<open>
  The disk and the block layer of \<open>inode_manager.cc\<close>: the array of blocks, the superblock, the
  bitmap of used blocks, and the allocator that scans it. The interface the inode layer relies on
  is the locale \<open>block_store\<close> at the end, interpreted on this model.
\<close>

subsection \<open>Constants of inode_manager.h\<close>

text \<open>The preprocessor constants are abbreviations, usable at every integer type, as in the code.\<close>

abbreviation (input) DISK_SIZE :: "'a::{numeral,times}" where "DISK_SIZE \<equiv> 1024 * 1024 * 16 * 64"
abbreviation (input) BLOCK_SIZE :: "'a::numeral" where "BLOCK_SIZE \<equiv> 512"
abbreviation (input) BLOCK_NUM :: "'a::{numeral,times,divide}" where "BLOCK_NUM \<equiv> DISK_SIZE div BLOCK_SIZE"
abbreviation (input) INODE_NUM :: "'a::numeral" where "INODE_NUM \<equiv> 1024"
abbreviation (input) IPB :: "'a::one" where "IPB \<equiv> 1"
abbreviation (input) BPB :: "'a::{numeral,times}" where "BPB \<equiv> BLOCK_SIZE * 8"

definition IBLOCK :: "u32 \<Rightarrow> u32 \<Rightarrow> u32" where
  "IBLOCK i nb = nb div BPB + i div IPB + 3"

definition BBLOCK :: "u32 \<Rightarrow> u32" where
  "BBLOCK b = b div BPB + 2"

subsection \<open>class disk\<close>

record disk =
  blocks :: "u32 \<Rightarrow> bytes"

text \<open>The constructor: \<open>bzero(blocks, sizeof(blocks))\<close>.\<close>

definition disk_init :: disk where
  "disk_init = \<lparr>blocks = (\<lambda>_. replicate BLOCK_SIZE 0)\<rparr>"

text \<open>
  \<open>memcpy\<close> of one block out of and into the array. An index past the array is undefined behaviour,
  and so is a source buffer shorter than a block.
\<close>

definition disk_read_block :: "u32 \<Rightarrow> disk \<Rightarrow> fault + bytes" where
  "disk_read_block b dk = (if b < BLOCK_NUM then Inr (take BLOCK_SIZE (blocks dk b)) else Inl Out_of_bounds)"

definition disk_write_block :: "u32 \<Rightarrow> bytes \<Rightarrow> disk \<Rightarrow> fault + disk" where
  "disk_write_block b buf dk =
     (if b < BLOCK_NUM \<and> BLOCK_SIZE \<le> length buf
      then Inr (dk\<lparr>blocks := (blocks dk)(b := take BLOCK_SIZE buf)\<rparr>) else Inl Out_of_bounds)"

subsection \<open>class block_manager\<close>

record superblock =
  sb_size :: u32
  nblocks :: u32
  ninodes :: u32

record block_manager =
  bdisk :: disk
  sb :: superblock

definition read_block :: "u32 \<Rightarrow> block_manager \<Rightarrow> fault + bytes" where
  "read_block b m = disk_read_block b (bdisk m)"

definition write_block :: "u32 \<Rightarrow> bytes \<Rightarrow> block_manager \<Rightarrow> fault + block_manager" where
  "write_block b buf m = bindF (disk_write_block b buf (bdisk m)) (\<lambda>dk. Inr (m\<lparr>bdisk := dk\<rparr>))"

text \<open>
  The bit of block \<open>b\<close> is bit \<open>(b % BPB) % 8\<close> of byte \<open>(b % BPB) / 8\<close> of bitmap block
  \<open>b / BPB + 2\<close>. The byte is masked with one of its own eight bits, so the sign extension of the
  code's \<open>char\<close> does not change the result.
\<close>

definition bit_byte :: "u32 \<Rightarrow> nat" where
  "bit_byte b = unat ((b mod BPB) div 8)"

definition bit_mask :: "u32 \<Rightarrow> u8" where
  "bit_mask b = push_bit (unat ((b mod BPB) mod 8)) 1"

definition is_free :: "u32 \<Rightarrow> block_manager \<Rightarrow> fault + bool" where
  "is_free b m = bindF (read_block (b div BPB + 2) m) (\<lambda>buf.
     Inr (buf ! bit_byte b AND bit_mask b = 0))"

definition mark_bit :: "u32 \<Rightarrow> block_manager \<Rightarrow> fault + block_manager" where
  "mark_bit b m = bindF (read_block (b div BPB + 2) m) (\<lambda>buf.
     write_block (b div BPB + 2) (buf[bit_byte b := buf ! bit_byte b OR bit_mask b]) m)"

definition unmark_bit :: "u32 \<Rightarrow> block_manager \<Rightarrow> fault + block_manager" where
  "unmark_bit b m = bindF (read_block (b div BPB + 2) m) (\<lambda>buf.
     write_block (b div BPB + 2) (buf[bit_byte b := buf ! bit_byte b AND NOT (bit_mask b)]) m)"

text \<open>The loop of \<open>alloc_block\<close>, from the block number \<open>b\<close> on.\<close>

function alloc_scan :: "u32 \<Rightarrow> block_manager \<Rightarrow> fault + u32 \<times> block_manager" where
  "alloc_scan b m =
     (if b < nblocks (sb m)
      then bindF (is_free b m) (\<lambda>fr.
        if fr then bindF (mark_bit b m) (\<lambda>m'. Inr (b, m')) else alloc_scan (b + 1) m)
      else Inr (0, m))"
  by pat_completeness auto
termination
proof (relation "measure (\<lambda>(b, m). unat (nblocks (sb m)) - unat b)")
  fix b :: u32 and m :: block_manager and fr :: bool
  assume lt: "b < nblocks (sb m)"
  then have "unat (b + 1) = unat b + 1" by unat_arith
  then show "((b + 1, m), (b, m)) \<in> measure (\<lambda>(b, m). unat (nblocks (sb m)) - unat b)"
    using lt by (simp add: word_less_nat_alt)
qed simp

declare alloc_scan.simps [simp del]

definition alloc_block :: "block_manager \<Rightarrow> fault + u32 \<times> block_manager" where
  "alloc_block m = alloc_scan (IBLOCK (ninodes (sb m)) (nblocks (sb m)) + 1) m"

definition free_block :: "u32 \<Rightarrow> block_manager \<Rightarrow> fault + block_manager" where
  "free_block b m =
     (if b > IBLOCK (ninodes (sb m)) (nblocks (sb m))
      then bindF (is_free b m) (\<lambda>fr.
        if \<not> fr then bindF (unmark_bit b m) (\<lambda>m'. write_block b (replicate BLOCK_SIZE 0) m')
        else Inr m)
      else Inr m)"

definition format_sb :: superblock where
  "format_sb = \<lparr>sb_size = BLOCK_SIZE * BLOCK_NUM, nblocks = BLOCK_NUM, ninodes = INODE_NUM\<rparr>"

definition block_manager_init :: block_manager where
  "block_manager_init = \<lparr>bdisk = disk_init, sb = format_sb\<rparr>"

subsection \<open>The layout of the disk\<close>

text \<open>\<open>|<-sb->|<-free block bitmap->|<-inode table->|<-data->|\<close>\<close>

definition data_block :: "u32 \<Rightarrow> bool" where
  "data_block b \<longleftrightarrow> IBLOCK INODE_NUM BLOCK_NUM < b \<and> b < BLOCK_NUM"

definition inum_ok :: "u32 \<Rightarrow> bool" where
  "inum_ok i \<longleftrightarrow> 1 \<le> i \<and> i \<le> INODE_NUM"

abbreviation iblk :: "u32 \<Rightarrow> u32" where "iblk i \<equiv> IBLOCK i 2097152"

lemma iblk_eq: "iblk i = i + 515"
  by (simp add: IBLOCK_def)

lemma iblk_inums: "iblk 1024 = 1539"
  by (simp add: iblk_eq)

lemma data_block_iff: "data_block b \<longleftrightarrow> 1539 < b \<and> b < 2097152"
  by (simp add: data_block_def IBLOCK_def)

lemma iblk_inj [simp]: "iblk i = iblk j \<longleftrightarrow> i = j"
  by (simp only: iblk_eq add_right_cancel)

lemma iblk_range: "inum_ok i \<Longrightarrow> 516 \<le> iblk i \<and> iblk i \<le> 1539"
  unfolding inum_ok_def iblk_eq by (simp add: word_le_nat_alt unat_word_ariths)

lemma iblk_in_disk: "inum_ok i \<Longrightarrow> iblk i < 2097152"
  using iblk_range[of i] by unat_arith

lemma bit_byte_lt: "bit_byte b < 512"
proof -
  have "unat (b mod 4096) < 4096" by (simp add: unat_mod)
  then show ?thesis by (simp add: bit_byte_def unat_div less_mult_imp_div_less)
qed

lemma bitmap_in_disk: "b div 4096 + 2 < (2097152::u32)"
proof -
  have "unat b < 2 ^ LENGTH(32)" by (rule unsigned_less)
  then have "unat b div 4096 < 1048576" by (simp add: less_mult_imp_div_less)
  then show ?thesis by (simp add: word_less_nat_alt unat_word_ariths unat_div)
qed

lemma bitmap_range: "b < 2097152 \<Longrightarrow> 2 \<le> b div 4096 + 2 \<and> b div 4096 + 2 < (514::u32)"
proof -
  assume "b < 2097152"
  then have "unat b div 4096 < 512" by (simp add: word_less_nat_alt less_mult_imp_div_less)
  then show ?thesis by (simp add: word_less_nat_alt word_le_nat_alt unat_word_ariths unat_div)
qed

lemma data_block_nonzero: "data_block b \<Longrightarrow> b \<noteq> 0"
  by (auto simp: data_block_iff)

lemma data_not_bitmap: "data_block b \<Longrightarrow> c < 2097152 \<Longrightarrow> c div 4096 + 2 \<noteq> b"
  using bitmap_range[of c] unfolding data_block_iff by unat_arith

lemma data_not_inode: "data_block b \<Longrightarrow> inum_ok i \<Longrightarrow> iblk i \<noteq> b"
  using iblk_range[of i] unfolding data_block_iff by unat_arith

lemma inode_not_bitmap: "inum_ok i \<Longrightarrow> c < 2097152 \<Longrightarrow> c div 4096 + 2 \<noteq> iblk i"
  using iblk_range[of i] bitmap_range[of c] by unat_arith

lemma data_block_lt: "data_block b \<Longrightarrow> b < 2097152"
  by (simp add: data_block_iff)

subsection \<open>The contents of the disk, and the bitmap as a set\<close>

abbreviation blk :: "block_manager \<Rightarrow> u32 \<Rightarrow> bytes" where "blk m \<equiv> blocks (bdisk m)"

definition fmt :: "block_manager \<Rightarrow> bool" where
  "fmt m \<longleftrightarrow> sb m = format_sb \<and> (\<forall>b. length (blk m b) = BLOCK_SIZE)"

definition used :: "block_manager \<Rightarrow> u32 \<Rightarrow> bool" where
  "used m b \<longleftrightarrow> bit (blk m (b div 4096 + 2) ! bit_byte b) (unat ((b mod 4096) mod 8))"

lemma fmt_length [simp]: "fmt m \<Longrightarrow> length (blk m b) = 512"
  by (simp add: fmt_def)

lemma fmt_sb [simp]: "fmt m \<Longrightarrow> sb m = format_sb"
  by (simp add: fmt_def)

lemma format_sb_simps [simp]: "nblocks format_sb = 2097152" "ninodes format_sb = 1024"
  by (simp_all add: format_sb_def)

lemma fmt_init: "fmt block_manager_init"
  by (simp add: fmt_def block_manager_init_def disk_init_def)

lemma used_init: "\<not> used block_manager_init b"
  by (simp add: used_def block_manager_init_def disk_init_def bit_byte_lt)

lemma blk_eqI: "blk m = blk m' \<Longrightarrow> sb m = sb m' \<Longrightarrow> m = (m'::block_manager)"
  by (cases m; cases m') (auto intro: disk.equality)

lemma read_block_ok: "fmt m \<Longrightarrow> b < 2097152 \<Longrightarrow> read_block b m = Inr (blk m b)"
  by (simp add: read_block_def disk_read_block_def)

lemma read_block_bad: "\<not> b < 2097152 \<Longrightarrow> read_block b m = Inl Out_of_bounds"
  by (simp add: read_block_def disk_read_block_def)

text \<open>What a write does, as an update of the contents.\<close>

definition put_blk :: "u32 \<Rightarrow> bytes \<Rightarrow> block_manager \<Rightarrow> block_manager" where
  "put_blk b bs m = m\<lparr>bdisk := (bdisk m)\<lparr>blocks := (blk m)(b := bs)\<rparr>\<rparr>"

lemma put_blk_simps [simp]: "blk (put_blk b bs m) = (blk m)(b := bs)" "sb (put_blk b bs m) = sb m"
  by (simp_all add: put_blk_def)

lemma write_block_ok: "b < 2097152 \<Longrightarrow> 512 \<le> length buf \<Longrightarrow> write_block b buf m = Inr (put_blk b (take 512 buf) m)"
  by (simp add: write_block_def disk_write_block_def put_blk_def)

lemma write_block_Inr:
  "write_block b buf m = Inr m' \<longleftrightarrow>
     b < 2097152 \<and> 512 \<le> length buf \<and> put_blk b (take 512 buf) m = m'"
  by (cases "b < 2097152 \<and> 512 \<le> length buf") (auto simp: write_block_def disk_write_block_def put_blk_def)

lemma fmt_put_blk: "fmt m \<Longrightarrow> length bs = 512 \<Longrightarrow> fmt (put_blk b bs m)"
  unfolding fmt_def by simp

lemma used_put_blk: "b div 4096 + 2 \<noteq> c \<Longrightarrow> used (put_blk c bs m) b = used m b"
  by (simp add: used_def)

subsection \<open>What the bitmap operations do\<close>

lemma bit_position_inj:
  assumes "c div 4096 + 2 = b div 4096 + 2" and "bit_byte c = bit_byte b"
    and "unat ((c mod 4096) mod 8) = unat ((b mod 4096) mod 8)"
  shows "c = (b::u32)"
proof -
  have d: "unat c div 4096 = unat b div 4096"
  proof -
    have "unat (c div 4096) = unat (b div 4096)" using assms(1) unfolding add_right_cancel by simp
    then show ?thesis by (simp add: unat_div)
  qed
  have e: "(unat c mod 4096) div 8 = (unat b mod 4096) div 8"
    using assms(2) by (simp add: bit_byte_def unat_div unat_mod)
  have f: "(unat c mod 4096) mod 8 = (unat b mod 4096) mod 8"
    using assms(3) by (simp add: unat_mod)
  from e f have "unat c mod 4096 = unat b mod 4096" by (metis div_mult_mod_eq)
  with d have "unat c = unat b" by (metis div_mult_mod_eq)
  then show ?thesis by (simp add: word_unat_eq_iff)
qed

lemma bit_mask_bit: "bit (bit_mask b) n \<longleftrightarrow> n = unat ((b mod 4096) mod 8)"
proof -
  have "unat ((b mod 4096) mod 8) < 8" by (simp add: unat_mod)
  then show ?thesis by (auto simp: bit_mask_def bit_simps)
qed

lemma is_free_ok: "fmt m \<Longrightarrow> is_free b m = Inr (\<not> used m b)"
  using bitmap_in_disk[of b]
  by (simp add: is_free_def read_block_ok used_def bit_mask_def push_bit_of_1 and_exp_eq_0_iff_not_bit)

definition marked :: "u32 \<Rightarrow> block_manager \<Rightarrow> block_manager" where
  "marked b m = put_blk (b div 4096 + 2)
     ((blk m (b div 4096 + 2))[bit_byte b := blk m (b div 4096 + 2) ! bit_byte b OR bit_mask b]) m"

definition unmarked :: "u32 \<Rightarrow> block_manager \<Rightarrow> block_manager" where
  "unmarked b m = put_blk (b div 4096 + 2)
     ((blk m (b div 4096 + 2))[bit_byte b := blk m (b div 4096 + 2) ! bit_byte b AND NOT (bit_mask b)]) m"

lemma mark_bit_ok: "fmt m \<Longrightarrow> mark_bit b m = Inr (marked b m)"
  using bitmap_in_disk[of b] by (simp add: mark_bit_def marked_def read_block_ok write_block_ok)

lemma unmark_bit_ok: "fmt m \<Longrightarrow> unmark_bit b m = Inr (unmarked b m)"
  using bitmap_in_disk[of b] by (simp add: unmark_bit_def unmarked_def read_block_ok write_block_ok)

lemma used_put_bit:
  assumes "fmt m" and new: "\<And>k. bit new k = (if bit (bit_mask b) k then v else bit (blk m (b div 4096 + 2) ! bit_byte b) k)"
  shows "used (put_blk (b div 4096 + 2) ((blk m (b div 4096 + 2))[bit_byte b := new]) m) c
     = (if c = b then v else used m c)"
proof (cases "c div 4096 + 2 = b div 4096 + 2 \<and> bit_byte c = bit_byte b")
  case True
  then have "used (put_blk (b div 4096 + 2) ((blk m (b div 4096 + 2))[bit_byte b := new]) m) c
      = bit new (unat ((c mod 4096) mod 8))"
    using assms(1) by (simp add: used_def bit_byte_lt)
  also have "\<dots> = (if c = b then v else used m c)"
    using True bit_position_inj[of c b] by (auto simp: new bit_mask_bit used_def)
  finally show ?thesis .
next
  case False
  then have "c \<noteq> b" by auto
  with False assms(1) show ?thesis by (auto simp: used_def)
qed

lemma used_marked: "fmt m \<Longrightarrow> used (marked b m) c \<longleftrightarrow> c = b \<or> used m c"
  unfolding marked_def by (subst used_put_bit[where v = True]) (auto simp: bit_simps)

lemma used_unmarked: "fmt m \<Longrightarrow> used (unmarked b m) c \<longleftrightarrow> c \<noteq> b \<and> used m c"
  unfolding unmarked_def by (subst used_put_bit[where v = False]) (auto simp: bit_simps dest: bit_imp_le_length)

lemma fmt_marked: "fmt m \<Longrightarrow> fmt (marked b m)"
  unfolding marked_def by (rule fmt_put_blk) simp_all

lemma fmt_unmarked: "fmt m \<Longrightarrow> fmt (unmarked b m)"
  unfolding unmarked_def by (rule fmt_put_blk) simp_all

subsection \<open>What the allocator does\<close>

lemma alloc_scan_cases:
  assumes "fmt m"
  shows "(\<exists>b. start \<le> b \<and> b < 2097152 \<and> \<not> used m b \<and> (\<forall>c. start \<le> c \<and> c < b \<longrightarrow> used m c)
            \<and> alloc_scan start m = Inr (b, marked b m))
       \<or> (\<forall>c. start \<le> c \<and> c < 2097152 \<longrightarrow> used m c) \<and> alloc_scan start m = Inr (0, m)"
  (is "(\<exists>b. ?got start b) \<or> ?full start")
  using assms
proof (induction start m rule: alloc_scan.induct)
  case (1 start m)
  note eq = alloc_scan.simps[of start m]
  show ?case
  proof (cases "start < 2097152")
    case False
    then show ?thesis using "1.prems" eq by auto
  next
    case lt: True
    show ?thesis
    proof (cases "used m start")
      case False
      then show ?thesis using "1.prems" eq lt
        by (intro disjI1 exI[of _ start]) (auto simp: is_free_ok mark_bit_ok)
    next
      case True
      have next_le: "start + 1 \<le> c \<longleftrightarrow> start \<le> c \<and> c \<noteq> start" for c
        using lt by (auto simp: word_le_nat_alt word_less_nat_alt word_unat_eq_iff unat_word_ariths)
      have "alloc_scan start m = alloc_scan (start + 1) m"
        using "1.prems" eq lt True by (simp add: is_free_ok)
      moreover have "(\<exists>b. start + 1 \<le> b \<and> b < 2097152 \<and> \<not> used m b \<and> (\<forall>c. start + 1 \<le> c \<and> c < b \<longrightarrow> used m c)
            \<and> alloc_scan (start + 1) m = Inr (b, marked b m))
          \<or> (\<forall>c. start + 1 \<le> c \<and> c < 2097152 \<longrightarrow> used m c) \<and> alloc_scan (start + 1) m = Inr (0, m)"
        using "1.IH"[of False] "1.prems" lt True by (simp add: is_free_ok)
      ultimately show ?thesis using True unfolding next_le by auto
    qed
  qed
qed

lemma alloc_block_cases:
  assumes "fmt m"
  obtains (got) b where "data_block b" "\<not> used m b" "\<forall>c. data_block c \<and> c < b \<longrightarrow> used m c"
      "alloc_block m = Inr (b, marked b m)"
    | (full) "\<forall>c. data_block c \<longrightarrow> used m c" "alloc_block m = Inr (0, m)"
proof -
  have start: "IBLOCK 1024 2097152 + 1 = 1540" by (simp add: iblk_eq)
  have le: "1540 \<le> c \<and> c < 2097152 \<longleftrightarrow> data_block c" for c
    unfolding data_block_iff by (auto simp: word_le_nat_alt word_less_nat_alt)
  have eq: "alloc_block m = alloc_scan 1540 m"
    using assms by (simp add: alloc_block_def start)
  from alloc_scan_cases[OF assms, of 1540] show thesis
  proof (elim disjE exE conjE)
    fix b
    assume b: "1540 \<le> b" "b < 2097152" "\<not> used m b" "\<forall>c. 1540 \<le> c \<and> c < b \<longrightarrow> used m c"
      and "alloc_scan 1540 m = Inr (b, marked b m)"
    moreover have "data_block b" using b(1,2) le by blast
    moreover have "\<forall>c. data_block c \<and> c < b \<longrightarrow> used m c" using b(4) le by blast
    ultimately show thesis using got eq by simp
  next
    assume "\<forall>c. 1540 \<le> c \<and> c < 2097152 \<longrightarrow> used m c" and "alloc_scan 1540 m = Inr (0, m)"
    then show thesis using full eq le by auto
  qed
qed

lemma free_block_used:
  assumes "fmt m" and "data_block b" and "used m b"
  shows "free_block b m = Inr (put_blk b (replicate 512 0) (unmarked b m))"
proof -
  have "IBLOCK 1024 2097152 < b" and "b < 2097152"
    using assms(2) by (simp_all add: iblk_eq data_block_iff)
  then show ?thesis
    using assms(1,3) by (simp add: free_block_def is_free_ok unmark_bit_ok write_block_ok)
qed

lemma free_block_noop: "fmt m \<Longrightarrow> \<not> used m b \<or> b \<le> 1539 \<Longrightarrow> free_block b m = Inr m"
  by (auto simp: free_block_def is_free_ok iblk_eq)

subsection \<open>The interface of the block layer\<close>

text \<open>
  What the inode layer relies on: some of the block numbers are data blocks, each in use or not,
  with a content of one block; \<open>alloc\<close> takes one that is not in use, or returns 0 when there is none;
  \<open>release\<close> gives one back, with its content cleared; \<open>put\<close> stores the front of a buffer.
\<close>

locale block_store =
  fixes ok :: "'s \<Rightarrow> bool" and valid_block :: "u32 \<Rightarrow> bool" and in_use :: "'s \<Rightarrow> u32 \<Rightarrow> bool"
    and contents :: "'s \<Rightarrow> u32 \<Rightarrow> bytes" and alloc :: "'s \<Rightarrow> fault + u32 \<times> 's"
    and release :: "u32 \<Rightarrow> 's \<Rightarrow> fault + 's" and put :: "u32 \<Rightarrow> bytes \<Rightarrow> 's \<Rightarrow> fault + 's"
  assumes zero_invalid: "\<not> valid_block 0"
    and alloc_returns: "ok s \<Longrightarrow> \<exists>b s'. alloc s = Inr (b, s')"
    and alloc_full: "ok s \<Longrightarrow> alloc s = Inr (0, s') \<Longrightarrow> s' = s \<and> (\<forall>c. valid_block c \<longrightarrow> in_use s c)"
    and alloc_got: "ok s \<Longrightarrow> alloc s = Inr (b, s') \<Longrightarrow> b \<noteq> 0 \<Longrightarrow>
      ok s' \<and> valid_block b \<and> \<not> in_use s b \<and> (\<forall>c. in_use s' c \<longleftrightarrow> c = b \<or> in_use s c)
      \<and> (\<forall>c. valid_block c \<longrightarrow> contents s' c = contents s c)"
    and put_returns: "ok s \<Longrightarrow> valid_block b \<Longrightarrow> 512 \<le> length buf \<Longrightarrow> \<exists>s'. put b buf s = Inr s'"
    and put_does: "ok s \<Longrightarrow> valid_block b \<Longrightarrow> put b buf s = Inr s' \<Longrightarrow>
      ok s' \<and> (\<forall>c. valid_block c \<longrightarrow> in_use s' c = in_use s c) \<and> contents s' = (contents s)(b := take 512 buf)"
    and release_returns: "ok s \<Longrightarrow> valid_block b \<Longrightarrow> \<exists>s'. release b s = Inr s'"
    and release_does: "ok s \<Longrightarrow> valid_block b \<Longrightarrow> in_use s b \<Longrightarrow> release b s = Inr s' \<Longrightarrow>
      ok s' \<and> (\<forall>c. valid_block c \<longrightarrow> in_use s' c = (c \<noteq> b \<and> in_use s c))
      \<and> (\<forall>c. valid_block c \<longrightarrow> contents s' c = (if c = b then replicate 512 0 else contents s c))"
begin

definition keeps :: "'s \<Rightarrow> 's \<Rightarrow> bool" where
  "keeps s s' \<longleftrightarrow> (\<forall>c. valid_block c \<and> in_use s c \<longrightarrow> in_use s' c \<and> contents s' c = contents s c)"

definition free_set :: "'s \<Rightarrow> u32 set" where
  "free_set s = {b. valid_block b \<and> \<not> in_use s b}"

lemma keeps_refl: "keeps s s"
  by (simp add: keeps_def)

lemma keeps_trans: "keeps s t \<Longrightarrow> keeps t u \<Longrightarrow> keeps s u"
  by (simp add: keeps_def)

lemma alloc_keeps: "ok s \<Longrightarrow> alloc s = Inr (b, s') \<Longrightarrow> ok s' \<and> keeps s s'"
  using alloc_got[of s b s'] alloc_full[of s s'] by (cases "b = 0") (auto simp: keeps_def)

lemma put_fresh_keeps:
  "ok s \<Longrightarrow> valid_block b \<Longrightarrow> \<not> in_use r b \<Longrightarrow> keeps r s \<Longrightarrow> put b buf s = Inr s' \<Longrightarrow> ok s' \<and> keeps r s'"
  using put_does[of s b buf s'] by (auto simp: keeps_def)

lemma fill_fresh:
  assumes "ok s" "alloc s = Inr (b, s1)" "b \<noteq> 0" "put b buf s1 = Inr s2"
  shows "ok s2" and "keeps s s2" and "in_use s2 b" and "contents s2 b = take 512 buf"
    and "valid_block b" and "\<not> in_use s b"
  using alloc_got[OF assms(1-3)] put_does[of s1 b buf s2] assms(4) by (auto simp: keeps_def)

lemma alloc_succeeds: "ok s \<Longrightarrow> free_set s \<noteq> {} \<Longrightarrow> \<exists>b s'. alloc s = Inr (b, s') \<and> b \<noteq> 0"
  using alloc_returns[of s] alloc_full[of s] by (fastforce simp: free_set_def)

lemma alloc_fails: "ok s \<Longrightarrow> free_set s = {} \<Longrightarrow> alloc s = Inr (0, s)"
  using alloc_returns[of s] alloc_full[of s] alloc_got[of s] by (fastforce simp: free_set_def)

lemma free_set_alloc: "ok s \<Longrightarrow> alloc s = Inr (b, s') \<Longrightarrow> b \<noteq> 0 \<Longrightarrow> b \<in> free_set s \<and> free_set s' = free_set s - {b}"
  using alloc_got[of s b s'] by (auto simp: free_set_def)

lemma card_alloc: "ok s \<Longrightarrow> alloc s = Inr (b, s') \<Longrightarrow> b \<noteq> 0 \<Longrightarrow> card (free_set s) = Suc (card (free_set s'))"
  using free_set_alloc[of s b s'] by (metis card.remove finite)

lemma free_set_put: "ok s \<Longrightarrow> valid_block b \<Longrightarrow> put b buf s = Inr s' \<Longrightarrow> free_set s' = free_set s"
  using put_does[of s b buf s'] by (auto simp: free_set_def)

lemma release_alloc:
  assumes "ok s" "alloc s = Inr (b, s1)" "b \<noteq> 0" "contents s b = replicate 512 0" "release b s1 = Inr s2"
  shows "ok s2 \<and> (\<forall>c. valid_block c \<longrightarrow> in_use s2 c = in_use s c \<and> contents s2 c = contents s c)"
proof -
  note got = alloc_got[OF assms(1-3)]
  have rel: "ok s2 \<and> (\<forall>c. valid_block c \<longrightarrow> in_use s2 c = (c \<noteq> b \<and> in_use s1 c))
      \<and> (\<forall>c. valid_block c \<longrightarrow> contents s2 c = (if c = b then replicate 512 0 else contents s1 c))"
    using got assms(5) by (intro release_does) auto
  with got assms(4) show ?thesis by auto
qed

end

lemma blk_marked_data: "data_block c \<Longrightarrow> b < 2097152 \<Longrightarrow> blk (marked b m) c = blk m c"
  using data_not_bitmap[of c b] by (auto simp: marked_def)

lemma blk_unmarked_data: "data_block c \<Longrightarrow> b < 2097152 \<Longrightarrow> blk (unmarked b m) c = blk m c"
  using data_not_bitmap[of c b] by (auto simp: unmarked_def)

interpretation bs: block_store fmt data_block used "\<lambda>m. blk m" alloc_block free_block write_block
proof unfold_locales
  fix s s' :: block_manager and b :: u32 and buf :: bytes
  show "\<not> data_block 0" by (simp add: data_block_iff)
  assume ok: "fmt s"
  show "\<exists>b s'. alloc_block s = Inr (b, s')"
    using ok by (rule alloc_block_cases) auto
  show "s' = s \<and> (\<forall>c. data_block c \<longrightarrow> used s c)" if "alloc_block s = Inr (0, s')"
    using ok by (rule alloc_block_cases) (use that data_block_nonzero in auto)
  show "fmt s' \<and> data_block b \<and> \<not> used s b \<and> (\<forall>c. used s' c \<longleftrightarrow> c = b \<or> used s c)
      \<and> (\<forall>c. data_block c \<longrightarrow> blk s' c = blk s c)" if "alloc_block s = Inr (b, s')" "b \<noteq> 0"
    using ok
  proof (rule alloc_block_cases)
    fix c
    assume "data_block c" "\<not> used s c" "alloc_block s = Inr (c, marked c s)"
    then show ?thesis
      using that ok used_marked[OF ok, of c] fmt_marked[OF ok, of c] blk_marked_data[OF _ data_block_lt, of _ c s]
      by simp
  qed (use that in auto)
  show "\<exists>s'. write_block b buf s = Inr s'" if "data_block b" "512 \<le> length buf"
    using that by (simp add: write_block_Inr data_block_lt)
  show "fmt s' \<and> (\<forall>c. data_block c \<longrightarrow> used s' c = used s c) \<and> blk s' = (blk s)(b := take 512 buf)"
    if "data_block b" "write_block b buf s = Inr s'"
  proof -
    have s': "s' = put_blk b (take 512 buf) s" "512 \<le> length buf"
      using that(2) by (simp_all add: write_block_Inr)
    then show ?thesis
      using ok that(1) data_not_bitmap[OF that(1) data_block_lt] by (auto simp: fmt_put_blk used_put_blk)
  qed
  show "\<exists>s'. free_block b s = Inr s'" if "data_block b"
    using ok that by (cases "used s b") (simp_all add: free_block_used free_block_noop)
  show "fmt s' \<and> (\<forall>c. data_block c \<longrightarrow> used s' c = (c \<noteq> b \<and> used s c))
      \<and> (\<forall>c. data_block c \<longrightarrow> blk s' c = (if c = b then replicate 512 0 else blk s c))"
    if "data_block b" "used s b" "free_block b s = Inr s'"
  proof -
    let ?u = "unmarked b s"
    have s': "s' = put_blk b (replicate 512 0) ?u"
      using that ok by (simp add: free_block_used)
    have "used s' c = used ?u c" if "data_block c" for c
      unfolding s' using data_not_bitmap[OF \<open>data_block b\<close> data_block_lt[OF that]] by (rule used_put_blk)
    then show ?thesis
      using ok that fmt_unmarked[OF ok, of b] used_unmarked[OF ok, of b]
        blk_unmarked_data[OF _ data_block_lt, of _ b s]
      by (simp add: s' fmt_put_blk)
  qed
qed

subsection \<open>Blocks outside the data area\<close>

text \<open>The allocator writes bitmap blocks only; freeing writes the freed block as well.\<close>

definition off_bitmap :: "u32 \<Rightarrow> bool" where
  "off_bitmap c \<longleftrightarrow> c < 2 \<or> 514 \<le> c"

lemma off_bitmap_zero [simp]: "off_bitmap 0"
  by (simp add: off_bitmap_def)

lemma off_bitmap_iblk [simp]: "inum_ok i \<Longrightarrow> off_bitmap (iblk i)"
  using iblk_range[of i] unfolding off_bitmap_def by (auto simp: word_less_nat_alt word_le_nat_alt)

lemma off_bitmap_data: "data_block b \<Longrightarrow> off_bitmap b"
  unfolding data_block_iff off_bitmap_def by (auto simp: word_less_nat_alt word_le_nat_alt)

lemma off_bitmap_neq: "off_bitmap c \<Longrightarrow> b < 2097152 \<Longrightarrow> c \<noteq> b div 4096 + 2"
  using bitmap_range[of b] unfolding off_bitmap_def by (auto simp: word_less_nat_alt word_le_nat_alt)

lemma blk_alloc_block:
  assumes "fmt m" "alloc_block m = Inr (b, m')" "off_bitmap c"
  shows "blk m' c = blk m c"
  using assms(1)
proof (rule alloc_block_cases)
  fix d assume "data_block d" "alloc_block m = Inr (d, marked d m)"
  then show ?thesis
    using assms off_bitmap_neq[OF assms(3) data_block_lt, of d] by (simp add: marked_def)
qed (use assms in auto)

lemma blk_free_block:
  assumes "fmt m" "data_block b" "free_block b m = Inr m'" "off_bitmap c" "c \<noteq> b"
  shows "blk m' c = blk m c"
proof (cases "used m b")
  case True
  then show ?thesis
    using assms off_bitmap_neq[OF assms(4) data_block_lt[OF assms(2)]] by (auto simp: free_block_used unmarked_def)
next
  case False
  then show ?thesis using assms by (simp add: free_block_noop)
qed

text \<open>Freeing a block that was just allocated gives the manager back bit for bit.\<close>

lemma unmarked_marked:
  assumes "fmt m" "\<not> used m b"
  shows "unmarked b (marked b m) = m"
proof (rule blk_eqI)
  let ?c = "b div 4096 + 2"
  let ?byte = "blk m ?c ! bit_byte b"
  have "(?byte OR bit_mask b) AND NOT (bit_mask b) = ?byte"
    using assms(2) by (intro bit_word_eqI) (auto simp: bit_simps bit_mask_bit used_def)
  then have "(blk m ?c)[bit_byte b := (?byte OR bit_mask b) AND NOT (bit_mask b)] = blk m ?c"
    by simp
  then show "blk (unmarked b (marked b m)) = blk m"
    using assms(1) bit_byte_lt[of b] by (auto simp: unmarked_def marked_def)
  show "sb (unmarked b (marked b m)) = sb m"
    by (simp add: unmarked_def marked_def)
qed

lemma alloc_free_restores:
  assumes "fmt m" "alloc_block m = Inr (b, m')" "b \<noteq> 0" "blk m b = replicate 512 0"
  shows "free_block b m' = Inr m"
  using assms(1)
proof (rule alloc_block_cases)
  fix c assume c: "data_block c" "\<not> used m c" "alloc_block m = Inr (c, marked c m)"
  then have eq: "b = c" "m' = marked b m" using assms(2) by auto
  have "free_block b m' = Inr (put_blk b (replicate 512 0) (unmarked b m'))"
    using c assms(1) by (intro free_block_used) (auto simp: eq fmt_marked used_marked)
  also have "put_blk b (replicate 512 0) (unmarked b m') = m"
    using c assms(1,4) by (intro blk_eqI) (auto simp: eq unmarked_marked)
  finally show ?thesis .
qed (use assms in auto)

end
