(* ===== verification/Inode_Layer.thy ===== *)
theory Inode_Layer imports Block_Layer begin

text \<open>
  The inode table of \<open>inode_manager\<close>: the on-disk inode and its bytes, reading and writing inodes,
  allocating and freeing them. Its interface for the file and directory layers is the locale
  \<open>volume\<close>. The whole state of the server is the record \<open>inode_manager\<close>.
\<close>

subsection \<open>Constants and the on-disk inode\<close>

abbreviation (input) T_DIR :: "'a::numeral" where "T_DIR \<equiv> 1"
abbreviation (input) T_FILE :: "'a::numeral" where "T_FILE \<equiv> 2"
abbreviation (input) T_LNK :: "'a::numeral" where "T_LNK \<equiv> 3"
abbreviation (input) NDIRECT :: "'a::numeral" where "NDIRECT \<equiv> 100"
abbreviation (input) NINDIRECT :: "'a::numeral" where "NINDIRECT \<equiv> 128"
abbreviation (input) sizeof_inode :: "'a::numeral" where "sizeof_inode \<equiv> 424"

record inode =
  itype :: u16
  isize :: u32
  atime :: u32
  mtime :: u32
  ctime :: u32
  iblocks :: "u32 list"

text \<open>
  The bytes of the structure, with its fields at offsets 0, 4, 8, 12, 16 and 20: two bytes of
  padding follow the type. An assignment of structures leaves the padding of the target
  unspecified; nothing reads it, and here it keeps its value.
\<close>

definition decode_inode :: "bytes \<Rightarrow> inode" where
  "decode_inode bs =
     \<lparr>itype = u16_of_bytes (take 2 bs),
      isize = u32_of_bytes (take 4 (drop 4 bs)),
      atime = u32_of_bytes (take 4 (drop 8 bs)),
      mtime = u32_of_bytes (take 4 (drop 12 bs)),
      ctime = u32_of_bytes (take 4 (drop 16 bs)),
      iblocks = array_of u32_of_bytes 4 (NDIRECT + 1) (drop 20 bs)\<rparr>"

definition encode_inode :: "inode \<Rightarrow> bytes \<Rightarrow> bytes" where
  "encode_inode ino old =
     bytes_of_u16 (itype ino) @ take 2 (drop 2 old) @ bytes_of_u32 (isize ino)
     @ bytes_of_u32 (atime ino) @ bytes_of_u32 (mtime ino) @ bytes_of_u32 (ctime ino)
     @ concat (map bytes_of_u32 (iblocks ino)) @ drop sizeof_inode old"

lemma length_decode [simp]: "length (iblocks (decode_inode bs)) = 101"
  by (simp add: decode_inode_def)

lemma length_encode: "length (iblocks ino) = 101 \<Longrightarrow> length old = 512 \<Longrightarrow> length (encode_inode ino old) = 512"
  by (simp add: encode_inode_def c16.width_enc c32.width_enc c32.width_concat)

lemma decode_encode:
  assumes "length (iblocks ino) = 101" "length old = 512"
  shows "decode_inode (encode_inode ino old) = ino"
proof -
  have "array_of u32_of_bytes 4 101 (concat (map bytes_of_u32 (iblocks ino)) @ drop 424 old) = iblocks ino"
    using c32.array_of_enc[of "iblocks ino"] assms(1) by simp
  then show ?thesis
    using assms by (simp add: decode_inode_def encode_inode_def c16.width_enc c32.width_enc c16.dec_enc c32.dec_enc)
qed

subsection \<open>class inode_manager\<close>

text \<open>
  The manager holds the block manager. The wall clock that \<open>time(NULL)\<close> reads is part of the
  state: the \<open>n\<close>-th call returns \<open>clock n\<close>, for a function \<open>clock\<close> nothing is assumed of.
\<close>

record inode_manager =
  bm :: block_manager
  clock :: "nat \<Rightarrow> u32"
  ticks :: nat

definition time_now :: "inode_manager \<Rightarrow> u32 \<times> inode_manager" where
  "time_now m = (clock m (ticks m), m\<lparr>ticks := Suc (ticks m)\<rparr>)"

text \<open>The calls through the pointer \<open>bm\<close>.\<close>

definition bm_read :: "u32 \<Rightarrow> inode_manager \<Rightarrow> fault + bytes" where
  "bm_read b m = read_block b (bm m)"

definition bm_write :: "u32 \<Rightarrow> bytes \<Rightarrow> inode_manager \<Rightarrow> fault + inode_manager" where
  "bm_write b buf m = bindF (write_block b buf (bm m)) (\<lambda>x. Inr (m\<lparr>bm := x\<rparr>))"

definition bm_alloc :: "inode_manager \<Rightarrow> fault + u32 \<times> inode_manager" where
  "bm_alloc m = bindF (alloc_block (bm m)) (\<lambda>(b, x). Inr (b, m\<lparr>bm := x\<rparr>))"

definition bm_free :: "u32 \<Rightarrow> inode_manager \<Rightarrow> fault + inode_manager" where
  "bm_free b m = bindF (free_block b (bm m)) (\<lambda>x. Inr (m\<lparr>bm := x\<rparr>))"

text \<open>\<open>get_inode\<close> returns \<open>NULL\<close> (here \<open>None\<close>) for an inode number out of range.\<close>

definition get_inode :: "u32 \<Rightarrow> inode_manager \<Rightarrow> fault + inode option" where
  "get_inode inum m =
     (if inum > INODE_NUM \<or> inum < 1 then Inr None
      else bindF (bm_read (IBLOCK inum (nblocks (sb (bm m)))) m) (\<lambda>buf.
        Inr (Some (decode_inode (drop (unat (inum mod IPB) * sizeof_inode) buf)))))"

definition put_inode :: "u32 \<Rightarrow> inode \<Rightarrow> inode_manager \<Rightarrow> fault + inode_manager" where
  "put_inode inum ino m =
     (if inum > INODE_NUM \<or> inum < 1 then Inr m
      else bindF (bm_read (IBLOCK inum (nblocks (sb (bm m)))) m) (\<lambda>buf.
        let off = unat (inum mod IPB) * sizeof_inode in
        bm_write (IBLOCK inum (nblocks (sb (bm m)))) (take off buf @ encode_inode ino (drop off buf)) m))"

text \<open>
  The search loop. Its bound is the number of blocks, not of inodes: past the last inode \<open>get_inode\<close>
  returns \<open>NULL\<close>, which the loop reads through.
\<close>

function find_scan :: "u32 \<Rightarrow> inode_manager \<Rightarrow> fault + u32" where
  "find_scan i m =
     (if i \<le> nblocks (sb (bm m))
      then bindF (get_inode i m) (\<lambda>r. case r of
          None \<Rightarrow> Inl Null_deref
        | Some ino \<Rightarrow> if itype ino = 0 then Inr i else find_scan (i + 1) m)
      else Inr 0)"
  by pat_completeness auto
termination
proof (relation "measure (\<lambda>(i, m). 1025 - unat i)")
  fix i :: u32 and m :: inode_manager and r :: "inode option" and ino :: inode
  assume "get_inode i m = Inr r" and "r = Some ino"
  then have "\<not> i > 1024" by (auto simp: get_inode_def)
  then have "unat (i + 1) = unat i + 1" "unat i \<le> 1024" by (auto simp: word_le_nat_alt unat_word_ariths not_less)
  then show "((i + 1, m), (i, m)) \<in> measure (\<lambda>(i, m). 1025 - unat i)" by simp
qed simp

declare find_scan.simps [simp del]

definition find_free_inode :: "inode_manager \<Rightarrow> fault + u32" where
  "find_free_inode m = find_scan 1 m"

definition alloc_inode :: "u32 \<Rightarrow> inode_manager \<Rightarrow> fault + u32 \<times> inode_manager" where
  "alloc_inode type m =
     (if type \<noteq> T_DIR \<and> type \<noteq> T_FILE \<and> type \<noteq> T_LNK then Inr (0, m)
      else bindF (find_free_inode m) (\<lambda>i.
        if i = 0 then Inl Bad_alloc
        else let (curr_time, m') = time_now m in
          bindF (put_inode i \<lparr>itype = ucast type, isize = 0, atime = curr_time, mtime = curr_time,
                   ctime = curr_time, iblocks = replicate (NDIRECT + 1) 0\<rparr> m') (\<lambda>m''. Inr (i, m''))))"

definition zero_inode :: inode where
  "zero_inode = \<lparr>itype = 0, isize = 0, atime = 0, mtime = 0, ctime = 0, iblocks = replicate (NDIRECT + 1) 0\<rparr>"

definition free_inode :: "u32 \<Rightarrow> inode_manager \<Rightarrow> fault + inode_manager" where
  "free_inode inum m = bindF (get_inode inum m) (\<lambda>r. case r of
       None \<Rightarrow> Inl Null_deref
     | Some ino \<Rightarrow> if itype ino \<noteq> 0 then put_inode inum zero_inode m else Inr m)"

text \<open>
  The constructor formats the disk and allocates the root directory, which must get number 1; if it
  does not, the code exits the process, which is the result \<open>None\<close>.
\<close>

definition inode_manager_init :: "(nat \<Rightarrow> u32) \<Rightarrow> fault + inode_manager option" where
  "inode_manager_init clk =
     bindF (alloc_inode T_DIR \<lparr>bm = block_manager_init, clock = clk, ticks = 0\<rparr>) (\<lambda>(root_dir, m).
       Inr (if root_dir \<noteq> 1 then None else Some m))"

subsection \<open>The inode table as a function\<close>

definition inode_at :: "inode_manager \<Rightarrow> u32 \<Rightarrow> inode" where
  "inode_at m i = decode_inode (blk (bm m) (iblk i))"

definition set_inode :: "u32 \<Rightarrow> inode \<Rightarrow> inode_manager \<Rightarrow> inode_manager" where
  "set_inode i ino m = m\<lparr>bm := put_blk (iblk i) (encode_inode ino (blk (bm m) (iblk i))) (bm m)\<rparr>"

definition new_inode :: "u32 \<Rightarrow> u32 \<Rightarrow> inode" where
  "new_inode type now = \<lparr>itype = ucast type, isize = 0, atime = now, mtime = now, ctime = now,
     iblocks = replicate 101 0\<rparr>"

lemma length_iblocks_at [simp]: "length (iblocks (inode_at m i)) = 101"
  by (simp add: inode_at_def)

lemma time_now_simps [simp]:
  "bm (snd (time_now m)) = bm m" "inode_at (snd (time_now m)) i = inode_at m i"
  by (simp_all add: time_now_def inode_at_def)

lemma inum_ok_iff: "inum_ok i \<longleftrightarrow> \<not> 1024 < i \<and> i \<noteq> 0"
  by (auto simp: inum_ok_def word_le_nat_alt word_less_nat_alt word_unat_eq_iff)

lemma get_inode_ok:
  "fmt (bm m) \<Longrightarrow> get_inode i m = Inr (if inum_ok i then Some (inode_at m i) else None)"
proof (cases "inum_ok i")
  case True
  then have "\<not> 1024 < i" "i \<noteq> 0" by (simp_all add: inum_ok_iff)
  moreover assume "fmt (bm m)"
  ultimately show ?thesis
    using True iblk_in_disk[OF True] by (simp add: get_inode_def bm_read_def read_block_ok inode_at_def)
qed (auto simp: get_inode_def inum_ok_iff)

lemma put_inode_ok:
  assumes "fmt (bm m)" "inum_ok i" "length (iblocks ino) = 101"
  shows "put_inode i ino m = Inr (set_inode i ino m)"
proof -
  have "\<not> 1024 < i" "i \<noteq> 0" using assms(2) by (simp_all add: inum_ok_iff)
  then show ?thesis
    using assms iblk_in_disk[OF assms(2)]
    by (simp add: put_inode_def bm_read_def bm_write_def read_block_ok write_block_ok length_encode set_inode_def)
qed

lemma fmt_set_inode: "fmt (bm m) \<Longrightarrow> length (iblocks ino) = 101 \<Longrightarrow> fmt (bm (set_inode i ino m))"
  by (simp add: set_inode_def fmt_put_blk length_encode)

lemma inode_at_set_inode:
  "fmt (bm m) \<Longrightarrow> length (iblocks ino) = 101 \<Longrightarrow>
   inode_at (set_inode i ino m) j = (if j = i then ino else inode_at m j)"
  by (simp add: inode_at_def set_inode_def decode_encode)

lemma used_set_inode: "inum_ok i \<Longrightarrow> b < 2097152 \<Longrightarrow> used (bm (set_inode i ino m)) b = used (bm m) b"
  using inode_not_bitmap[of i b] by (simp add: set_inode_def used_put_blk)

lemma blk_set_inode: "c \<noteq> iblk i \<Longrightarrow> blk (bm (set_inode i ino m)) c = blk (bm m) c"
  by (simp add: set_inode_def)

lemma iblk_nonzero: "inum_ok i \<Longrightarrow> iblk i \<noteq> 0"
  using iblk_range[of i] by auto

lemma find_scan_cases:
  assumes "fmt (bm m)" "1 \<le> start" "start \<le> 1025"
  shows "(\<exists>i. start \<le> i \<and> i \<le> 1024 \<and> itype (inode_at m i) = 0
            \<and> (\<forall>j. start \<le> j \<and> j < i \<longrightarrow> itype (inode_at m j) \<noteq> 0) \<and> find_scan start m = Inr i)
       \<or> (\<forall>j. start \<le> j \<and> j \<le> 1024 \<longrightarrow> itype (inode_at m j) \<noteq> 0) \<and> find_scan start m = Inl Null_deref"
  using assms
proof (induction start m rule: find_scan.induct)
  case (1 start m)
  note eq = find_scan.simps[of start m]
  have small: "start \<le> 2097152" using "1.prems"(3) by (rule order_trans) simp
  show ?case
  proof (cases "start \<le> 1024")
    case False
    then have "\<not> inum_ok start" by (simp add: inum_ok_def)
    moreover have "\<forall>j. start \<le> j \<and> j \<le> 1024 \<longrightarrow> itype (inode_at m j) \<noteq> 0"
      using False by (meson order_trans)
    ultimately show ?thesis
      using "1.prems" small eq by (simp add: get_inode_ok)
  next
    case le: True
    then have ok: "inum_ok start" using "1.prems"(2) by (simp add: inum_ok_def)
    show ?thesis
    proof (cases "itype (inode_at m start) = 0")
      case True
      then show ?thesis
        using "1.prems"(1) small ok le eq by (intro disjI1 exI[of _ start]) (auto simp: get_inode_ok)
    next
      case False
      have next_le: "start + 1 \<le> j \<longleftrightarrow> start \<le> j \<and> j \<noteq> start" for j
        using le by (auto simp: word_le_nat_alt word_unat_eq_iff unat_word_ariths)
      have range: "1 \<le> start + 1" "start + 1 \<le> 1025"
        using le by (auto simp: word_le_nat_alt unat_word_ariths)
      have "find_scan start m = find_scan (start + 1) m"
        using "1.prems"(1) small ok False eq by (simp add: get_inode_ok)
      moreover note "1.IH"[OF _ _ _ False "1.prems"(1) range, of "Some (inode_at m start)"]
      ultimately show ?thesis
        using "1.prems"(1) small ok False unfolding next_le by (auto simp: get_inode_ok)
    qed
  qed
qed

lemma alloc_inode_cases:
  assumes "fmt (bm m)" and "type \<in> {T_DIR, T_FILE, T_LNK}"
  obtains (got) i where "inum_ok i" "itype (inode_at m i) = 0"
      "\<forall>j. inum_ok j \<and> j < i \<longrightarrow> itype (inode_at m j) \<noteq> 0"
      "alloc_inode type m = Inr (i, set_inode i (new_inode type (clock m (ticks m))) (m\<lparr>ticks := Suc (ticks m)\<rparr>))"
    | (full) "\<forall>j. inum_ok j \<longrightarrow> itype (inode_at m j) \<noteq> 0" "alloc_inode type m = Inl Null_deref"
proof -
  have ty: "\<not> (type \<noteq> T_DIR \<and> type \<noteq> T_FILE \<and> type \<noteq> T_LNK)" using assms(2) by auto
  have "(1::u32) \<le> 1025" by simp
  from find_scan_cases[OF assms(1) order_refl this] show thesis
  proof (elim disjE exE conjE)
    fix i
    assume i: "1 \<le> i" "i \<le> 1024" "itype (inode_at m i) = 0"
      "\<forall>j. 1 \<le> j \<and> j < i \<longrightarrow> itype (inode_at m j) \<noteq> 0" "find_scan 1 m = Inr i"
    then have ok: "inum_ok i" and "i \<noteq> 0" by (auto simp: inum_ok_def)
    then have "alloc_inode type m
        = Inr (i, set_inode i (new_inode type (clock m (ticks m))) (m\<lparr>ticks := Suc (ticks m)\<rparr>))"
      using ty i(5) assms(1)
      by (simp add: alloc_inode_def find_free_inode_def time_now_def put_inode_ok new_inode_def)
    moreover have "\<forall>j. inum_ok j \<and> j < i \<longrightarrow> itype (inode_at m j) \<noteq> 0"
      using i(4) by (auto simp: inum_ok_def)
    ultimately show thesis using got ok i(3) by blast
  next
    assume "\<forall>j. 1 \<le> j \<and> j \<le> 1024 \<longrightarrow> itype (inode_at m j) \<noteq> 0" "find_scan 1 m = Inl Null_deref"
    then show thesis
      using full ty by (simp add: alloc_inode_def find_free_inode_def inum_ok_def)
  qed
qed

subsection \<open>The interface of the inode layer\<close>

text \<open>
  What files and directories are built from: the block store, and beside it a table of inodes,
  of which \<open>get\<close> reads, \<open>save\<close> writes and \<open>create\<close> takes a free one. Block operations leave the
  inodes alone and inode operations the data blocks; none touches the content \<open>boot\<close> of block 0.
\<close>

locale volume = block_store ok valid_block in_use contents alloc release put
  for ok :: "'s \<Rightarrow> bool" and valid_block in_use contents alloc release put +
  fixes inode :: "'s \<Rightarrow> u32 \<Rightarrow> inode" and boot :: "'s \<Rightarrow> bytes"
    and get :: "u32 \<Rightarrow> 's \<Rightarrow> fault + inode option"
    and save :: "u32 \<Rightarrow> inode \<Rightarrow> 's \<Rightarrow> fault + 's"
    and create :: "u32 \<Rightarrow> 's \<Rightarrow> fault + u32 \<times> 's"
  assumes alloc_frame: "ok s \<Longrightarrow> alloc s = Inr (b, s') \<Longrightarrow>
      (\<forall>j. inum_ok j \<longrightarrow> inode s' j = inode s j) \<and> boot s' = boot s"
    and put_frame: "ok s \<Longrightarrow> valid_block b \<Longrightarrow> put b buf s = Inr s' \<Longrightarrow>
      (\<forall>j. inum_ok j \<longrightarrow> inode s' j = inode s j) \<and> boot s' = boot s"
    and release_frame: "ok s \<Longrightarrow> valid_block b \<Longrightarrow> release b s = Inr s' \<Longrightarrow>
      (\<forall>j. inum_ok j \<longrightarrow> inode s' j = inode s j) \<and> boot s' = boot s"
    and get_eq: "ok s \<Longrightarrow> get i s = Inr (if inum_ok i then Some (inode s i) else None)"
    and inode_wf: "length (iblocks (inode s i)) = 101"
    and save_returns: "ok s \<Longrightarrow> inum_ok i \<Longrightarrow> length (iblocks x) = 101 \<Longrightarrow> \<exists>s'. save i x s = Inr s'"
    and save_does: "ok s \<Longrightarrow> inum_ok i \<Longrightarrow> length (iblocks x) = 101 \<Longrightarrow> save i x s = Inr s' \<Longrightarrow>
      ok s' \<and> (\<forall>j. inum_ok j \<longrightarrow> inode s' j = (if j = i then x else inode s j)) \<and> boot s' = boot s
      \<and> (\<forall>b. valid_block b \<longrightarrow> in_use s' b = in_use s b \<and> contents s' b = contents s b)"
    and create_full: "ok s \<Longrightarrow> t \<in> {1, 2, 3} \<Longrightarrow> \<forall>j. inum_ok j \<longrightarrow> itype (inode s j) \<noteq> 0 \<Longrightarrow>
      create t s = Inl Null_deref"
    and create_returns: "ok s \<Longrightarrow> t \<in> {1, 2, 3} \<Longrightarrow> inum_ok j \<Longrightarrow> itype (inode s j) = 0 \<Longrightarrow>
      \<exists>i s'. create t s = Inr (i, s')"
    and create_does: "ok s \<Longrightarrow> t \<in> {1, 2, 3} \<Longrightarrow> create t s = Inr (i, s') \<Longrightarrow>
      ok s' \<and> inum_ok i \<and> itype (inode s i) = 0 \<and> (\<exists>now. inode s' i = new_inode t now)
      \<and> (\<forall>j. inum_ok j \<and> j \<noteq> i \<longrightarrow> inode s' j = inode s j) \<and> boot s' = boot s
      \<and> (\<forall>b. valid_block b \<longrightarrow> in_use s' b = in_use s b \<and> contents s' b = contents s b)"
begin

text \<open>
  \<open>s'\<close> extends \<open>s\<close> except for the inodes in \<open>X\<close>: every other allocated inode and every block in use
  is still there, unchanged. This is what lets two files live on one disk.
\<close>

definition ext :: "u32 set \<Rightarrow> 's \<Rightarrow> 's \<Rightarrow> bool" where
  "ext X s s' \<longleftrightarrow> ok s' \<and> keeps s s' \<and> boot s' = boot s
     \<and> (\<forall>j. inum_ok j \<and> itype (inode s j) \<noteq> 0 \<and> j \<notin> X \<longrightarrow> inode s' j = inode s j)"

lemma ext_refl: "ok s \<Longrightarrow> ext X s s"
  by (simp add: ext_def keeps_refl)

lemma ext_ok: "ext X s s' \<Longrightarrow> ok s'"
  by (simp add: ext_def)

lemma ext_inode: "ext X s s' \<Longrightarrow> inum_ok j \<Longrightarrow> itype (inode s j) \<noteq> 0 \<Longrightarrow> j \<notin> X \<Longrightarrow> inode s' j = inode s j"
  by (simp add: ext_def)

lemma ext_block: "ext X s s' \<Longrightarrow> valid_block b \<Longrightarrow> in_use s b \<Longrightarrow> in_use s' b \<and> contents s' b = contents s b"
  by (simp add: ext_def keeps_def)

lemma ext_boot: "ext X s s' \<Longrightarrow> boot s' = boot s"
  by (simp add: ext_def)

lemma ext_trans: "ext X s t \<Longrightarrow> ext X t u \<Longrightarrow> ext X s u"
  unfolding ext_def using keeps_trans[of s t u] by auto

lemma ext_trans_fresh:
  "ext X s t \<Longrightarrow> ext Y t u \<Longrightarrow> (\<And>j. j \<in> Y \<Longrightarrow> j \<in> X \<or> itype (inode s j) = 0) \<Longrightarrow> ext X s u"
  unfolding ext_def using keeps_trans[of s t u] by (metis (no_types, lifting))

lemma ext_mono: "ext X s t \<Longrightarrow> X \<subseteq> Y \<Longrightarrow> ext Y s t"
  by (auto simp: ext_def)

lemma ext_alloc: "ok s \<Longrightarrow> alloc s = Inr (b, s') \<Longrightarrow> ext X s s'"
  using alloc_keeps[of s b s'] alloc_frame[of s b s'] by (simp add: ext_def)

lemma ext_fill:
  assumes "ok s" "alloc s = Inr (b, s1)" "b \<noteq> 0" "put b buf s1 = Inr s2"
  shows "ext X s s2"
proof -
  have s1: "ok s1" "valid_block b" using alloc_got[OF assms(1-3)] by auto
  then show ?thesis
    using fill_fresh[OF assms] alloc_frame[OF assms(1,2)] put_frame[OF s1 assms(4)] by (simp add: ext_def)
qed

lemma ext_put_fresh:
  assumes "ext X r s" "valid_block b" "\<not> in_use r b" "put b buf s = Inr s'"
  shows "ext X r s'"
  using put_fresh_keeps[of s b r buf s'] put_frame[OF ext_ok[OF assms(1)] assms(2,4)] assms
  by (simp add: ext_def)

lemma ext_save: "ok s \<Longrightarrow> inum_ok i \<Longrightarrow> length (iblocks x) = 101 \<Longrightarrow> save i x s = Inr s' \<Longrightarrow> i \<in> X \<Longrightarrow> ext X s s'"
  using save_does[of s i x s'] by (auto simp: ext_def keeps_def)

lemma ext_create: "ok s \<Longrightarrow> t \<in> {1, 2, 3} \<Longrightarrow> create t s = Inr (i, s') \<Longrightarrow> ext X s s'"
  using create_does[of s t i s'] by (auto simp: ext_def keeps_def)

lemma free_set_save:
  "ok s \<Longrightarrow> inum_ok i \<Longrightarrow> length (iblocks x) = 101 \<Longrightarrow> save i x s = Inr s' \<Longrightarrow> free_set s' = free_set s"
  using save_does[of s i x s'] by (auto simp: free_set_def)

lemma free_set_create:
  "ok s \<Longrightarrow> t \<in> {1, 2, 3} \<Longrightarrow> create t s = Inr (i, s') \<Longrightarrow> free_set s' = free_set s"
  using create_does[of s t i s'] by (auto simp: free_set_def)

lemma release_all:
  assumes "ok s" "distinct bs" "\<forall>b \<in> set bs. valid_block b \<and> in_use s b"
  shows "\<exists>s'. each_sub_st release bs s = Inr s' \<and> ok s' \<and> boot s' = boot s
    \<and> (\<forall>j. inum_ok j \<longrightarrow> inode s' j = inode s j)
    \<and> (\<forall>c. valid_block c \<longrightarrow> in_use s' c = (c \<notin> set bs \<and> in_use s c)
         \<and> contents s' c = (if c \<in> set bs then replicate 512 0 else contents s c))"
  using assms
proof (induction bs arbitrary: s)
  case Nil
  then show ?case by simp
next
  case (Cons b bs)
  have b: "b \<noteq> 0" "valid_block b" "in_use s b" using Cons.prems(3) zero_invalid by auto
  obtain s1 where s1: "release b s = Inr s1" using release_returns[OF Cons.prems(1) b(2)] ..
  note rel = release_does[OF Cons.prems(1) b(2,3) s1] release_frame[OF Cons.prems(1) b(2) s1]
  have "\<forall>c \<in> set bs. valid_block c \<and> in_use s1 c" using Cons.prems(2,3) rel(1) by auto
  with Cons.IH[of s1] rel(1) Cons.prems(2) obtain s' where
    "each_sub_st release bs s1 = Inr s'" "ok s'" "boot s' = boot s1" "\<forall>j. inum_ok j \<longrightarrow> inode s' j = inode s1 j"
    "\<forall>c. valid_block c \<longrightarrow> in_use s' c = (c \<notin> set bs \<and> in_use s1 c)
         \<and> contents s' c = (if c \<in> set bs then replicate 512 0 else contents s1 c)" by auto
  then show ?case using b(1) s1 rel by (intro exI[of _ s']) simp
qed

end

abbreviation ok :: "inode_manager \<Rightarrow> bool" where "ok m \<equiv> fmt (bm m)"
abbreviation in_use :: "inode_manager \<Rightarrow> u32 \<Rightarrow> bool" where "in_use m \<equiv> used (bm m)"
abbreviation data :: "inode_manager \<Rightarrow> u32 \<Rightarrow> bytes" where "data m \<equiv> blk (bm m)"

lemma bm_read_ok: "ok m \<Longrightarrow> b < 2097152 \<Longrightarrow> bm_read b m = Inr (data m b)"
  by (simp add: bm_read_def read_block_ok)

lemma bm_alloc_Inr: "bm_alloc m = Inr (b, m') \<longleftrightarrow> (\<exists>x. alloc_block (bm m) = Inr (b, x) \<and> m' = m\<lparr>bm := x\<rparr>)"
  by (auto simp: bm_alloc_def bindF_eq_Inr)

lemma bm_write_Inr: "bm_write b buf m = Inr m' \<longleftrightarrow> (\<exists>x. write_block b buf (bm m) = Inr x \<and> m' = m\<lparr>bm := x\<rparr>)"
  by (auto simp: bm_write_def bindF_eq_Inr)

lemma bm_free_Inr: "bm_free b m = Inr m' \<longleftrightarrow> (\<exists>x. free_block b (bm m) = Inr x \<and> m' = m\<lparr>bm := x\<rparr>)"
  by (auto simp: bm_free_def bindF_eq_Inr)

lemma inode_at_cong: "data m' (iblk j) = data m (iblk j) \<Longrightarrow> inode_at m' j = inode_at m j"
  by (simp add: inode_at_def)

lemma write_data_block:
  assumes "ok m" "data_block b" "bm_write b buf m = Inr m'"
  shows "inum_ok j \<Longrightarrow> inode_at m' j = inode_at m j" and "data m' 0 = data m 0"
  using assms data_not_inode[OF assms(2)] data_block_nonzero[OF assms(2)]
  by (auto simp: bm_write_Inr write_block_Inr intro!: inode_at_cong)

lemma alloc_block_frame:
  assumes "ok m" "bm_alloc m = Inr (b, m')" "off_bitmap c"
  shows "data m' c = data m c"
  using assms blk_alloc_block by (auto simp: bm_alloc_Inr)

lemma free_block_frame:
  assumes "ok m" "data_block b" "bm_free b m = Inr m'" "off_bitmap c" "c \<noteq> b"
  shows "data m' c = data m c"
  using assms blk_free_block by (auto simp: bm_free_Inr)

lemma set_inode_frame:
  assumes "ok m" "inum_ok i" "length (iblocks ino) = 101"
  shows "ok (set_inode i ino m)" and "data (set_inode i ino m) 0 = data m 0"
    and "data_block b \<Longrightarrow> in_use (set_inode i ino m) b = in_use m b \<and> data (set_inode i ino m) b = data m b"
    and "inode_at (set_inode i ino m) j = (if j = i then ino else inode_at m j)"
  using assms iblk_nonzero[OF assms(2)] data_not_inode[of b i]
  by (auto simp: fmt_set_inode blk_set_inode used_set_inode data_block_lt inode_at_set_inode)

lemma inode_at_ticks [simp]: "inode_at (m\<lparr>ticks := n\<rparr>) i = inode_at m i"
  by (simp add: inode_at_def)

interpretation vol: volume ok data_block in_use data bm_alloc bm_free bm_write inode_at "\<lambda>m. data m 0"
  get_inode put_inode alloc_inode
proof unfold_locales
  fix s s' :: inode_manager and b i :: u32 and buf :: bytes
  show "\<not> data_block 0" by (rule bs.zero_invalid)
  show "length (iblocks (inode_at s i)) = 101" by simp
  assume ok: "ok s"
  show "\<exists>b s'. bm_alloc s = Inr (b, s')"
    using bs.alloc_returns[OF ok] by (auto simp: bm_alloc_Inr)
  show "s' = s \<and> (\<forall>c. data_block c \<longrightarrow> in_use s c)" if "bm_alloc s = Inr (0, s')"
    using that bs.alloc_full[OF ok] by (auto simp: bm_alloc_Inr)
  show "ok s' \<and> data_block b \<and> \<not> in_use s b \<and> (\<forall>c. in_use s' c \<longleftrightarrow> c = b \<or> in_use s c)
      \<and> (\<forall>c. data_block c \<longrightarrow> data s' c = data s c)" if "bm_alloc s = Inr (b, s')" "b \<noteq> 0"
    using that bs.alloc_got[OF ok _ that(2)] by (auto simp: bm_alloc_Inr)
  show "\<exists>s'. bm_write b buf s = Inr s'" if "data_block b" "512 \<le> length buf"
    using bs.put_returns[OF ok that] by (auto simp: bm_write_Inr)
  show "ok s' \<and> (\<forall>c. data_block c \<longrightarrow> in_use s' c = in_use s c) \<and> data s' = (data s)(b := take 512 buf)"
    if "data_block b" "bm_write b buf s = Inr s'"
    using that bs.put_does[OF ok that(1)] by (fastforce simp: bm_write_Inr)
  show "\<exists>s'. bm_free b s = Inr s'" if "data_block b"
    using bs.release_returns[OF ok that] by (auto simp: bm_free_Inr)
  show "ok s' \<and> (\<forall>c. data_block c \<longrightarrow> in_use s' c = (c \<noteq> b \<and> in_use s c))
      \<and> (\<forall>c. data_block c \<longrightarrow> data s' c = (if c = b then replicate 512 0 else data s c))"
    if "data_block b" "in_use s b" "bm_free b s = Inr s'"
    using that bs.release_does[OF ok that(1,2)] by (fastforce simp: bm_free_Inr)
  show "(\<forall>j. inum_ok j \<longrightarrow> inode_at s' j = inode_at s j) \<and> data s' 0 = data s 0" if "bm_alloc s = Inr (b, s')"
    using alloc_block_frame[OF ok that] by (auto intro: inode_at_cong)
  show "(\<forall>j. inum_ok j \<longrightarrow> inode_at s' j = inode_at s j) \<and> data s' 0 = data s 0"
    if "data_block b" "bm_write b buf s = Inr s'"
    using write_data_block[OF ok that] by auto
  show "(\<forall>j. inum_ok j \<longrightarrow> inode_at s' j = inode_at s j) \<and> data s' 0 = data s 0"
    if "data_block b" "bm_free b s = Inr s'"
    using free_block_frame[OF ok that] data_not_inode[OF that(1)] data_block_nonzero[OF that(1)]
    by (auto intro!: inode_at_cong)
  show "get_inode i s = Inr (if inum_ok i then Some (inode_at s i) else None)"
    using ok by (rule get_inode_ok)
  show "\<exists>s'. put_inode i x s = Inr s'" if "inum_ok i" "length (iblocks x) = 101" for x
    using put_inode_ok[OF ok that] by simp
  show "ok s' \<and> (\<forall>j. inum_ok j \<longrightarrow> inode_at s' j = (if j = i then x else inode_at s j)) \<and> data s' 0 = data s 0
      \<and> (\<forall>b. data_block b \<longrightarrow> in_use s' b = in_use s b \<and> data s' b = data s b)"
    if "inum_ok i" "length (iblocks x) = 101" "put_inode i x s = Inr s'" for x
    using put_inode_ok[OF ok that(1,2)] set_inode_frame[OF ok that(1,2)] that(3) by auto
  fix t :: u32
  assume t: "t \<in> {1, 2, 3}"
  show "alloc_inode t s = Inl Null_deref" if "\<forall>j. inum_ok j \<longrightarrow> itype (inode_at s j) \<noteq> 0"
    using ok t by (rule alloc_inode_cases) (use that in auto)
  show "\<exists>i s'. alloc_inode t s = Inr (i, s')" if "inum_ok j" "itype (inode_at s j) = 0" for j
    using ok t by (rule alloc_inode_cases) (use that in auto)
  show "ok s' \<and> inum_ok i \<and> itype (inode_at s i) = 0 \<and> (\<exists>now. inode_at s' i = new_inode t now)
      \<and> (\<forall>j. inum_ok j \<and> j \<noteq> i \<longrightarrow> inode_at s' j = inode_at s j) \<and> data s' 0 = data s 0
      \<and> (\<forall>b. data_block b \<longrightarrow> in_use s' b = in_use s b \<and> data s' b = data s b)"
    if a: "alloc_inode t s = Inr (i, s')"
    using ok t
  proof (rule alloc_inode_cases)
    fix k
    let ?n = "new_inode t (clock s (ticks s))" and ?s = "s\<lparr>ticks := Suc (ticks s)\<rparr>"
    assume k: "inum_ok k" "itype (inode_at s k) = 0" "alloc_inode t s = Inr (k, set_inode k ?n ?s)"
    have "ok ?s" "length (iblocks ?n) = 101" using ok by (simp_all add: new_inode_def)
    note f = set_inode_frame[OF this(1) k(1) this(2)]
    have eq: "i = k" "s' = set_inode k ?n ?s" using a k(3) by auto
    show ?thesis using k f unfolding eq by auto
  qed (use a in auto)
qed


text \<open>\<open>only_inode m m' i x\<close>: \<open>m'\<close> is \<open>m\<close> with \<open>x\<close> stored as inode \<open>i\<close>.\<close>

definition only_inode :: "inode_manager \<Rightarrow> inode_manager \<Rightarrow> u32 \<Rightarrow> inode \<Rightarrow> bool" where
  "only_inode m m' i x \<longleftrightarrow> ok m' \<and> inode_at m' i = x \<and> (\<forall>j. inum_ok j \<and> j \<noteq> i \<longrightarrow> inode_at m' j = inode_at m j)
     \<and> (\<forall>b. data_block b \<longrightarrow> in_use m' b = in_use m b \<and> data m' b = data m b) \<and> data m' 0 = data m 0"

lemma put_only_inode:
  assumes "ok m" "inum_ok i" "length (iblocks x) = 101"
  obtains m' where "put_inode i x m = Inr m'" "only_inode m m' i x"
  using vol.save_returns[OF assms] vol.save_does[OF assms] assms(2) by (auto simp: only_inode_def)

lemma only_inode_trans: "only_inode m m1 i x \<Longrightarrow> only_inode m1 m2 i y \<Longrightarrow> only_inode m m2 i y"
  by (auto simp: only_inode_def)

end
