(* ===== verification/File_Layer.thy ===== *)
theory File_Layer imports Inode_Layer begin

text \<open>
  Files of \<open>inode_manager\<close>: reading, writing, sizes, resizing and removal. A file of at most 100
  blocks is its inode's direct pointers. A larger one has in pointer 100 a block of up to 128 numbers
  of further inodes, each the inode of the next piece of the file, by the same rule again.
  \<open>write_file\<close> recurses on its buffer. The methods that follow the numbers recurse along the disk
  and take fuel, the number of levels they may go down: \<open>max_depth\<close> at every call from outside.
  There are 1024 inodes, so a run that goes deeper has met one of them twice on its way down and the
  code's recursion does not end.
\<close>

abbreviation (input) max_depth :: nat where "max_depth \<equiv> 1025"

subsection \<open>read_file\<close>

text \<open>
  Both callers pass a null buffer and size 0, which is what they still hold if the inode number is
  out of range: the empty content. The code also stores a zero byte one past the end of the
  512-byte local array \<open>buf\<close> in each turn of the loop over the direct blocks. That byte is part of
  no variable of the program, and the model gives the store no effect.
\<close>

fun read_file :: "nat \<Rightarrow> u32 \<Rightarrow> inode_manager \<Rightarrow> fault + bytes" where
  "read_file 0 inum m = Inl Diverges"
| "read_file (Suc f) inum m = bindF (get_inode inum m) (\<lambda>r. case r of
       None \<Rightarrow> Inr []
     | Some ino \<Rightarrow>
         bindF (mapF (\<lambda>b. bm_read b m) (take (min (unat (isize ino)) NDIRECT) (iblocks ino))) (\<lambda>direct_bufs.
         bindF (if isize ino > NDIRECT
                then bindF (bm_read (iblocks ino ! NDIRECT) m) (\<lambda>inum_buf.
                  each_sub (\<lambda>i. read_file f i m) (u32s_of_block inum_buf))
                else Inr []) (\<lambda>indirect_bufs.
         Inr (strip0 (concat (direct_bufs @ indirect_bufs))))))"

subsection \<open>write_file\<close>

text \<open>\<open>memcpy\<close> of \<open>n\<close> bytes from the front of a buffer, which must hold that many.\<close>

definition copy_in :: "nat \<Rightarrow> bytes \<Rightarrow> fault + bytes" where
  "copy_in n src = (if n \<le> length src then Inr (take n src) else Inl Out_of_bounds)"

text \<open>The number of blocks of \<open>size\<close> bytes: \<open>size / BLOCK_SIZE + (size % BLOCK_SIZE != 0)\<close>.\<close>

definition n_blocks :: "int \<Rightarrow> nat" where
  "n_blocks sz = nat (sz div BLOCK_SIZE + (if sz mod BLOCK_SIZE \<noteq> 0 then 1 else 0))"

text \<open>The loop over the direct blocks, with \<open>n\<close> turns left, at block \<open>i\<close>.\<close>

fun write_direct :: "nat \<Rightarrow> nat \<Rightarrow> bytes \<Rightarrow> int \<Rightarrow> inode \<Rightarrow> inode_manager \<Rightarrow> fault + inode \<times> inode_manager" where
  "write_direct 0 i buf sz ino m = Inr (ino, m)"
| "write_direct (Suc n) i buf sz ino m = bindF (bm_alloc m) (\<lambda>(b, m1).
     if b > 0 then
       bindF (if BLOCK_SIZE * (int i + 1) > sz
              then bindF (copy_in (nat (sz - BLOCK_SIZE * int i)) (drop (BLOCK_SIZE * i) buf)) (\<lambda>part.
                bm_write b (part @ replicate (BLOCK_SIZE - length part) 0) m1)
              else bm_write b (drop (BLOCK_SIZE * i) buf) m1) (\<lambda>m2.
       write_direct n (Suc i) buf sz (ino\<lparr>iblocks := (iblocks ino)[i := b]\<rparr>) m2)
     else Inl Bad_alloc)"

text \<open>
  The whole method, with the loop over the pieces after the first 51200 bytes. The code's loop is a
  \<open>do\<close> loop whose condition holds at the entry, because the branch is only taken when \<open>size\<close> is larger
  than the direct part, so testing it first is the same. The 32-bit differences of sizes that
  the code computes are below \<open>2 ^ 31\<close> in absolute value, and reading the last one as an \<open>int\<close> argument
  gives the (then possibly negative) difference back.
\<close>

function write_file :: "u32 \<Rightarrow> bytes \<Rightarrow> int \<Rightarrow> inode_manager \<Rightarrow> fault + inode_manager"
  and write_subs :: "nat \<Rightarrow> bytes \<Rightarrow> int \<Rightarrow> u32 list \<Rightarrow> inode_manager \<Rightarrow> fault + nat \<times> u32 list \<times> inode_manager"
where
  "write_file inum buf sz m =
     (if sz < 0 then Inr m
      else bindF (get_inode inum m) (\<lambda>r. case r of
          None \<Rightarrow> Inr m
        | Some ino \<Rightarrow>
            bindF (write_direct (min (n_blocks sz) NDIRECT) 0 buf sz ino m) (\<lambda>(ino1, m1).
            bindF (if sz > NDIRECT * BLOCK_SIZE
                   then bindF (bm_alloc m1) (\<lambda>(b, m2).
                     if b = 0 then Inl Bad_alloc
                     else bindF (write_subs 0 buf sz (replicate NINDIRECT 0) m2) (\<lambda>(i, inodes, m3).
                       bindF (if i = NINDIRECT - 1
                              then bindF (alloc_inode T_FILE m3) (\<lambda>(inode_num, m4).
                                bindF (write_file inode_num (drop (NDIRECT * BLOCK_SIZE * (i + 1)) buf)
                                         (sz - NDIRECT * BLOCK_SIZE * (int i + 1)) m4) (\<lambda>m5.
                                Inr (inodes[i := inode_num], m5)))
                              else Inr (inodes, m3)) (\<lambda>(inodes', m6).
                       bindF (bm_write b (block_of_u32s inodes') m6) (\<lambda>m7.
                       Inr (ino1\<lparr>iblocks := (iblocks ino1)[NDIRECT := b]\<rparr>, m7)))))
                   else Inr (ino1, m1)) (\<lambda>(ino2, m8).
            let (now, m9) = time_now m8 in
            put_inode inum (ino2\<lparr>isize := of_nat (min (n_blocks sz) (NDIRECT + 1)), mtime := now\<rparr>) m9))))"
| "write_subs i buf sz inodes m =
     (if sz > NDIRECT * BLOCK_SIZE * (int i + 1) \<and> i < NINDIRECT - 1
      then bindF (alloc_inode T_FILE m) (\<lambda>(inode_num, m1).
        bindF (write_file inode_num (drop (NDIRECT * BLOCK_SIZE * (i + 1)) buf)
                 (min (sz - NDIRECT * BLOCK_SIZE * (int i + 1)) (NDIRECT * BLOCK_SIZE)) m1) (\<lambda>m2.
        write_subs (Suc i) buf sz (inodes[i := inode_num]) m2))
      else Inr (i, inodes, m))"
  by pat_completeness auto
termination
  by (relation "measures [\<lambda>x. case x of Inl (_, _, sz, _) \<Rightarrow> nat sz | Inr (_, _, sz, _, _) \<Rightarrow> nat sz,
                          \<lambda>x. case x of Inl _ \<Rightarrow> 200 | Inr (i, _) \<Rightarrow> 127 - i]") auto

declare write_file.simps [simp del] write_subs.simps [simp del]

subsection \<open>Sizes and attributes\<close>

text \<open>The loop from the last byte of a block down: the index of the last nonzero byte, or 0.\<close>

fun last_nz :: "nat \<Rightarrow> bytes \<Rightarrow> nat" where
  "last_nz 0 block = 0"
| "last_nz (Suc i) block = (if block ! i \<noteq> 0 then i else last_nz i block)"

definition last_non_zero_element_index_in_block :: "u32 \<Rightarrow> inode_manager \<Rightarrow> fault + nat" where
  "last_non_zero_element_index_in_block b m = bindF (bm_read b m) (\<lambda>block. Inr (last_nz BLOCK_SIZE block))"

fun get_file_size :: "nat \<Rightarrow> u32 \<Rightarrow> inode_manager \<Rightarrow> fault + u32" where
  "get_file_size 0 inum m = Inl Diverges"
| "get_file_size (Suc f) inum m = bindF (get_inode inum m) (\<lambda>r. case r of
       None \<Rightarrow> Inl Null_deref
     | Some ino \<Rightarrow>
         if isize ino = 0 then Inr 0
         else if isize ino < NDIRECT + 1
         then bindF (last_non_zero_element_index_in_block (iblocks ino ! unat (isize ino - 1)) m) (\<lambda>i.
           Inr ((isize ino - 1) * BLOCK_SIZE + of_nat i + 1))
         else bindF (bm_read (iblocks ino ! NDIRECT) m) (\<lambda>inum_buf.
           bindF (each_sub (\<lambda>i. get_file_size f i m) (u32s_of_block inum_buf)) (\<lambda>sizes.
           Inr (NDIRECT * BLOCK_SIZE + sum_list sizes))))"

fun get_file_block_num :: "nat \<Rightarrow> u32 \<Rightarrow> inode_manager \<Rightarrow> fault + u32" where
  "get_file_block_num 0 inum m = Inl Diverges"
| "get_file_block_num (Suc f) inum m = bindF (get_inode inum m) (\<lambda>r. case r of
       None \<Rightarrow> Inl Null_deref
     | Some ino \<Rightarrow>
         if isize ino < NDIRECT + 1 then Inr (isize ino)
         else bindF (bm_read (iblocks ino ! NDIRECT) m) (\<lambda>inum_buf.
           bindF (each_sub (\<lambda>i. get_file_block_num f i m) (u32s_of_block inum_buf)) (\<lambda>nums.
           Inr (NDIRECT + sum_list nums))))"

definition get_ino_block_num :: "u32 \<Rightarrow> inode_manager \<Rightarrow> fault + u32" where
  "get_ino_block_num inum m = bindF (get_inode inum m) (\<lambda>r. case r of
       None \<Rightarrow> Inl Null_deref | Some ino \<Rightarrow> Inr (isize ino))"

record attr =
  a_type :: u32
  a_atime :: u32
  a_mtime :: u32
  a_ctime :: u32
  a_size :: u32

definition get_attr :: "nat \<Rightarrow> u32 \<Rightarrow> inode_manager \<Rightarrow> fault + attr" where
  "get_attr f inum m = bindF (get_inode inum m) (\<lambda>r. case r of
       None \<Rightarrow> Inl Null_deref
     | Some ino \<Rightarrow> bindF (get_file_size f inum m) (\<lambda>sz.
         Inr \<lparr>a_type = scast (itype ino), a_atime = atime ino, a_mtime = mtime ino, a_ctime = ctime ino, a_size = sz\<rparr>))"

subsection \<open>remove_file\<close>

fun remove_file :: "nat \<Rightarrow> u32 \<Rightarrow> inode_manager \<Rightarrow> fault + inode_manager" where
  "remove_file 0 inum m = Inl Diverges"
| "remove_file (Suc f) inum m = bindF (get_inode inum m) (\<lambda>r. case r of
       None \<Rightarrow> Inl Null_deref
     | Some ino \<Rightarrow>
         if itype ino = 0 then Inr m
         else bindF (each_sub_st bm_free (take NDIRECT (iblocks ino)) m) (\<lambda>m1.
           bindF (if isize ino > NDIRECT
                  then bindF (bm_read (iblocks ino ! NDIRECT) m1) (\<lambda>inodes.
                    each_sub_st (remove_file f) (u32s_of_block inodes) m1)
                  else Inr m1) (\<lambda>m2.
           free_inode inum m2)))"

subsection \<open>set_attr, truncate_file, padding_file\<close>

text \<open>The block count of a \<open>size_t\<close>, stored in a \<open>uint32_t\<close>.\<close>

definition blocks_of_size :: "u64 \<Rightarrow> u32" where
  "blocks_of_size sz = ucast (sz div BLOCK_SIZE + (if sz mod BLOCK_SIZE \<noteq> 0 then 1 else 0))"

fun truncate_file :: "nat \<Rightarrow> u32 \<Rightarrow> u64 \<Rightarrow> inode_manager \<Rightarrow> fault + inode_manager" where
  "truncate_file 0 inum sz m = Inl Diverges"
| "truncate_file (Suc f) inum sz m = bindF (get_inode inum m) (\<lambda>r. case r of
       None \<Rightarrow> Inl Null_deref
     | Some ino \<Rightarrow>
         let remain_blocks = blocks_of_size sz in
         bindF (each_st (\<lambda>i s. if of_nat i \<ge> remain_blocks
                  then bindF (bm_write (iblocks ino ! i) (replicate BLOCK_SIZE 0) s) (bm_free (iblocks ino ! i))
                  else Inr s) [0..<min (unat (isize ino)) NDIRECT] m) (\<lambda>m1.
         bindF (if isize ino > NDIRECT
                then bindF (bm_read (iblocks ino ! NDIRECT) m1) (\<lambda>inum_buf.
                  each_sub_ix (\<lambda>i sub s.
                    let part = (of_nat i + 1) * BLOCK_SIZE * NDIRECT :: u32;
                        adj_size = (if sz > ucast part then ucast (sz - ucast part) else 0) :: u32
                    in truncate_file f sub (ucast adj_size) s) 0 (u32s_of_block inum_buf) m1)
                else Inr m1) (\<lambda>m2.
         if sz = 0 then free_inode inum m2
         else let (now, m3) = time_now m2 in
           put_inode inum (ino\<lparr>isize := min remain_blocks (NDIRECT + 1), mtime := now\<rparr>) m3)))"

text \<open>
  \<open>padding_file\<close>: the loop that adds direct blocks does not check that the allocation succeeded, and
  the table of further inodes is filled in the local buffer only.
\<close>

fun pad_direct :: "nat list \<Rightarrow> inode \<Rightarrow> inode_manager \<Rightarrow> fault + inode \<times> inode_manager" where
  "pad_direct [] ino m = Inr (ino, m)"
| "pad_direct (i # is) ino m =
     (if of_nat i \<ge> isize ino
      then bindF (bm_alloc m) (\<lambda>(b, m1).
        bindF (bm_write b (replicate BLOCK_SIZE 0) m1) (\<lambda>m2.
        pad_direct is (ino\<lparr>iblocks := (iblocks ino)[i := b]\<rparr>) m2))
      else pad_direct is ino m)"

fun pad_subs :: "(u32 \<Rightarrow> u64 \<Rightarrow> inode_manager \<Rightarrow> fault + inode_manager) \<Rightarrow> u16 \<Rightarrow> u32 \<Rightarrow> nat \<Rightarrow> u32 list
    \<Rightarrow> inode_manager \<Rightarrow> fault + inode_manager" where
  "pad_subs pad type final_blocks i [] m = Inr m"
| "pad_subs pad type final_blocks i (x # xs) m =
     (if final_blocks \<le> (of_nat i + 1) * NDIRECT then Inr m
      else bindF (if x = 0 then alloc_inode (scast type) m else Inr (x, m)) (\<lambda>(sub, m1).
        let adj_size = (if final_blocks > (of_nat i + 2) * NDIRECT then NDIRECT
                        else final_blocks - (of_nat i + 1) * NDIRECT) * BLOCK_SIZE
        in bindF (pad sub (ucast adj_size) m1) (pad_subs pad type final_blocks (Suc i) xs)))"

fun padding_file :: "nat \<Rightarrow> u32 \<Rightarrow> u64 \<Rightarrow> inode_manager \<Rightarrow> fault + inode_manager" where
  "padding_file 0 inum sz m = Inl Diverges"
| "padding_file (Suc f) inum sz m = bindF (get_inode inum m) (\<lambda>r. case r of
       None \<Rightarrow> Inl Null_deref
     | Some ino \<Rightarrow>
         let final_blocks = blocks_of_size sz in
         bindF (pad_direct [0..<min (unat final_blocks) NDIRECT] ino m) (\<lambda>(ino1, m1).
         bindF (if final_blocks > NDIRECT
                then bindF (bm_read (iblocks ino1 ! NDIRECT) m1) (\<lambda>inum_buf.
                  pad_subs (padding_file f) (itype ino1) final_blocks 0 (u32s_of_block inum_buf) m1)
                else Inr m1) (\<lambda>m2.
         let (now, m3) = time_now m2 in
         put_inode inum (ino1\<lparr>isize := min final_blocks (NDIRECT + 1), mtime := now\<rparr>) m3)))"

definition set_attr :: "nat \<Rightarrow> u32 \<Rightarrow> u64 \<Rightarrow> inode_manager \<Rightarrow> fault + inode_manager" where
  "set_attr f inum sz m = bindF (get_file_size f inum m) (\<lambda>attr_size.
     if ucast attr_size < sz then truncate_file f inum sz m
     else if ucast attr_size > sz then padding_file f inum sz m
     else Inr m)"

end
