(* ===== verification/File_Content.thy ===== *)
theory File_Content imports File_Layer begin

text \<open>
  What a file holds, as a property of the disk (\<open>file_at\<close>): the inodes and blocks it is stored in
  and the bytes it reads as. A file stays as it was in every state that keeps its inodes and blocks.
  The first lemmas are about the buffer that \<open>write_file\<close> cuts into blocks, and its direct part.
\<close>

subsection \<open>Cutting a buffer into blocks\<close>

definition nth_block :: "bytes \<Rightarrow> nat \<Rightarrow> bytes" where
  "nth_block c k = (let p = take 512 (drop (512 * k) c) in p @ replicate (512 - length p) 0)"

lemma length_nth_block [simp]: "length (nth_block c k) = 512"
  by (simp add: nth_block_def Let_def)

lemma concat_nth_blocks:
  "concat (map (nth_block c) [0..<n]) = take (512 * n) c @ replicate (512 * n - length c) 0"
proof (induction n)
  case 0
  then show ?case by simp
next
  case (Suc n)
  have split: "take (512 * Suc n) c = take (512 * n) c @ take 512 (drop (512 * n) c)"
    by (metis add.commute mult_Suc_right take_add)
  show ?case
  proof (cases "length c \<le> 512 * n")
    case True
    then have "replicate (512 * n - length c) (0::u8) @ replicate 512 0 = replicate (512 * Suc n - length c) 0"
      by (simp add: replicate_add[symmetric])
    with True Suc show ?thesis by (simp add: nth_block_def)
  next
    case False
    then have "512 * n - length c = 0" by simp
    moreover have "512 - length (take 512 (drop (512 * n) c)) = 512 * Suc n - length c"
      using False by (simp add: min_def)
    ultimately show ?thesis using Suc split by (simp add: nth_block_def Let_def)
  qed
qed

lemma n_blocks_int:
  assumes "0 \<le> sz"
  shows "sz \<le> 512 * int (n_blocks sz)" and "512 * int (n_blocks sz) < sz + 512"
proof -
  define q r where "q = sz div 512" and "r = sz mod 512"
  have eq: "sz = 512 * q + r" and r: "0 \<le> r" "r < 512" and q: "0 \<le> q"
    using assms by (simp_all add: q_def r_def)
  have n: "int (n_blocks sz) = (if r = 0 then q else q + 1)"
    using q by (simp add: n_blocks_def q_def[symmetric] r_def[symmetric])
  show "sz \<le> 512 * int (n_blocks sz)"
    unfolding n using eq r q by (cases "r = 0") simp_all
  show "512 * int (n_blocks sz) < sz + 512"
    unfolding n using eq r q by (cases "r = 0") simp_all
qed

lemma n_blocks_covers: "0 \<le> sz \<Longrightarrow> nat sz \<le> 512 * n_blocks sz"
  using n_blocks_int[of sz] by linarith

lemma n_blocks_tight: "k < n_blocks sz \<Longrightarrow> 0 \<le> sz \<Longrightarrow> 512 * int k < sz"
  using n_blocks_int[of sz] by linarith

lemma n_blocks_gt: "0 \<le> sz \<Longrightarrow> 100 < n_blocks sz \<longleftrightarrow> 51200 < sz"
  using n_blocks_int[of sz] by linarith

lemma n_blocks_zero [simp]: "n_blocks 0 = 0"
  by (simp add: n_blocks_def)

subsection \<open>The direct part of a write\<close>

lemma write_one:
  assumes "ok m" "bm_alloc m = Inr (b, m1)" "b > 0"
    and w: "(if 512 * (int i + 1) > sz
             then bindF (copy_in (nat (sz - 512 * int i)) (drop (512 * i) buf)) (\<lambda>part.
               bm_write b (part @ replicate (512 - length part) 0) m1)
             else bm_write b (drop (512 * i) buf) m1) = Inr m2"
    and "512 * int i < sz"
  shows "vol.ext {} m m2 \<and> data_block b \<and> \<not> in_use m b \<and> in_use m2 b
    \<and> data m2 b = nth_block (take (nat sz) buf) i \<and> (\<forall>j. inum_ok j \<longrightarrow> inode_at m2 j = inode_at m j)"
proof -
  from assms(3) have b: "b \<noteq> 0" by auto
  obtain src where src: "bm_write b src m1 = Inr m2" "take 512 src = nth_block (take (nat sz) buf) i"
  proof (cases "512 * (int i + 1) > sz")
    case True
    let ?part = "take (nat (sz - 512 * int i)) (drop (512 * i) buf)"
    have len: "nat (sz - 512 * int i) \<le> length buf - 512 * i"
      and wr: "bm_write b (?part @ replicate (512 - length ?part) 0) m1 = Inr m2"
      using w True by (auto simp: copy_in_def split: if_splits)
    have "nat (sz - 512 * int i) = nat sz - 512 * i" using assms(5) by simp
    moreover have "nat sz - 512 * i < 512" using True assms(5) by (simp add: nat_less_iff)
    ultimately have "take 512 (?part @ replicate (512 - length ?part) 0) = nth_block (take (nat sz) buf) i"
      using len by (simp add: nth_block_def Let_def drop_take min_def)
    with wr show ?thesis using that by blast
  next
    case False
    then have wr: "bm_write b (drop (512 * i) buf) m1 = Inr m2" using w by simp
    then have "512 \<le> length buf - 512 * i" by (auto simp: bm_write_Inr write_block_Inr)
    moreover have "512 \<le> nat sz - 512 * i"
    proof -
      have "int (512 * Suc i) \<le> sz" using False by simp
      then have "512 * Suc i \<le> nat sz" by linarith
      then show ?thesis by simp
    qed
    ultimately have "take 512 (drop (512 * i) buf) = nth_block (take (nat sz) buf) i"
      by (simp add: nth_block_def Let_def drop_take)
    with wr show ?thesis using that by blast
  qed
  have ok1: "ok m1" and db: "data_block b" using vol.alloc_got[OF assms(1,2) b] by auto
  show ?thesis
    using vol.fill_fresh[OF assms(1,2) b src(1)] vol.ext_fill[OF assms(1,2) b src(1), of "{}"]
      vol.alloc_frame[OF assms(1,2)] vol.put_frame[OF ok1 db src(1)] src(2) by simp
qed

lemma write_direct_does:
  assumes "write_direct n i buf sz ino m = Inr (ino', m')"
    and "ok m" "length (iblocks ino) = 101" "i + n \<le> 100" "0 < n \<Longrightarrow> 512 * (int (i + n) - 1) < sz"
  shows "\<exists>bs. length bs = n \<and> ino' = ino\<lparr>iblocks := take i (iblocks ino) @ bs @ drop (i + n) (iblocks ino)\<rparr>
      \<and> distinct bs \<and> (\<forall>k < n. data_block (bs ! k) \<and> \<not> in_use m (bs ! k) \<and> in_use m' (bs ! k)
            \<and> data m' (bs ! k) = nth_block (take (nat sz) buf) (i + k))
      \<and> vol.ext {} m m' \<and> (\<forall>j. inum_ok j \<longrightarrow> inode_at m' j = inode_at m j)"
  using assms
proof (induction n arbitrary: i ino m)
  case 0
  then show ?case by (simp add: vol.ext_refl)
next
  case (Suc n)
  obtain b m1 m2 where al: "bm_alloc m = Inr (b, m1)" "b > 0"
    and wr: "(if 512 * (int i + 1) > sz
             then bindF (copy_in (nat (sz - 512 * int i)) (drop (512 * i) buf)) (\<lambda>part.
               bm_write b (part @ replicate (512 - length part) 0) m1)
             else bm_write b (drop (512 * i) buf) m1) = Inr m2"
    and rest: "write_direct n (Suc i) buf sz (ino\<lparr>iblocks := (iblocks ino)[i := b]\<rparr>) m2 = Inr (ino', m')"
    using Suc.prems(1) by (auto simp: bindF_eq_Inr split: if_splits)
  have one: "vol.ext {} m m2 \<and> data_block b \<and> \<not> in_use m b \<and> in_use m2 b
      \<and> data m2 b = nth_block (take (nat sz) buf) i \<and> (\<forall>j. inum_ok j \<longrightarrow> inode_at m2 j = inode_at m j)"
    using Suc.prems(2) al wr by (rule write_one) (use Suc.prems(5) in simp)
  have "ok m2" using one vol.ext_ok by blast
  from Suc.IH[OF rest this] Suc.prems(3-5)
  obtain bs where bs: "length bs = n"
      "ino' = ino\<lparr>iblocks := take (Suc i) ((iblocks ino)[i := b]) @ bs @ drop (Suc i + n) ((iblocks ino)[i := b])\<rparr>"
      "distinct bs" and each: "\<forall>k < n. data_block (bs ! k) \<and> \<not> in_use m2 (bs ! k) \<and> in_use m' (bs ! k)
            \<and> data m' (bs ! k) = nth_block (take (nat sz) buf) (Suc i + k)"
    and ext: "vol.ext {} m2 m'" and inodes: "\<forall>j. inum_ok j \<longrightarrow> inode_at m' j = inode_at m2 j"
    by auto
  have b_after: "in_use m' b \<and> data m' b = data m2 b"
    using vol.ext_block[OF ext, of b] one by simp
  have old: "\<not> in_use m c" if "data_block c" "\<not> in_use m2 c" for c
    using vol.ext_block[of "{}" m m2 c] one that by blast
  have "b \<notin> set bs" using one each bs(1) by (metis in_set_conv_nth)
  moreover have "take (Suc i) ((iblocks ino)[i := b]) = take i (iblocks ino) @ [b]"
    using Suc.prems(3,4) by (simp add: take_Suc_conv_app_nth)
  moreover have "data_block ((b # bs) ! k) \<and> \<not> in_use m ((b # bs) ! k) \<and> in_use m' ((b # bs) ! k)
      \<and> data m' ((b # bs) ! k) = nth_block (take (nat sz) buf) (i + k)" if "k < Suc n" for k
    using that one b_after each old by (cases k) auto
  moreover have "vol.ext {} m m'" using one ext vol.ext_trans by blast
  ultimately show ?case
    using bs inodes one by (intro exI[of _ "b # bs"]) simp
qed

subsection \<open>What a file holds\<close>

text \<open>
  \<open>file_at m i I B v\<close>: the file at inode \<open>i\<close> of \<open>m\<close> is stored in the inodes \<open>I\<close> and in the data
  blocks \<open>B\<close>, all allocated, and reads as \<open>v\<close>. There is one rule for each layout.
\<close>

inductive file_at :: "inode_manager \<Rightarrow> u32 \<Rightarrow> u32 set \<Rightarrow> u32 set \<Rightarrow> bytes \<Rightarrow> bool" for m :: inode_manager where
  direct: "\<lbrakk>inum_ok i; ino = inode_at m i; itype ino \<noteq> 0; isize ino \<le> 100;
      \<forall>b \<in> set (take (unat (isize ino)) (iblocks ino)). data_block b \<and> in_use m b\<rbrakk>
    \<Longrightarrow> file_at m i {i} (set (take (unat (isize ino)) (iblocks ino)))
          (strip0 (concat (map (data m) (take (unat (isize ino)) (iblocks ino)))))"
| indirect: "\<lbrakk>inum_ok i; ino = inode_at m i; itype ino \<noteq> 0; isize ino > 100;
      \<forall>b \<in> set (iblocks ino). data_block b \<and> in_use m b;
      ns = takeWhile (\<lambda>x. x \<noteq> 0) (u32s_of_block (data m (iblocks ino ! 100)));
      length Is = length ns; length Bs = length ns; length vs = length ns;
      \<forall>k < length ns. file_at m (ns ! k) (Is ! k) (Bs ! k) (vs ! k) \<and> i \<notin> Is ! k\<rbrakk>
    \<Longrightarrow> file_at m i (insert i (\<Union> (set Is))) (set (iblocks ino) \<union> \<Union> (set Bs))
          (strip0 (concat (map (data m) (take 100 (iblocks ino))) @ concat vs))"

lemma Union_nth: "length Xs = n \<Longrightarrow> (\<And>k. k < n \<Longrightarrow> P (Xs ! k)) \<Longrightarrow> X \<in> set Xs \<Longrightarrow> P X"
  by (metis in_set_conv_nth)

lemma nth_Union: "k < length Xs \<Longrightarrow> Xs ! k \<subseteq> \<Union> (set Xs)"
  using nth_mem by fastforce

lemma file_at_inodes: "file_at m i I B v \<Longrightarrow> finite I \<and> i \<in> I \<and> (\<forall>j \<in> I. inum_ok j \<and> itype (inode_at m j) \<noteq> 0)"
proof (induction rule: file_at.induct)
  case (direct i ino)
  then show ?case by simp
next
  case (indirect i ino ns Is Bs vs)
  have "finite J \<and> (\<forall>j \<in> J. inum_ok j \<and> itype (inode_at m j) \<noteq> 0)" if "J \<in> set Is" for J
    using indirect.hyps(7) _ that by (rule Union_nth) (use indirect.IH in blast)
  then show ?case using indirect.hyps(1-3) by auto
qed

lemma file_at_blocks: "file_at m i I B v \<Longrightarrow> finite B \<and> (\<forall>b \<in> B. data_block b \<and> in_use m b)"
proof (induction rule: file_at.induct)
  case (direct i ino)
  then show ?case by simp
next
  case (indirect i ino ns Is Bs vs)
  have "finite C \<and> (\<forall>b \<in> C. data_block b \<and> in_use m b)" if "C \<in> set Bs" for C
    using indirect.hyps(8) _ that by (rule Union_nth) (use indirect.IH in blast)
  then show ?case using indirect.hyps(5) by auto
qed

lemma card_inums: "finite {i. inum_ok i} \<and> card {i. inum_ok i} \<le> 1024"
proof -
  have "{i. inum_ok i} \<subseteq> of_nat ` {1..1024}"
  proof
    fix i :: u32 assume "i \<in> {i. inum_ok i}"
    then have "i = of_nat (unat i)" "1 \<le> unat i" "unat i \<le> 1024"
      by (simp_all add: inum_ok_def word_le_nat_alt)
    then show "i \<in> of_nat ` {1..1024}" by (metis atLeastAtMost_iff imageI)
  qed
  then have "card {i. inum_ok i} \<le> card ((of_nat :: nat \<Rightarrow> u32) ` {1..1024})"
    by (intro card_mono) auto
  also have "\<dots> \<le> card {1..1024::nat}" by (rule card_image_le) simp
  finally show ?thesis by simp
qed

lemma file_at_card: "file_at m i I B v \<Longrightarrow> card I \<le> 1024"
proof -
  assume "file_at m i I B v"
  then have "I \<subseteq> {i. inum_ok i}" using file_at_inodes by blast
  then show ?thesis using card_inums card_mono le_trans by blast
qed

lemma read_list: "ok m \<Longrightarrow> \<forall>b \<in> set bs. data_block b \<Longrightarrow> mapF (\<lambda>b. bm_read b m) bs = Inr (map (data m) bs)"
  by (rule mapF_map) (simp add: bm_read_ok data_block_lt)

lemma read_file_at: "file_at m i I B v \<Longrightarrow> ok m \<Longrightarrow> card I \<le> f \<Longrightarrow> read_file f i m = Inr v"
proof (induction arbitrary: f rule: file_at.induct)
  case (direct i ino)
  then obtain g where f: "f = Suc g" by (cases f) auto
  have le: "unat (isize ino) \<le> 100" "\<not> 100 < isize ino"
    using direct.hyps(4) by (simp_all add: word_le_nat_alt not_less)
  then show ?case
    using direct.hyps(1-3,5) direct.prems(1) by (simp add: f get_inode_ok min_def read_list)
next
  case (indirect i ino ns Is Bs vs)
  define U where "U = \<Union> (set Is)"
  have "finite J \<and> i \<notin> J" if "J \<in> set Is" for J
    using indirect.hyps(7) _ that by (rule Union_nth) (use indirect.IH file_at_inodes in blast)
  then have fin: "finite U" "i \<notin> U" by (auto simp: U_def)
  have "Suc (card U) \<le> f"
    using indirect.prems(2) card_insert_disjoint[OF fin] by (simp only: U_def)
  then obtain g where f: "f = Suc g" and gU: "card U \<le> g"
    by (cases f) auto
  have big: "100 < unat (isize ino)" using indirect.hyps(4) by (simp add: word_less_nat_alt)
  have len: "length (iblocks ino) = 101" using indirect.hyps(2) by simp
  have subs: "each_sub (\<lambda>j. read_file g j m) ns = Inr vs"
  proof (rule each_sub_nth)
    show "length vs = length ns" by (fact indirect.hyps(9))
    fix k assume k: "k < length ns"
    then have "ns ! k \<in> set ns" by simp
    then have "ns ! k \<noteq> 0" unfolding indirect.hyps(6) by (auto dest: set_takeWhileD)
    moreover have "card (Is ! k) \<le> card U"
      using fin(1) nth_Union[of k Is] k indirect.hyps(7) by (intro card_mono) (simp_all add: U_def)
    ultimately show "ns ! k \<noteq> 0 \<and> read_file g (ns ! k) m = Inr (vs ! k)"
      using indirect.IH k indirect.prems(1) gU by simp
  qed
  have "mapF (\<lambda>b. bm_read b m) (take 100 (iblocks ino)) = Inr (map (data m) (take 100 (iblocks ino)))"
    using indirect.hyps(5) indirect.prems(1) by (intro read_list) (auto dest: in_set_takeD)
  moreover have "bm_read (iblocks ino ! 100) m = Inr (data m (iblocks ino ! 100))"
    using indirect.hyps(5) indirect.prems(1) len by (intro bm_read_ok data_block_lt) simp_all
  moreover have "each_sub (\<lambda>j. read_file g j m) (u32s_of_block (data m (iblocks ino ! 100))) = Inr vs"
    using subs unfolding indirect.hyps(6) each_sub_takeWhile .
  ultimately show ?case
    using indirect.hyps(1-4) indirect.prems(1) big by (simp add: f get_inode_ok)
qed

text \<open>A file depends on its inodes and its blocks only.\<close>

lemma file_at_frame:
  "file_at m i I B v \<Longrightarrow> (\<And>j. j \<in> I \<Longrightarrow> inode_at m' j = inode_at m j) \<Longrightarrow>
   (\<And>b. b \<in> B \<Longrightarrow> in_use m' b \<and> data m' b = data m b) \<Longrightarrow> file_at m' i I B v"
proof (induction rule: file_at.induct)
  case (direct i ino)
  have same: "inode_at m' i = ino" using direct by simp
  have eq: "map (data m) (take (unat (isize ino)) (iblocks ino)) = map (data m') (take (unat (isize ino)) (iblocks ino))"
    using direct.prems(2) by simp
  show ?case
    unfolding eq using direct.hyps(1,3-5) same direct.prems(2) by (intro file_at.direct) auto
next
  case (indirect i ino ns Is Bs vs)
  have same: "inode_at m' i = ino" using indirect by simp
  have len: "length (iblocks ino) = 101" using indirect.hyps(2) by simp
  have eq: "map (data m) (take 100 (iblocks ino)) = map (data m') (take 100 (iblocks ino))"
    using indirect.prems(2) by (auto dest!: in_set_takeD)
  have subs: "file_at m' (ns ! k) (Is ! k) (Bs ! k) (vs ! k) \<and> i \<notin> Is ! k" if k: "k < length ns" for k
  proof -
    have sub: "Is ! k \<subseteq> \<Union> (set Is)" "Bs ! k \<subseteq> \<Union> (set Bs)"
      using nth_Union[of k Is] nth_Union[of k Bs] k indirect.hyps(7,8) by simp_all
    have "inode_at m' j = inode_at m j" if "j \<in> Is ! k" for j
      using subsetD[OF sub(1) that] by (intro indirect.prems(1)) (rule insertI2)
    moreover have "in_use m' b \<and> data m' b = data m b" if "b \<in> Bs ! k" for b
      using subsetD[OF sub(2) that] by (intro indirect.prems(2)) (rule UnI2)
    moreover note indirect.IH[rule_format, OF k]
    ultimately show ?thesis by simp
  qed
  show ?case
    unfolding eq
  proof (rule file_at.indirect[OF indirect.hyps(1) same[symmetric] indirect.hyps(3,4)])
    have "data m' (iblocks ino ! 100) = data m (iblocks ino ! 100)"
      using indirect.prems(2) len by simp
    then show "ns = takeWhile (\<lambda>x. x \<noteq> 0) (u32s_of_block (data m' (iblocks ino ! 100)))"
      using indirect.hyps(6) by simp
    show "\<forall>b \<in> set (iblocks ino). data_block b \<and> in_use m' b"
      using indirect.hyps(5) indirect.prems(2) by blast
  qed (use subs indirect.hyps(7-9) in auto)
qed

lemma file_at_ext:
  assumes "file_at m i I B v" "vol.ext X m m'" "I \<inter> X = {}"
  shows "file_at m' i I B v"
  using assms(1)
proof (rule file_at_frame)
  show "inode_at m' j = inode_at m j" if "j \<in> I" for j
    using that assms file_at_inodes[OF assms(1)] vol.ext_inode by blast
  show "in_use m' b \<and> data m' b = data m b" if "b \<in> B" for b
    using that assms(2) file_at_blocks[OF assms(1)] vol.ext_block by blast
qed

end
