(* ===== verification/File_Write.thy ===== *)
theory File_Write imports File_Content begin

text \<open>
  What \<open>write_file\<close> does (\<open>written\<close>): for a size of any magnitude, the file then holds
  \<open>read_back\<close> of the bytes written, in blocks and inodes that were free before, and nothing else
  on the disk has changed.
\<close>

subsection \<open>What a written file reads back as\<close>

definition chunk :: "bytes \<Rightarrow> nat \<Rightarrow> bytes" where
  "chunk c i = take 51200 (drop (51200 * (i + 1)) c)"

function read_back :: "bytes \<Rightarrow> bytes" where
  "read_back c =
     (if length c \<le> 51200 then strip0 c
      else strip0 (take 51200 c @ concat (map (\<lambda>i. strip0 (chunk c i)) [0..<127])
             @ read_back (drop (51200 * 128) c)))"
  by pat_completeness auto
termination
  by (relation "measure length") auto

declare read_back.simps [simp del]

lemma read_back_small: "length c \<le> 51200 \<Longrightarrow> read_back c = strip0 c"
  by (simp add: read_back.simps)

lemma read_back_Nil [simp]: "read_back [] = []"
  by (simp add: read_back_small)

lemma chunk_beyond: "length c \<le> 51200 * (i + 1) \<Longrightarrow> chunk c i = []"
  by (simp add: chunk_def)

lemma read_back_upto:
  assumes "length c \<le> 51200 * (n + 1)" "n \<le> 127" "51200 < length c"
  shows "read_back c = strip0 (take 51200 c @ concat (map (\<lambda>i. strip0 (chunk c i)) [0..<n]))"
proof -
  have "[0..<127] = [0..<n] @ [n..<127]" using assms(2) upt_add_eq_append[of 0 n "127 - n"] by simp
  moreover have "concat (map (\<lambda>i. strip0 (chunk c i)) [n..<127]) = []"
    using assms(1) by (auto simp: chunk_beyond)
  moreover have "drop (51200 * 128) c = []" using assms by simp
  ultimately show ?thesis
    using assms(3) by (subst read_back.simps) (simp only: map_append concat_append append_Nil2 read_back_Nil append_assoc, simp)
qed

text \<open>
  \<open>written m m' i v\<close>: \<open>m'\<close> is \<open>m\<close> with the file at \<open>i\<close> now reading as \<open>v\<close>, stored in blocks and
  further inodes that were free in \<open>m\<close>. \<open>fresh_tree\<close> says it of a file whose own inode is new too.
\<close>

definition written :: "inode_manager \<Rightarrow> inode_manager \<Rightarrow> u32 \<Rightarrow> bytes \<Rightarrow> bool" where
  "written m m' i v \<longleftrightarrow> vol.ext {i} m m' \<and> itype (inode_at m' i) = itype (inode_at m i)
     \<and> (\<exists>I B. file_at m' i I B v \<and> (\<forall>j \<in> I. j = i \<or> itype (inode_at m j) = 0) \<and> (\<forall>b \<in> B. \<not> in_use m b))"

definition fresh_tree :: "inode_manager \<Rightarrow> inode_manager \<Rightarrow> u32 \<Rightarrow> bytes \<Rightarrow> bool" where
  "fresh_tree m m' i v \<longleftrightarrow>
     (\<exists>I B. file_at m' i I B v \<and> (\<forall>j \<in> I. itype (inode_at m j) = 0) \<and> (\<forall>b \<in> B. \<not> in_use m b))"

lemma free_before:
  assumes "vol.ext {} m m1" "inum_ok j" "itype (inode_at m1 j) = 0"
  shows "itype (inode_at m j) = 0"
  using vol.ext_inode[OF assms(1,2)] assms(3) by (cases "itype (inode_at m j) = 0") auto

lemma unused_before:
  assumes "vol.ext X m m1" "data_block b" "\<not> in_use m1 b"
  shows "\<not> in_use m b"
  using vol.ext_block[OF assms(1,2)] assms(3) by auto

lemma fresh_tree_later:
  assumes "fresh_tree m1 m2 i v" "vol.ext {} m m1" "vol.ext {} m2 m3"
  shows "fresh_tree m m3 i v"
proof -
  obtain I B where I: "file_at m2 i I B v" "\<forall>j \<in> I. itype (inode_at m1 j) = 0" "\<forall>b \<in> B. \<not> in_use m1 b"
    using assms(1) by (auto simp: fresh_tree_def)
  have "file_at m3 i I B v" using I(1) assms(3) by (rule file_at_ext) simp
  moreover have "itype (inode_at m j) = 0" if "j \<in> I" for j
    using I(2) file_at_inodes[OF I(1)] that by (intro free_before[OF assms(2)]) simp_all
  moreover have "\<not> in_use m b" if "b \<in> B" for b
    using I(3) file_at_blocks[OF I(1)] that by (intro unused_before[OF assms(2)]) simp_all
  ultimately show ?thesis by (auto simp: fresh_tree_def)
qed

lemma sub_written:
  assumes "ok m" "alloc_inode 2 m = Inr (n, m1)" "written m1 m2 n v"
  shows "vol.ext {} m m2 \<and> fresh_tree m m2 n v"
proof -
  note cr = vol.create_does[OF assms(1) _ assms(2), simplified]
  obtain I B where I: "file_at m2 n I B v" "\<forall>j \<in> I. j = n \<or> itype (inode_at m1 j) = 0" "\<forall>b \<in> B. \<not> in_use m1 b"
    and ext: "vol.ext {n} m1 m2"
    using assms(3) by (auto simp: written_def)
  have e: "vol.ext {} m m1" using assms(1,2) by (intro vol.ext_create) auto
  then have "vol.ext {} m m2" using ext cr by (rule_tac vol.ext_trans_fresh) auto
  moreover have "itype (inode_at m j) = 0" if "j \<in> I" for j
  proof (cases "j = n")
    case True
    then show ?thesis using cr by simp
  next
    case False
    then show ?thesis using I(2) file_at_inodes[OF I(1)] that by (intro free_before[OF e]) auto
  qed
  moreover have "\<not> in_use m b" if "b \<in> B" for b
    using I(3) file_at_blocks[OF I(1)] that by (intro unused_before[OF e]) simp_all
  ultimately show ?thesis using I(1) by (auto simp: fresh_tree_def)
qed

lemma direct_content:
  assumes "length bs = n" "\<And>k. k < n \<Longrightarrow> data m (bs ! k) = nth_block c k"
  shows "concat (map (data m) bs) = take (512 * n) c @ replicate (512 * n - length c) 0"
proof -
  have "map (data m) bs = map (nth_block c) [0..<n]"
    using assms by (intro nth_equalityI) auto
  then show ?thesis by (simp only: concat_nth_blocks)
qed

lemma isize_new [simp]: "isize (new_inode t now) = 0" "itype (new_inode t now) = ucast t"
    "length (iblocks (new_inode t now)) = 101"
  by (simp_all add: new_inode_def)

text \<open>The last step of a write: the inode goes back to its place, over a state in which everything else is done.\<close>

lemma save_written:
  assumes "vol.ext {} m m1" "\<And>j. inum_ok j \<Longrightarrow> itype (inode_at m j) \<noteq> 0 \<Longrightarrow> inode_at m1 j = inode_at m j"
    and "inum_ok i" "length (iblocks x) = 101"
    and "put_inode i x (snd (time_now m1)) = Inr m2"
  shows "vol.ext {i} m m2" "inode_at m2 i = x" "vol.ext {i} m1 m2"
proof -
  have ok: "ok (snd (time_now m1))" using vol.ext_ok[OF assms(1)] by simp
  note put = vol.save_does[OF ok assms(3-5)]
  show "inode_at m2 i = x" using put assms(3) by simp
  show e: "vol.ext {i} m1 m2"
    using put assms(1) by (simp add: vol.ext_def vol.keeps_def)
  show "vol.ext {i} m m2"
    using vol.ext_mono[OF assms(1)] e vol.ext_trans by blast
qed


lemma write_file_steps:
  assumes "write_file inum buf sz m = Inr m'" "ok m" "inum_ok inum" "0 \<le> sz"
  obtains ino1 m1 ino2 m8 where
    "write_direct (min (n_blocks sz) 100) 0 buf sz (inode_at m inum) m = Inr (ino1, m1)"
    "put_inode inum (ino2\<lparr>isize := of_nat (min (n_blocks sz) 101), mtime := fst (time_now m8)\<rparr>) (snd (time_now m8)) = Inr m'"
    "sz \<le> 51200 \<Longrightarrow> ino2 = ino1 \<and> m8 = m1"
    "51200 < sz \<Longrightarrow> \<exists>b m2 i inodes m3 inodes' m6. bm_alloc m1 = Inr (b, m2) \<and> b \<noteq> 0
       \<and> write_subs 0 buf sz (replicate 128 0) m2 = Inr (i, inodes, m3)
       \<and> (if i = 127
           then \<exists>n m4. alloc_inode 2 m3 = Inr (n, m4) \<and> inodes' = inodes[i := n]
             \<and> write_file n (drop (51200 * (i + 1)) buf) (sz - 51200 * (int i + 1)) m4 = Inr m6
           else inodes' = inodes \<and> m6 = m3)
       \<and> bm_write b (block_of_u32s inodes') m6 = Inr m8 \<and> ino2 = ino1\<lparr>iblocks := (iblocks ino1)[100 := b]\<rparr>"
proof -
  note eq = assms(1)[unfolded write_file.simps[of inum buf sz m]]
  show thesis
  proof (cases "51200 < sz")
    case False
    then obtain p where "write_direct (min (n_blocks sz) 100) 0 buf sz (inode_at m inum) m = Inr p"
      "put_inode inum ((fst p)\<lparr>isize := of_nat (min (n_blocks sz) 101), mtime := fst (time_now (snd p))\<rparr>)
         (snd (time_now (snd p))) = Inr m'"
      using eq assms(2-4) by (auto simp add: bindF_eq_Inr get_inode_ok case_prod_beta Let_def)
    then show thesis using False by (intro that[of "fst p" "snd p" "snd p" "fst p"]) auto
  next
    case True
    then obtain p r w u m8 where p: "write_direct (min (n_blocks sz) 100) 0 buf sz (inode_at m inum) m = Inr p"
      and r: "bm_alloc (snd p) = Inr r" "fst r \<noteq> 0"
      and w: "write_subs 0 buf sz (replicate 128 0) (snd r) = Inr w"
      and u: "(if fst w = 127
               then bindF (alloc_inode 2 (snd (snd w))) (\<lambda>a.
                 bindF (write_file (fst a) (drop (51200 * (fst w + 1)) buf) (sz - 51200 * (int (fst w) + 1)) (snd a)) (\<lambda>m5.
                 Inr ((fst (snd w))[fst w := fst a], m5)))
               else Inr (fst (snd w), snd (snd w))) = Inr u"
      and m8: "bm_write (fst r) (block_of_u32s (fst u)) (snd u) = Inr m8"
      and put: "put_inode inum ((fst p)\<lparr>iblocks := (iblocks (fst p))[100 := fst r], isize := of_nat (min (n_blocks sz) 101),
           mtime := fst (time_now m8)\<rparr>) (snd (time_now m8)) = Inr m'"
      using eq assms(2-4) by (auto simp add: bindF_eq_Inr get_inode_ok case_prod_beta Let_def split: if_split_asm)
    show thesis
    proof (rule that[of "fst p" "snd p" m8 "(fst p)\<lparr>iblocks := (iblocks (fst p))[100 := fst r]\<rparr>"])
      show "\<exists>b m2 i inodes m3 inodes' m6. bm_alloc (snd p) = Inr (b, m2) \<and> b \<noteq> 0
         \<and> write_subs 0 buf sz (replicate 128 0) m2 = Inr (i, inodes, m3)
         \<and> (if i = 127
             then \<exists>n m4. alloc_inode 2 m3 = Inr (n, m4) \<and> inodes' = inodes[i := n]
               \<and> write_file n (drop (51200 * (i + 1)) buf) (sz - 51200 * (int i + 1)) m4 = Inr m6
             else inodes' = inodes \<and> m6 = m3)
         \<and> bm_write b (block_of_u32s inodes') m6 = Inr m8
         \<and> (fst p)\<lparr>iblocks := (iblocks (fst p))[100 := fst r]\<rparr> = (fst p)\<lparr>iblocks := (iblocks (fst p))[100 := b]\<rparr>"
        using r w u m8
        by (rule_tac exI[of _ "fst r"], rule_tac exI[of _ "snd r"], rule_tac exI[of _ "fst w"],
            rule_tac exI[of _ "fst (snd w)"], rule_tac exI[of _ "snd (snd w)"],
            rule_tac exI[of _ "fst u"], rule_tac exI[of _ "snd u"]) (cases "fst w = 127"; auto simp: bindF_eq_Inr prod_eq_iff)
    qed (use p put True in simp_all)
  qed
qed


text \<open>A file of at most 100 blocks, and with it every piece of a larger one but the last.\<close>

lemma unat_of_count: "n \<le> 101 \<Longrightarrow> unat (of_nat n :: u32) = n"
  by (simp add: unat_of_nat)

lemma write_small_layout:
  assumes wr: "write_file inum buf sz m = Inr m'" and ok: "ok m" "inum_ok inum"
    and sz: "0 \<le> sz" "sz \<le> 51200" "nat sz \<le> length buf"
  obtains bs now where "length bs = n_blocks sz" "distinct bs" "vol.ext {inum} m m'"
    "inode_at m' inum = (inode_at m inum)\<lparr>iblocks := bs @ drop (n_blocks sz) (iblocks (inode_at m inum)),
       isize := of_nat (n_blocks sz), mtime := now\<rparr>"
    "\<forall>k < n_blocks sz. data_block (bs ! k) \<and> \<not> in_use m (bs ! k) \<and> in_use m' (bs ! k)
       \<and> data m' (bs ! k) = nth_block (take (nat sz) buf) k"
    "\<forall>j. inum_ok j \<and> j \<noteq> inum \<longrightarrow> inode_at m' j = inode_at m j"
proof -
  let ?n = "n_blocks sz" and ?c = "take (nat sz) buf" and ?ino = "inode_at m inum"
  have n: "?n \<le> 100" using n_blocks_gt[OF sz(1)] sz(2) by linarith
  obtain ino1 m1 where wd: "write_direct ?n 0 buf sz ?ino m = Inr (ino1, m1)"
    and put: "put_inode inum (ino1\<lparr>isize := of_nat ?n, mtime := fst (time_now m1)\<rparr>) (snd (time_now m1)) = Inr m'"
    using wr ok(1,2) sz(1) by (rule write_file_steps) (use n sz(2) in \<open>simp add: min_def\<close>)
  have tight: "0 < ?n \<Longrightarrow> 512 * (int (0 + ?n) - 1) < sz"
    using n_blocks_tight[of "?n - 1" sz] sz(1) by (simp add: of_nat_diff)
  obtain bs where bs: "length bs = ?n" "ino1 = ?ino\<lparr>iblocks := bs @ drop ?n (iblocks ?ino)\<rparr>" "distinct bs"
      "\<forall>k < ?n. data_block (bs ! k) \<and> \<not> in_use m (bs ! k) \<and> in_use m1 (bs ! k) \<and> data m1 (bs ! k) = nth_block ?c k"
    and ext: "vol.ext {} m m1" and same: "\<forall>j. inum_ok j \<longrightarrow> inode_at m1 j = inode_at m j"
    using write_direct_does[OF wd ok(1) _ _ tight] n by auto
  let ?x = "ino1\<lparr>isize := of_nat ?n, mtime := fst (time_now m1)\<rparr>"
  have x: "length (iblocks ?x) = 101" "ok (snd (time_now m1))" using bs n vol.ext_ok[OF ext] by simp_all
  note sv = save_written[OF ext _ ok(2) x(1) put]
  have e: "vol.ext {inum} m m'" "inode_at m' inum = ?x" "vol.ext {inum} m1 m'" using sv same by simp_all
  have others: "inode_at m' j = inode_at m1 j" if "inum_ok j" "j \<noteq> inum" for j
    using vol.save_does[OF x(2) ok(2) x(1) put] that by simp
  show thesis
  proof (rule that[OF bs(1,3) e(1)])
    show "inode_at m' inum = ?ino\<lparr>iblocks := bs @ drop ?n (iblocks ?ino), isize := of_nat ?n, mtime := fst (time_now m1)\<rparr>"
      using e(2) bs(2) by simp
    show "\<forall>k < ?n. data_block (bs ! k) \<and> \<not> in_use m (bs ! k) \<and> in_use m' (bs ! k) \<and> data m' (bs ! k) = nth_block ?c k"
      using bs(4) vol.ext_block[OF e(3)] by simp
    show "\<forall>j. inum_ok j \<and> j \<noteq> inum \<longrightarrow> inode_at m' j = inode_at m j"
      using same others by simp
  qed
qed

lemma count_word: "n \<le> 100 \<Longrightarrow> unat (of_nat n :: u32) = n \<and> (of_nat n :: u32) \<le> 100"
  using unat_of_count[of n] by (simp add: word_le_nat_alt)

lemma write_small_does:
  assumes wr: "write_file inum buf sz m = Inr m'" and ok: "ok m" "inum_ok inum" "itype (inode_at m inum) \<noteq> 0"
    and sz: "0 \<le> sz" "sz \<le> 51200" "nat sz \<le> length buf"
  shows "written m m' inum (strip0 (take (nat sz) buf))"
proof -
  let ?n = "n_blocks sz" and ?c = "take (nat sz) buf" and ?x = "inode_at m' inum"
  have n: "?n \<le> 100" using n_blocks_gt[OF sz(1)] sz(2) by linarith
  obtain bs now where bs: "length bs = ?n" "distinct bs" "vol.ext {inum} m m'"
    "?x = (inode_at m inum)\<lparr>iblocks := bs @ drop ?n (iblocks (inode_at m inum)), isize := of_nat ?n, mtime := now\<rparr>"
    "\<forall>k < ?n. data_block (bs ! k) \<and> \<not> in_use m (bs ! k) \<and> in_use m' (bs ! k) \<and> data m' (bs ! k) = nth_block ?c k"
    by (rule write_small_layout[OF wr ok(1,2) sz]) (rule that)
  have blocks: "data_block b \<and> \<not> in_use m b \<and> in_use m' b" if "b \<in> set bs" for b
    using that bs(1,5) by (metis in_set_conv_nth)
  have u: "unat (isize ?x) = ?n" "isize ?x \<le> 100" "take ?n (iblocks ?x) = bs"
    using count_word[OF n] bs(1) unfolding bs(4) by simp_all
  have "concat (map (data m') bs) = ?c @ replicate (512 * ?n - length ?c) 0"
    using direct_content[OF bs(1), of m' ?c] bs(5) n_blocks_covers[OF sz(1)] by simp
  then have content: "strip0 (concat (map (data m') bs)) = strip0 ?c" by simp
  have "file_at m' inum {inum} (set (take (unat (isize ?x)) (iblocks ?x)))
      (strip0 (concat (map (data m') (take (unat (isize ?x)) (iblocks ?x)))))"
    by (rule file_at.direct) (use ok(2,3) u blocks bs(4) in auto)
  then have "file_at m' inum {inum} (set bs) (strip0 ?c)"
    unfolding u content .
  then show ?thesis
    using bs(3,4) blocks unfolding written_def by auto
qed


lemma fresh_tree_nonzero: "fresh_tree m m' i v \<Longrightarrow> i \<noteq> 0"
  using file_at_inodes by (fastforce simp: fresh_tree_def inum_ok_iff)

lemma write_subs_does:
  assumes "write_subs i buf sz inodes m = Inr (i', inodes', m')" "ok m" "length inodes = 128" "i \<le> 127"
    "nat sz \<le> length buf"
  shows "vol.ext {} m m' \<and> i \<le> i' \<and> i' \<le> 127 \<and> length inodes' = 128
    \<and> (\<forall>k < 128. k < i \<or> i' \<le> k \<longrightarrow> inodes' ! k = inodes ! k)
    \<and> (\<forall>k. i \<le> k \<and> k < i' \<longrightarrow> fresh_tree m m' (inodes' ! k) (strip0 (chunk (take (nat sz) buf) k)))
    \<and> (i' < 127 \<longrightarrow> sz \<le> 51200 * (int i' + 1))"
  using assms
proof (induction "127 - i" arbitrary: i inodes m)
  case (0 d)
  then show ?case by (subst (asm) write_subs.simps) (auto simp: vol.ext_refl)
next
  case (Suc d)
  show ?case
  proof (cases "51200 * (int i + 1) < sz")
    case False
    then show ?thesis
      using Suc.prems by (subst (asm) write_subs.simps) (auto simp: vol.ext_refl)
  next
    case True
    let ?sz = "min (sz - 51200 * (int i + 1)) 51200" and ?buf = "drop (51200 * (i + 1)) buf"
    let ?v = "strip0 (chunk (take (nat sz) buf) i)"
    have "i < 127" using Suc.hyps(2) by linarith
    obtain n m1 m2 where al: "alloc_inode 2 m = Inr (n, m1)" and wr: "write_file n ?buf ?sz m1 = Inr m2"
      and rest: "write_subs (Suc i) buf sz (inodes[i := n]) m2 = Inr (i', inodes', m')"
      using Suc.prems(1)[unfolded write_subs.simps[of i buf sz inodes m]] True \<open>i < 127\<close> by (auto simp: bindF_eq_Inr)
    have cr: "ok m1" "inum_ok n" "itype (inode_at m1 n) \<noteq> 0"
      using vol.create_does[OF Suc.prems(2) _ al] by auto
    have len: "nat ?sz = min 51200 (nat sz - 51200 * (i + 1))" using True by (simp add: min_def) linarith
    then have eq: "take (nat ?sz) ?buf = chunk (take (nat sz) buf) i"
      by (simp add: chunk_def drop_take)
    have bounds: "0 \<le> ?sz" "?sz \<le> 51200" "nat ?sz \<le> length ?buf"
      using True Suc.prems(5) unfolding len by (auto simp: min_def)
    have "written m1 m2 n ?v"
      using write_small_does[OF wr cr bounds] unfolding eq .
    from sub_written[OF Suc.prems(2) al this]
    have sub: "vol.ext {} m m2" "fresh_tree m m2 n ?v" by auto
    have ih: "vol.ext {} m2 m' \<and> Suc i \<le> i' \<and> i' \<le> 127 \<and> length inodes' = 128
      \<and> (\<forall>k < 128. k < Suc i \<or> i' \<le> k \<longrightarrow> inodes' ! k = inodes[i := n] ! k)
      \<and> (\<forall>k. Suc i \<le> k \<and> k < i' \<longrightarrow> fresh_tree m2 m' (inodes' ! k) (strip0 (chunk (take (nat sz) buf) k)))
      \<and> (i' < 127 \<longrightarrow> sz \<le> 51200 * (int i' + 1))"
      by (rule Suc.hyps(1)[OF _ rest vol.ext_ok[OF sub(1)]]) (use Suc.hyps(2) Suc.prems(3,5) in auto)
    have ext: "vol.ext {} m m'" using sub(1) ih vol.ext_trans by blast
    have "fresh_tree m m' (inodes' ! k) (strip0 (chunk (take (nat sz) buf) k))" if "i \<le> k" "k < i'" for k
    proof (cases "k = i")
      case True
      then have "inodes' ! k = n" using ih Suc.hyps(2) Suc.prems(3) by simp
      then show ?thesis
        using True fresh_tree_later[OF sub(2) vol.ext_refl[OF Suc.prems(2)]] ih by simp
    next
      case False
      then have "fresh_tree m2 m' (inodes' ! k) (strip0 (chunk (take (nat sz) buf) k))" using ih that by simp
      then show ?thesis
        using sub(1) vol.ext_refl[OF vol.ext_ok[OF ext]] by (rule fresh_tree_later)
    qed
    then show ?thesis using ext ih by auto
  qed
qed

text \<open>Storing the table of the pieces does not disturb them.\<close>

lemma fresh_tree_table:
  assumes "fresh_tree m2 m6 i v" "in_use m2 b" "data_block b" "ok m6" "bm_write b t m6 = Inr m8"
  shows "\<exists>I B. file_at m8 i I B v \<and> (\<forall>j \<in> I. itype (inode_at m2 j) = 0) \<and> (\<forall>c \<in> B. \<not> in_use m2 c)"
proof -
  obtain I B where I: "file_at m6 i I B v" "\<forall>j \<in> I. itype (inode_at m2 j) = 0" "\<forall>c \<in> B. \<not> in_use m2 c"
    using assms(1) by (auto simp: fresh_tree_def)
  have "b \<notin> B" using I(3) assms(2) by blast
  have "file_at m8 i I B v"
    using I(1)
  proof (rule file_at_frame)
    show "inode_at m8 j = inode_at m6 j" if "j \<in> I" for j
      using vol.put_frame[OF assms(4,3,5)] file_at_inodes[OF I(1)] that by simp
    show "in_use m8 c \<and> data m8 c = data m6 c" if "c \<in> B" for c
      using vol.put_does[OF assms(4,3,5)] file_at_blocks[OF I(1)] that \<open>b \<notin> B\<close> by auto
  qed
  then show ?thesis using I(2,3) by blast
qed


text \<open>The pieces of a large file, in the order of its table, and what they read as.\<close>

definition piece_values :: "bytes \<Rightarrow> nat \<Rightarrow> bytes list" where
  "piece_values c i = map (\<lambda>k. strip0 (chunk c k)) [0..<i]
     @ (if i = 127 then [read_back (drop (51200 * 128) c)] else [])"

lemma length_piece_values: "i \<le> 127 \<Longrightarrow> length (piece_values c i) = (if i = 127 then 128 else i)"
  by (simp add: piece_values_def)

lemma nth_piece_values: "k < i \<Longrightarrow> piece_values c i ! k = strip0 (chunk c k)"
  by (simp add: piece_values_def nth_append)

lemma read_back_pieces:
  assumes "51200 < length c" "i \<le> 127" "i < 127 \<Longrightarrow> length c \<le> 51200 * (i + 1)"
  shows "read_back c = strip0 (take 51200 c @ concat (piece_values c i))"
proof (cases "i = 127")
  case True
  then show ?thesis
    using assms(1) by (subst read_back.simps) (simp add: piece_values_def del: upt_conv_Cons)
next
  case False
  then show ?thesis
    using assms read_back_upto[of c i] by (simp add: piece_values_def)
qed

text \<open>The two loops over the pieces together: the state between storing the direct blocks and storing the table.\<close>

lemma last_piece_written:
  assumes "ok m3" and al: "alloc_inode 2 m3 = Inr (n, m4)"
    and wr: "write_file n (drop (51200 * 128) buf) (sz - 51200 * 128) m4 = Inr m6"
    and sz: "nat sz \<le> length buf" "51200 < sz"
    and IH: "\<And>n b s m m'. write_file n b s m = Inr m' \<Longrightarrow> nat s < nat sz \<Longrightarrow> ok m \<Longrightarrow> inum_ok n \<Longrightarrow>
      itype (inode_at m n) \<noteq> 0 \<Longrightarrow> isize (inode_at m n) = 0 \<Longrightarrow> nat s \<le> length b \<Longrightarrow>
      written m m' n (read_back (take (nat s) b))"
  shows "vol.ext {} m3 m6 \<and> fresh_tree m3 m6 n (read_back (drop (51200 * 128) (take (nat sz) buf)))"
proof -
  have cr: "ok m4" "inum_ok n" "itype (inode_at m4 n) \<noteq> 0" "isize (inode_at m4 n) = 0"
    using vol.create_does[OF assms(1) _ al] by auto
  have "nat (sz - 51200 * 128) < nat sz" "nat (sz - 51200 * 128) \<le> length (drop (51200 * 128) buf)" using sz by auto
  from IH[OF wr this(1) cr this(2)]
  have "written m4 m6 n (read_back (take (nat (sz - 51200 * 128)) (drop (51200 * 128) buf)))" .
  moreover have "take (nat (sz - 51200 * 128)) (drop (51200 * 128) buf) = drop (51200 * 128) (take (nat sz) buf)"
    using sz by (simp add: drop_take nat_diff_distrib')
  ultimately have "written m4 m6 n (read_back (drop (51200 * 128) (take (nat sz) buf)))" by simp
  from sub_written[OF assms(1) al this] show ?thesis by auto
qed

lemma pieces_written:
  assumes subs: "write_subs 0 buf sz (replicate 128 0) m2 = Inr (i, inodes, m3)" and ok: "ok m2"
    and last: "if i = 127
           then \<exists>n m4. alloc_inode 2 m3 = Inr (n, m4) \<and> inodes' = inodes[i := n]
             \<and> write_file n (drop (51200 * (i + 1)) buf) (sz - 51200 * (int i + 1)) m4 = Inr m6
           else inodes' = inodes \<and> m6 = m3"
    and sz: "nat sz \<le> length buf" "51200 < sz"
    and IH: "\<And>n b s m m'. write_file n b s m = Inr m' \<Longrightarrow> nat s < nat sz \<Longrightarrow> ok m \<Longrightarrow> inum_ok n \<Longrightarrow>
      itype (inode_at m n) \<noteq> 0 \<Longrightarrow> isize (inode_at m n) = 0 \<Longrightarrow> nat s \<le> length b \<Longrightarrow>
      written m m' n (read_back (take (nat s) b))"
  shows "vol.ext {} m2 m6 \<and> i \<le> 127 \<and> length inodes' = 128 \<and> (i < 127 \<longrightarrow> sz \<le> 51200 * (int i + 1))
    \<and> (\<forall>k < length (piece_values (take (nat sz) buf) i).
          fresh_tree m2 m6 (inodes' ! k) (piece_values (take (nat sz) buf) i ! k))
    \<and> takeWhile (\<lambda>x. x \<noteq> 0) inodes' = take (length (piece_values (take (nat sz) buf) i)) inodes'"
proof -
  let ?c = "take (nat sz) buf"
  note d = write_subs_does[OF subs ok _ _ sz(1), simplified]
  show ?thesis
  proof (cases "i = 127")
    case False
    then have eq: "inodes' = inodes" "m6 = m3" using last by auto
    have len: "length (piece_values ?c i) = i" using False d by (simp add: length_piece_values)
    have trees: "fresh_tree m2 m6 (inodes' ! k) (piece_values ?c i ! k)" if "k < i" for k
      using d that unfolding eq by (simp add: nth_piece_values)
    have "takeWhile (\<lambda>x. x \<noteq> 0) inodes' = take i inodes'"
    proof (rule takeWhile_eq_take_P_nth)
      show "inodes' ! k \<noteq> 0" if "k < i" for k using trees[OF that] by (rule fresh_tree_nonzero)
      show "\<not> inodes' ! i \<noteq> 0" if "i < length inodes'" using d that by (simp add: eq)
    qed
    then show ?thesis using d trees False len by (simp add: eq)
  next
    case True
    then obtain n m4 where al: "alloc_inode 2 m3 = Inr (n, m4)" and eq: "inodes' = inodes[127 := n]"
      and wr: "write_file n (drop (51200 * 128) buf) (sz - 51200 * 128) m4 = Inr m6"
      using last by auto
    have ok3: "ok m3" using d vol.ext_ok by blast
    from last_piece_written[OF ok3 al wr sz IH]
    have sub: "vol.ext {} m3 m6" "fresh_tree m3 m6 n (read_back (drop (51200 * 128) ?c))" by blast+
    have len: "length (piece_values ?c i) = 128" using True by (simp add: length_piece_values)
    have trees: "fresh_tree m2 m6 (inodes' ! k) (piece_values ?c i ! k)" if "k < 128" for k
    proof (cases "k = 127")
      case False
      then have "fresh_tree m2 m3 (inodes' ! k) (piece_values ?c i ! k)"
        using d that True by (simp add: eq nth_piece_values)
      then show ?thesis using vol.ext_refl[OF ok] sub(1) by (rule fresh_tree_later)
    next
      case True
      then have "inodes' ! k = n" "piece_values ?c i ! k = read_back (drop (51200 * 128) ?c)"
        using d \<open>i = 127\<close> by (simp_all add: eq piece_values_def nth_append)
      then show ?thesis
        using d fresh_tree_later[OF sub(2) _ vol.ext_refl[OF vol.ext_ok[OF sub(1)]]] by simp
    qed
    have "takeWhile (\<lambda>x. x \<noteq> 0) inodes' = take 128 inodes'"
    proof (rule takeWhile_eq_take_P_nth)
      show "inodes' ! k \<noteq> 0" if "k < 128" for k using trees[OF that] by (rule fresh_tree_nonzero)
      show "\<not> inodes' ! 128 \<noteq> 0" if "128 < length inodes'" using d that by (simp add: eq)
    qed
    then show ?thesis using d trees True len sub(1) vol.ext_trans[of "{}" m2 m3 m6] by (simp add: eq)
  qed
qed


lemma update_last_pointer: "length xs = 101 \<Longrightarrow> (drop 100 xs)[0 := b] = [b]"
  by (cases "drop 100 xs") (auto dest!: arg_cong[of _ _ length])

text \<open>The pieces once the table and the inode of the file are stored too.\<close>

lemma pieces_at:
  assumes trees: "\<And>k. k < length vs \<Longrightarrow> fresh_tree m2 m6 (ns ! k) (vs ! k)"
    and tab: "in_use m2 b" "data_block b" "ok m6" "bm_write b t m6 = Inr m8" and e: "vol.ext {i} m8 m'"
    and old: "vol.ext {} m m2" "\<forall>j. inum_ok j \<longrightarrow> inode_at m2 j = inode_at m j" "itype (inode_at m i) \<noteq> 0"
  obtains Is Bs where "length Is = length vs" "length Bs = length vs"
    "\<And>k. k < length vs \<Longrightarrow> file_at m' (ns ! k) (Is ! k) (Bs ! k) (vs ! k) \<and> i \<notin> Is ! k
        \<and> (\<forall>j \<in> Is ! k. itype (inode_at m j) = 0) \<and> (\<forall>c \<in> Bs ! k. \<not> in_use m c)"
proof -
  let ?P = "\<lambda>k IB. file_at m' (ns ! k) (fst IB) (snd IB) (vs ! k) \<and> i \<notin> fst IB
        \<and> (\<forall>j \<in> fst IB. itype (inode_at m j) = 0) \<and> (\<forall>c \<in> snd IB. \<not> in_use m c)"
  have "\<exists>IB. ?P k IB" if k: "k < length vs" for k
  proof -
    obtain I B where I: "file_at m8 (ns ! k) I B (vs ! k)" "\<forall>j \<in> I. itype (inode_at m2 j) = 0"
        "\<forall>c \<in> B. \<not> in_use m2 c"
      using fresh_tree_table[OF trees[OF k] tab] by blast
    have free: "\<forall>j \<in> I. itype (inode_at m j) = 0" using I(2) old(2) file_at_inodes[OF I(1)] by auto
    then have i: "i \<notin> I" using old(3) by blast
    have "file_at m' (ns ! k) I B (vs ! k)" using I(1) e by (rule file_at_ext) (use i in simp)
    moreover have "\<not> in_use m c" if "c \<in> B" for c
      using file_at_blocks[OF I(1)] I(3) that by (intro unused_before[OF old(1)]) simp_all
    ultimately show ?thesis using free i by (intro exI[of _ "(I, B)"]) simp
  qed
  then obtain IBs where "length IBs = length vs" "\<forall>k < length vs. ?P k (IBs ! k)"
    using Skolem_list_nth[of "length vs" ?P] by auto
  then show thesis by (intro that[of "map fst IBs" "map snd IBs"]) simp_all
qed

lemma large_written:
  assumes e: "vol.ext {i} m m'" and i: "inum_ok i" "itype (inode_at m i) \<noteq> 0"
    and x: "iblocks (inode_at m' i) = bs @ [b]" "isize (inode_at m' i) = 101" "itype (inode_at m' i) = itype (inode_at m i)"
    and bs: "length bs = 100" "\<And>c. c \<in> set (bs @ [b]) \<Longrightarrow> data_block c \<and> \<not> in_use m c \<and> in_use m' c"
      "\<And>k. k < 100 \<Longrightarrow> data m' (bs ! k) = nth_block cs k" "51200 \<le> length cs"
    and tab: "data m' b = block_of_u32s ns" "length ns = 128" "length vs \<le> 128"
      "takeWhile (\<lambda>x. x \<noteq> 0) ns = take (length vs) ns"
    and sub: "length Is = length vs" "length Bs = length vs"
      "\<And>k. k < length vs \<Longrightarrow> file_at m' (ns ! k) (Is ! k) (Bs ! k) (vs ! k) \<and> i \<notin> Is ! k
        \<and> (\<forall>j \<in> Is ! k. itype (inode_at m j) = 0) \<and> (\<forall>c \<in> Bs ! k. \<not> in_use m c)"
  shows "written m m' i (strip0 (take 51200 cs @ concat vs))"
proof -
  let ?B = "set (bs @ [b]) \<union> \<Union> (set Bs)" and ?I = "insert i (\<Union> (set Is))"
  have direct: "concat (map (data m') (take 100 (bs @ [b]))) = take 51200 cs"
    using direct_content[OF bs(1,3)] bs(1,4) by simp
  have "file_at m' i ?I (set (iblocks (inode_at m' i)) \<union> \<Union> (set Bs))
      (strip0 (concat (map (data m') (take 100 (iblocks (inode_at m' i)))) @ concat vs))"
  proof (rule file_at.indirect)
    show "take (length vs) ns = takeWhile (\<lambda>x. x \<noteq> 0) (u32s_of_block (data m' (iblocks (inode_at m' i) ! 100)))"
      using tab bs(1) unfolding x(1) by (simp add: nth_append)
    show "\<forall>c \<in> set (iblocks (inode_at m' i)). data_block c \<and> in_use m' c" using bs(2) unfolding x(1) by blast
    show "\<forall>k < length (take (length vs) ns). file_at m' (take (length vs) ns ! k) (Is ! k) (Bs ! k) (vs ! k) \<and> i \<notin> Is ! k"
      using sub(3) by simp
  qed (use i x(2,3) sub(1,2) tab(2,3) in simp_all)
  then have stored: "file_at m' i ?I ?B (strip0 (take 51200 cs @ concat vs))"
    unfolding x(1) direct .
  have new_I: "j = i \<or> itype (inode_at m j) = 0" if j: "j \<in> ?I" for j
  proof (cases "j = i")
    case False
    then obtain k where "k < length Is" "j \<in> Is ! k" using j by (auto simp: in_set_conv_nth)
    then show ?thesis using sub by simp
  qed simp
  have new_B: "\<not> in_use m c" if c: "c \<in> ?B" for c
  proof (cases "c \<in> set (bs @ [b])")
    case False
    then obtain k where "k < length Bs" "c \<in> Bs ! k" using c by (auto simp: in_set_conv_nth)
    then show ?thesis using sub by simp
  qed (use bs(2) in blast)
  show ?thesis
    unfolding written_def
  proof (intro conjI exI ballI)
    show "itype (inode_at m' i) = itype (inode_at m i)" by (fact x(3))
  qed (fact e, fact stored, erule new_I, erule new_B)
qed

text \<open>
  A write of any size: the induction is on the size, since the piece after the 127th holds all the
  rest of the file. First the branch that needs the table.
\<close>

lemma write_large_does:
  assumes "write_file inum buf sz m = Inr m'" "ok m" "inum_ok inum" "itype (inode_at m inum) \<noteq> 0"
    and sz: "nat sz \<le> length buf" "51200 < sz"
    and IH: "\<And>n b s m m'. write_file n b s m = Inr m' \<Longrightarrow> nat s < nat sz \<Longrightarrow> ok m \<Longrightarrow> inum_ok n \<Longrightarrow>
      itype (inode_at m n) \<noteq> 0 \<Longrightarrow> isize (inode_at m n) = 0 \<Longrightarrow> nat s \<le> length b \<Longrightarrow>
      written m m' n (read_back (take (nat s) b))"
  shows "written m m' inum (read_back (take (nat sz) buf))"
proof -
  let ?c = "take (nat sz) buf" and ?ino = "inode_at m inum"
  have n: "100 < n_blocks sz" "0 \<le> sz" using n_blocks_gt[of sz] sz(2) by auto
  then have mins: "min (n_blocks sz) 100 = 100" "min (n_blocks sz) 101 = 101" by auto
  note steps = write_file_steps[OF assms(1-3) n(2), unfolded mins]
  obtain ino1 m1 ino2 m8 where
      wd: "write_direct 100 0 buf sz ?ino m = Inr (ino1, m1)"
    and put: "put_inode inum (ino2\<lparr>isize := of_nat 101, mtime := fst (time_now m8)\<rparr>) (snd (time_now m8)) = Inr m'"
    and rest: "\<exists>b m2 i inodes m3 inodes' m6. bm_alloc m1 = Inr (b, m2) \<and> b \<noteq> 0
     \<and> write_subs 0 buf sz (replicate 128 0) m2 = Inr (i, inodes, m3)
     \<and> (if i = 127
         then \<exists>n m4. alloc_inode 2 m3 = Inr (n, m4) \<and> inodes' = inodes[i := n]
           \<and> write_file n (drop (51200 * (i + 1)) buf) (sz - 51200 * (int i + 1)) m4 = Inr m6
         else inodes' = inodes \<and> m6 = m3)
     \<and> bm_write b (block_of_u32s inodes') m6 = Inr m8 \<and> ino2 = ino1\<lparr>iblocks := (iblocks ino1)[100 := b]\<rparr>"
    by (rule steps) (rule that, assumption, assumption, erule meta_mp, rule sz(2))
  obtain b m2 i inodes m3 inodes' m6 where al: "bm_alloc m1 = Inr (b, m2)" "b \<noteq> 0"
    and subs: "write_subs 0 buf sz (replicate 128 0) m2 = Inr (i, inodes, m3)"
    and last: "if i = 127
         then \<exists>n m4. alloc_inode 2 m3 = Inr (n, m4) \<and> inodes' = inodes[i := n]
           \<and> write_file n (drop (51200 * (i + 1)) buf) (sz - 51200 * (int i + 1)) m4 = Inr m6
         else inodes' = inodes \<and> m6 = m3"
    and tab: "bm_write b (block_of_u32s inodes') m6 = Inr m8" "ino2 = ino1\<lparr>iblocks := (iblocks ino1)[100 := b]\<rparr>"
    using rest by (elim exE conjE)
  obtain bs where bs: "length bs = 100" "ino1 = ?ino\<lparr>iblocks := bs @ drop 100 (iblocks ?ino)\<rparr>"
    "\<forall>k < 100. data_block (bs ! k) \<and> \<not> in_use m (bs ! k) \<and> in_use m1 (bs ! k) \<and> data m1 (bs ! k) = nth_block ?c k"
    and ext1: "vol.ext {} m m1" and same1: "\<forall>j. inum_ok j \<longrightarrow> inode_at m1 j = inode_at m j"
    using write_direct_does[OF wd assms(2)] sz(2) by auto
  have ok1: "ok m1" using ext1 by (rule vol.ext_ok)
  have ok2: "ok m2" and b: "data_block b" "\<not> in_use m1 b" "in_use m2 b" using vol.alloc_got[OF ok1 al] by auto
  have same2: "\<forall>j. inum_ok j \<longrightarrow> inode_at m2 j = inode_at m j" using vol.alloc_frame[OF ok1 al(1)] same1 by simp
  define vs where "vs = piece_values ?c i"
  have pw: "vol.ext {} m2 m6" "i \<le> 127" "length inodes' = 128" "i < 127 \<longrightarrow> sz \<le> 51200 * (int i + 1)"
    "\<And>k. k < length vs \<Longrightarrow> fresh_tree m2 m6 (inodes' ! k) (vs ! k)"
    "takeWhile (\<lambda>x. x \<noteq> 0) inodes' = take (length vs) inodes'"
    using pieces_written[OF subs ok2 last sz IH, folded vs_def] by (elim conjE; assumption | blast)+
  have ok6: "ok m6" using pw(1) by (rule vol.ext_ok)
  have ext2: "vol.ext {} m m2" using ext1 vol.ext_alloc[OF ok1 al(1)] by (rule vol.ext_trans)
  have ext18: "vol.ext {} m1 m8"
    using vol.ext_trans[OF vol.ext_alloc[OF ok1 al(1)] pw(1)] b(1,2) tab(1) by (rule vol.ext_put_fresh)
  have ext8: "vol.ext {} m m8" using ext1 ext18 by (rule vol.ext_trans)
  let ?x = "ino2\<lparr>isize := of_nat 101, mtime := fst (time_now m8)\<rparr>"
  have blocks_x: "iblocks ?x = bs @ [b]" using bs(1,2) tab(2) by (simp add: list_update_append update_last_pointer)
  then have "length (iblocks ?x) = 101" using bs(1) by simp
  note sv = save_written[OF ext8 vol.ext_inode[OF ext8] assms(3) this put]
  have e: "vol.ext {inum} m m'" "inode_at m' inum = ?x" "vol.ext {inum} m8 m'" using sv by simp_all
  have b8: "in_use m8 b \<and> data m8 b = block_of_u32s inodes'"
    using vol.put_does[OF ok6 b(1) tab(1)] vol.ext_block[OF pw(1) b(1,3)] b(1) pw(3) by simp
  have table: "data m' b = block_of_u32s inodes'" "in_use m' b" "\<not> in_use m b"
    using vol.ext_block[OF e(3) b(1)] b8 unused_before[OF ext1 b(1,2)] by simp_all
  have d: "data_block (bs ! k) \<and> \<not> in_use m (bs ! k) \<and> in_use m' (bs ! k) \<and> data m' (bs ! k) = nth_block ?c k"
    if "k < 100" for k
    using that bs(3) vol.ext_block[OF ext18, of "bs ! k"] vol.ext_block[OF e(3), of "bs ! k"] by simp
  have new: "data_block c \<and> \<not> in_use m c \<and> in_use m' c" if "c \<in> set (bs @ [b])" for c
    using that d b(1) table(2,3) bs(1) by (auto simp: in_set_conv_nth nth_append split: if_splits)
  have vs: "length vs \<le> 128" using pw(2) by (simp add: vs_def length_piece_values)
  obtain Is Bs where sub: "length Is = length vs" "length Bs = length vs"
    "\<And>k. k < length vs \<Longrightarrow> file_at m' (inodes' ! k) (Is ! k) (Bs ! k) (vs ! k) \<and> inum \<notin> Is ! k
        \<and> (\<forall>j \<in> Is ! k. itype (inode_at m j) = 0) \<and> (\<forall>c \<in> Bs ! k. \<not> in_use m c)"
    using pieces_at[OF pw(5) b(3,1) ok6 tab(1) e(3) ext2 same2 assms(4)] by blast
  have "written m m' inum (strip0 (take 51200 ?c @ concat vs))"
    by (rule large_written[OF e(1) assms(3,4) _ _ _ bs(1) new _ _ table(1) pw(3) vs pw(6) sub])
      (use e(2) blocks_x bs(2) tab(2) d sz in auto)
  moreover have "strip0 (take 51200 ?c @ concat vs) = read_back ?c"
    using sz pw(2,4) unfolding vs_def by (intro read_back_pieces[symmetric]) auto
  ultimately show ?thesis by simp
qed

lemma write_file_does:
  assumes "write_file inum buf sz m = Inr m'" "ok m" "inum_ok inum" "itype (inode_at m inum) \<noteq> 0"
    and "nat sz \<le> length buf" "0 \<le> sz \<or> isize (inode_at m inum) = 0"
  shows "written m m' inum (read_back (take (nat sz) buf))"
  using assms
proof (induction "nat sz" arbitrary: inum buf sz m m' rule: less_induct)
  case less
  let ?ino = "inode_at m inum"
  consider "sz < 0" | "0 \<le> sz" "sz \<le> 51200" | "51200 < sz" by linarith
  then show ?case
  proof cases
    case 1
    then have eq: "m' = m" "isize ?ino = 0" using less.prems by (simp_all add: write_file.simps[of inum])
    have "file_at m inum {inum} (set (take (unat (isize ?ino)) (iblocks ?ino)))
        (strip0 (concat (map (data m) (take (unat (isize ?ino)) (iblocks ?ino)))))"
      by (rule file_at.direct) (use less.prems eq(2) in auto)
    then show ?thesis using 1 less.prems(2) eq by (auto simp: written_def vol.ext_refl)
  next
    case 2
    then have "length (take (nat sz) buf) \<le> 51200" by simp
    then show ?thesis
      using write_small_does[OF less.prems(1-4) 2 less.prems(5)] by (simp add: read_back_small)
  next
    case 3
    show ?thesis
      using less.prems(1-5) 3 by (rule write_large_does) (use less.hyps in blast)
  qed
qed

end
