(* ===== verification/File_Progress.thy ===== *)
theory File_Progress imports File_Write begin

text \<open>
  When \<open>write_file\<close> returns: a file of at most 100 blocks needs exactly its number of blocks to be
  free, and throws otherwise. And the disk a server starts with, on which all the data blocks are free.
\<close>

subsection \<open>When a write returns\<close>

abbreviation free_blocks :: "inode_manager \<Rightarrow> u32 set" where "free_blocks \<equiv> vol.free_set"

lemma write_one_returns:
  assumes "ok m" "bm_alloc m = Inr (b, m1)" "b \<noteq> 0" "512 * int i < sz" "nat sz \<le> length buf"
  shows "\<exists>m2. (if 512 * (int i + 1) > sz
             then bindF (copy_in (nat (sz - 512 * int i)) (drop (512 * i) buf)) (\<lambda>part.
               bm_write b (part @ replicate (512 - length part) 0) m1)
             else bm_write b (drop (512 * i) buf) m1) = Inr m2 \<and> ok m2 \<and> free_blocks m2 = free_blocks m - {b}
           \<and> b \<in> free_blocks m"
proof -
  note got = vol.alloc_got[OF assms(1-3)]
  have put: "\<exists>m2. bm_write b src m1 = Inr m2 \<and> ok m2 \<and> free_blocks m2 = free_blocks m - {b}"
    if "512 \<le> length src" for src
  proof -
    obtain m2 where m2: "bm_write b src m1 = Inr m2" using vol.put_returns[of m1 b src] got \<open>512 \<le> length src\<close> by blast
    then have "free_blocks m2 = free_blocks m1" "ok m2"
      using vol.free_set_put[of m1 b src m2] vol.put_does[of m1 b src m2] got by simp_all
    then show ?thesis using m2 vol.free_set_alloc[OF assms(1-3)] by simp
  qed
  show ?thesis
  proof (cases "512 * (int i + 1) > sz")
    case True
    have "nat (sz - 512 * int i) = nat sz - 512 * i" using assms(4) by simp
    then have "copy_in (nat (sz - 512 * int i)) (drop (512 * i) buf)
        = Inr (take (nat (sz - 512 * int i)) (drop (512 * i) buf))"
      using assms(5) by (simp add: copy_in_def)
    then show ?thesis using True put vol.free_set_alloc[OF assms(1-3)] by simp
  next
    case False
    then have "int (512 * Suc i) \<le> sz" by simp
    then have "512 \<le> length (drop (512 * i) buf)" using assms(5) by simp
    then show ?thesis using False put vol.free_set_alloc[OF assms(1-3)] by simp
  qed
qed

lemma write_direct_returns:
  assumes "ok m" "n > 0 \<Longrightarrow> 512 * (int (i + n) - 1) < sz" "nat sz \<le> length buf"
  shows "if n \<le> card (free_blocks m)
      then \<exists>ino' m'. write_direct n i buf sz ino m = Inr (ino', m') \<and> card (free_blocks m') + n = card (free_blocks m)
      else write_direct n i buf sz ino m = Inl Bad_alloc"
  using assms
proof (induction n arbitrary: i ino m)
  case 0
  then show ?case by simp
next
  case (Suc n)
  show ?case
  proof (cases "free_blocks m = {}")
    case True
    then show ?thesis using vol.alloc_fails[OF Suc.prems(1)] by simp
  next
    case False
    obtain b m1 where al: "bm_alloc m = Inr (b, m1)" "b \<noteq> 0"
      using vol.alloc_succeeds[OF Suc.prems(1) False] by blast
    have "512 * int i < sz" using Suc.prems(2) by simp
    from write_one_returns[OF Suc.prems(1) al this Suc.prems(3)]
    obtain m2 where wr: "(if 512 * (int i + 1) > sz
             then bindF (copy_in (nat (sz - 512 * int i)) (drop (512 * i) buf)) (\<lambda>part.
               bm_write b (part @ replicate (512 - length part) 0) m1)
             else bm_write b (drop (512 * i) buf) m1) = Inr m2"
      and m2: "ok m2" "free_blocks m2 = free_blocks m - {b}" "b \<in> free_blocks m" by blast
    have card: "card (free_blocks m) = Suc (card (free_blocks m2))"
      unfolding m2(2) using m2(3) by (metis card.remove finite)
    have eq: "write_direct (Suc n) i buf sz ino m
        = write_direct n (Suc i) buf sz (ino\<lparr>iblocks := (iblocks ino)[i := b]\<rparr>) m2"
    proof -
      have "b > 0" using al(2) word_neq_0_conv by blast
      then show ?thesis using al(1) wr by (simp add: write_direct.simps(2))
    qed
    have "n > 0 \<Longrightarrow> 512 * (int (Suc i + n) - 1) < sz" using Suc.prems(2) by simp
    from Suc.IH[OF m2(1) this Suc.prems(3), of "ino\<lparr>iblocks := (iblocks ino)[i := b]\<rparr>"]
    show ?thesis unfolding eq card by (simp split: if_splits)
  qed
qed

lemma write_small_returns:
  assumes "ok m" "inum_ok inum" "0 \<le> sz" "sz \<le> 51200" "nat sz \<le> length buf"
  shows "if n_blocks sz \<le> card (free_blocks m)
      then \<exists>m'. write_file inum buf sz m = Inr m' \<and> card (free_blocks m') + n_blocks sz = card (free_blocks m)
      else write_file inum buf sz m = Inl Bad_alloc"
proof -
  have n: "n_blocks sz \<le> 100" using n_blocks_gt[OF assms(3)] assms(4) by linarith
  then have mins: "min (n_blocks sz) 100 = n_blocks sz" "min (n_blocks sz) 101 = n_blocks sz" by auto
  have tight: "0 < n_blocks sz \<Longrightarrow> 512 * (int (0 + n_blocks sz) - 1) < sz"
    using n_blocks_tight[of "n_blocks sz - 1" sz] assms(3) by (simp add: of_nat_diff)
  have eq: "write_file inum buf sz m = bindF (write_direct (n_blocks sz) 0 buf sz (inode_at m inum) m) (\<lambda>(ino1, m1).
      put_inode inum (ino1\<lparr>isize := of_nat (n_blocks sz), mtime := fst (time_now m1)\<rparr>) (snd (time_now m1)))"
    unfolding write_file.simps[of inum] using assms(1-4)
    by (simp add: get_inode_ok mins case_prod_beta Let_def)
  note wd = write_direct_returns[OF assms(1) tight assms(5), of "inode_at m inum"]
  show ?thesis
  proof (cases "n_blocks sz \<le> card (free_blocks m)")
    case True
    then obtain ino1 m1 where r: "write_direct (n_blocks sz) 0 buf sz (inode_at m inum) m = Inr (ino1, m1)"
      "card (free_blocks m1) + n_blocks sz = card (free_blocks m)" using wd by auto
    have d: "ok m1" "length (iblocks ino1) = 101"
      using write_direct_does[OF r(1) assms(1) _ _ tight] n vol.ext_ok by auto
    let ?x = "ino1\<lparr>isize := of_nat (n_blocks sz), mtime := fst (time_now m1)\<rparr>" and ?m = "snd (time_now m1)"
    have ok: "ok ?m" "length (iblocks ?x) = 101" using d by simp_all
    obtain m' where m': "put_inode inum ?x ?m = Inr m'" using vol.save_returns[OF ok(1) assms(2) ok(2)] by blast
    have "free_blocks m' = free_blocks m1"
      using vol.free_set_save[OF ok(1) assms(2) ok(2) m'] by (simp add: vol.free_set_def)
    then show ?thesis using True r m' unfolding eq by simp
  next
    case False
    then show ?thesis using wd unfolding eq by simp
  qed
qed

text \<open>
  Larger files take an inode per piece besides. The count here is of files of at most 127 pieces, so
  that the pieces are small files themselves.
\<close>

definition free_inodes :: "inode_manager \<Rightarrow> u32 set" where
  "free_inodes m = {j. inum_ok j \<and> itype (inode_at m j) = 0}"

lemma create_one:
  assumes "ok m" "0 < card (free_inodes m)"
  obtains n m1 where "alloc_inode 2 m = Inr (n, m1)" "ok m1" "inum_ok n" "itype (inode_at m1 n) \<noteq> 0"
    "card (free_inodes m) = Suc (card (free_inodes m1))" "free_blocks m1 = free_blocks m"
    "\<exists>now. inode_at m1 n = new_inode 2 now" "\<forall>j. inum_ok j \<and> j \<noteq> n \<longrightarrow> inode_at m1 j = inode_at m j"
proof -
  obtain j where j: "inum_ok j" "itype (inode_at m j) = 0"
    using assms(2) by (auto simp: free_inodes_def card_gt_0_iff)
  obtain n m1 where al: "alloc_inode 2 m = Inr (n, m1)" using vol.create_returns[OF assms(1), of 2 j] j by auto
  note made = vol.create_does[OF assms(1) _ al, simplified]
  have "free_inodes m1 = free_inodes m - {n}" "n \<in> free_inodes m" using made by (auto simp: free_inodes_def)
  then have "card (free_inodes m) = Suc (card (free_inodes m1))" by (metis card.remove finite)
  moreover have "free_blocks m1 = free_blocks m" using vol.free_set_create[OF assms(1) _ al] by simp
  ultimately show thesis using that[OF al] made by auto
qed

lemma small_keeps_inodes:
  assumes "write_file inum buf sz m = Inr m'" "ok m" "inum_ok inum" "itype (inode_at m inum) \<noteq> 0"
    "0 \<le> sz" "sz \<le> 51200" "nat sz \<le> length buf"
  shows "free_inodes m' = free_inodes m"
proof -
  obtain bs now where "inode_at m' inum = (inode_at m inum)\<lparr>iblocks := bs @ drop (n_blocks sz) (iblocks (inode_at m inum)),
       isize := of_nat (n_blocks sz), mtime := now\<rparr>"
    "\<forall>j. inum_ok j \<and> j \<noteq> inum \<longrightarrow> inode_at m' j = inode_at m j"
    by (rule write_small_layout[OF assms(1-3,5-7)]) (rule that)
  then have "itype (inode_at m' j) = itype (inode_at m j)" if "inum_ok j" for j
    using that by (cases "j = inum") simp_all
  then show ?thesis by (auto simp: free_inodes_def)
qed

text \<open>
  A leaf is an inode without a table whose pointers are empty or in range. Writing makes no inodes but
  leaves, apart from the one it writes.
\<close>

definition pointers_ok :: "inode \<Rightarrow> bool" where
  "pointers_ok x \<longleftrightarrow> (\<forall>b \<in> set (iblocks x). b = 0 \<or> data_block b)"

definition leaf :: "inode \<Rightarrow> bool" where
  "leaf x \<longleftrightarrow> isize x \<le> 100 \<and> pointers_ok x"

definition leaves :: "u32 set \<Rightarrow> inode_manager \<Rightarrow> inode_manager \<Rightarrow> bool" where
  "leaves X m m' \<longleftrightarrow> (\<forall>j. inum_ok j \<and> j \<notin> X \<longrightarrow> inode_at m' j = inode_at m j \<or> leaf (inode_at m' j))"

lemma leaves_trans: "leaves X m m1 \<Longrightarrow> leaves X m1 m2 \<Longrightarrow> leaves X m m2"
  unfolding leaves_def by metis

lemma leaf_new [simp]: "leaf (new_inode t now)"
  by (simp add: leaf_def pointers_ok_def new_inode_def)

lemma small_leaf:
  assumes "write_file inum buf sz m = Inr m'" "ok m" "inum_ok inum" "0 \<le> sz" "sz \<le> 51200" "nat sz \<le> length buf"
    "pointers_ok (inode_at m inum)"
  shows "leaf (inode_at m' inum) \<and> (\<forall>j. inum_ok j \<and> j \<noteq> inum \<longrightarrow> inode_at m' j = inode_at m j)"
proof -
  obtain bs now where bs: "length bs = n_blocks sz"
    "inode_at m' inum = (inode_at m inum)\<lparr>iblocks := bs @ drop (n_blocks sz) (iblocks (inode_at m inum)),
       isize := of_nat (n_blocks sz), mtime := now\<rparr>"
    "\<forall>k < n_blocks sz. data_block (bs ! k) \<and> \<not> in_use m (bs ! k) \<and> in_use m' (bs ! k)
       \<and> data m' (bs ! k) = nth_block (take (nat sz) buf) k"
    "\<forall>j. inum_ok j \<and> j \<noteq> inum \<longrightarrow> inode_at m' j = inode_at m j"
    by (rule write_small_layout[OF assms(1-6)]) (rule that)
  have "n_blocks sz \<le> 100" using n_blocks_gt[OF assms(4)] assms(5) by linarith
  moreover have "\<forall>b \<in> set bs. data_block b" using bs(1,3) by (auto simp: in_set_conv_nth)
  ultimately show ?thesis
    using bs(2,4) assms(7) count_word[of "n_blocks sz"] by (auto simp: leaf_def pointers_ok_def dest: in_set_dropD)
qed

lemma same_block_count: "(r::int) \<le> 512 * a \<Longrightarrow> 512 * a < r + 512 \<Longrightarrow> r \<le> 512 * b \<Longrightarrow> 512 * b < r + 512 \<Longrightarrow> a = b"
proof -
  assume "r \<le> 512 * a" "512 * a < r + 512" "r \<le> 512 * b" "512 * b < r + 512"
  then have "512 * a < 512 * (b + 1)" "512 * b < 512 * (a + 1)" by simp_all
  then show "a = b" by simp
qed

lemma n_blocks_split: "0 \<le> r \<Longrightarrow> n_blocks (min r 51200) + n_blocks (max 0 (r - 51200)) = n_blocks r"
proof (cases "r \<le> 51200")
  case False
  then have "512 * (int (n_blocks (r - 51200)) + 100) < r + 512" "r \<le> 512 * (int (n_blocks (r - 51200)) + 100)"
    "512 * int (n_blocks r) < r + 512" "r \<le> 512 * int (n_blocks r)"
    using n_blocks_int[of r] n_blocks_int[of "r - 51200"] by simp_all
  then have "int (n_blocks r) = int (n_blocks (r - 51200)) + 100"
    using same_block_count by blast
  moreover have "n_blocks 51200 = 100" by (simp add: n_blocks_def)
  ultimately show ?thesis using False by simp
qed simp

lemma write_subs_returns:
  assumes "ok m" "nat sz \<le> length buf" "sz \<le> 51200 * (int i + 1 + int p)" "i + p \<le> 126"
    "p \<le> card (free_inodes m)" "n_blocks (max 0 (sz - 51200 * (int i + 1))) \<le> card (free_blocks m)"
  shows "\<exists>i' inodes' m'. write_subs i buf sz inodes m = Inr (i', inodes', m') \<and> i' \<le> i + p \<and> leaves {} m m'
    \<and> card (free_inodes m) \<le> card (free_inodes m') + p
    \<and> card (free_blocks m') + n_blocks (max 0 (sz - 51200 * (int i + 1))) = card (free_blocks m)"
  using assms
proof (induction p arbitrary: i inodes m)
  case 0
  then show ?case by (simp add: write_subs.simps[of i] leaves_def max_def)
next
  case (Suc p)
  show ?case
  proof (cases "51200 * (int i + 1) < sz")
    case False
    then show ?thesis by (simp add: write_subs.simps[of i] leaves_def max_def)
  next
    case True
    let ?r = "sz - 51200 * (int i + 1)" and ?buf = "drop (51200 * (i + 1)) buf"
    have "0 < card (free_inodes m)" using Suc.prems(5) by simp
    with Suc.prems(1) obtain n m1 where al: "alloc_inode 2 m = Inr (n, m1)" "ok m1" "inum_ok n" "itype (inode_at m1 n) \<noteq> 0"
      and left: "card (free_inodes m) = Suc (card (free_inodes m1))" "free_blocks m1 = free_blocks m"
      and made: "\<exists>now. inode_at m1 n = new_inode 2 now" "\<forall>j. inum_ok j \<and> j \<noteq> n \<longrightarrow> inode_at m1 j = inode_at m j"
      by (rule create_one)
    have split: "n_blocks (min ?r 51200) + n_blocks (max 0 (?r - 51200)) = n_blocks ?r" using True by (intro n_blocks_split) simp
    have len: "0 \<le> min ?r 51200" "min ?r 51200 \<le> 51200" "nat (min ?r 51200) \<le> length ?buf"
      using True Suc.prems(2) by auto
    have "n_blocks (min ?r 51200) \<le> card (free_blocks m1)" using split Suc.prems(6) True left(2) by simp
    with write_small_returns[OF al(2,3) len] obtain m2 where wr: "write_file n ?buf (min ?r 51200) m1 = Inr m2"
      "card (free_blocks m2) + n_blocks (min ?r 51200) = card (free_blocks m1)" by auto
    have m2: "ok m2" "free_inodes m2 = free_inodes m1"
      using write_small_does[OF wr(1) al(2-4) len] small_keeps_inodes[OF wr(1) al(2-4) len] vol.ext_ok
      by (auto simp: written_def)
    have "pointers_ok (inode_at m1 n)" using made(1) by (auto simp: pointers_ok_def new_inode_def)
    from small_leaf[OF wr(1) al(2,3) len this] have "leaves {} m m2" using made(2) by (auto simp: leaves_def)
    note grown = leaves_trans[OF this]
    have "\<exists>i' inodes' m'. write_subs (Suc i) buf sz (inodes[i := n]) m2 = Inr (i', inodes', m') \<and> i' \<le> Suc i + p
        \<and> leaves {} m2 m' \<and> card (free_inodes m2) \<le> card (free_inodes m') + p
        \<and> card (free_blocks m') + n_blocks (max 0 (sz - 51200 * (int (Suc i) + 1))) = card (free_blocks m2)"
    proof (rule Suc.IH[OF m2(1) Suc.prems(2)])
      show "n_blocks (max 0 (sz - 51200 * (int (Suc i) + 1))) \<le> card (free_blocks m2)"
        using split wr(2) left(2) Suc.prems(6) True by (simp add: algebra_simps)
    qed (use Suc.prems(3-5) left(1) m2(2) in auto)
    moreover have "write_subs i buf sz inodes m = write_subs (Suc i) buf sz (inodes[i := n]) m2"
      using True Suc.prems(4) al(1) wr(1) by (subst write_subs.simps) simp
    moreover have "max 0 (?r - 51200) = max 0 (sz - 51200 * (int (Suc i) + 1))" "max 0 ?r = ?r" using True by simp_all
    ultimately show ?thesis using grown left m2(2) wr(2) split by force
  qed
qed

lemma write_large_returns:
  assumes "ok m" "inum_ok inum" "itype (inode_at m inum) \<noteq> 0" "nat sz \<le> length buf"
    and "51200 < sz" "sz \<le> 51200 * (1 + int p)" "p \<le> 126" "p \<le> card (free_inodes m)" "n_blocks sz < card (free_blocks m)"
  shows "\<exists>m'. write_file inum buf sz m = Inr m' \<and> leaves {inum} m m'
    \<and> (pointers_ok (inode_at m inum) \<longrightarrow> pointers_ok (inode_at m' inum))
    \<and> card (free_inodes m) \<le> card (free_inodes m') + p \<and> card (free_blocks m') + n_blocks sz + 1 = card (free_blocks m)"
proof -
  have n: "100 < n_blocks sz" "0 \<le> sz" using n_blocks_gt[of sz] assms(5) by auto
  then have mins: "min (n_blocks sz) 100 = 100" "min (n_blocks sz) 101 = 101" by auto
  obtain ino1 m1 where wd: "write_direct 100 0 buf sz (inode_at m inum) m = Inr (ino1, m1)"
    "card (free_blocks m1) + 100 = card (free_blocks m)"
    using write_direct_returns[OF assms(1) _ assms(4), of 100 0 "inode_at m inum"] n(1) assms(5,9) by auto
  obtain bs where bs: "length bs = 100" "ino1 = (inode_at m inum)\<lparr>iblocks := bs @ drop 100 (iblocks (inode_at m inum))\<rparr>"
    "\<forall>k < 100. data_block (bs ! k)" and ext: "vol.ext {} m m1" and same: "\<forall>j. inum_ok j \<longrightarrow> inode_at m1 j = inode_at m j"
    using write_direct_does[OF wd(1) assms(1)] assms(5) by auto
  have d: "ok m1" "length (iblocks ino1) = 101" using vol.ext_ok[OF ext] bs(1,2) by simp_all
  have "free_blocks m1 \<noteq> {}" using wd(2) n(1) assms(9) by auto
  then obtain b m2 where al: "bm_alloc m1 = Inr (b, m2)" "b \<noteq> 0" using vol.alloc_succeeds[OF d(1)] by blast
  have m2: "ok m2" "data_block b" using vol.alloc_got[OF d(1) al] by auto
  have same2: "\<forall>j. inum_ok j \<longrightarrow> inode_at m2 j = inode_at m j" using vol.alloc_frame[OF d(1) al(1)] same by simp
  then have free2: "free_inodes m2 = free_inodes m" by (auto simp: free_inodes_def)
  have split: "n_blocks (sz - 51200) + 100 = n_blocks sz" "max 0 (sz - 51200 * (int 0 + 1)) = sz - 51200"
    using n_blocks_split[of sz] assms(5) by (simp_all add: n_blocks_def[of 51200])
  have card2: "card (free_blocks m) = card (free_blocks m2) + 101" using vol.card_alloc[OF d(1) al] wd(2) by simp
  then have "n_blocks (max 0 (sz - 51200 * (int 0 + 1))) \<le> card (free_blocks m2)"
    using split assms(9) by simp
  with m2(1) assms(4) obtain i inodes m3 where subs: "write_subs 0 buf sz (replicate 128 0) m2 = Inr (i, inodes, m3)" "i \<le> 0 + p"
      "leaves {} m2 m3" "card (free_inodes m) \<le> card (free_inodes m3) + p" "card (free_blocks m3) + n_blocks (sz - 51200) = card (free_blocks m2)"
    using write_subs_returns[of m2 sz buf 0 p "replicate 128 0"] assms(6-8) free2 split(2) by auto
  have s: "ok m3" "length inodes = 128" "i \<noteq> 127" and ext3: "vol.ext {} m2 m3"
    using write_subs_does[OF subs(1) m2(1) _ _ assms(4)] subs(2) assms(7) vol.ext_ok by auto
  obtain m4 where m4: "bm_write b (block_of_u32s inodes) m3 = Inr m4" "ok m4"
    using vol.put_returns[OF s(1) m2(2), of "block_of_u32s inodes"] vol.put_does[OF s(1) m2(2)] s(2) by auto
  let ?x = "ino1\<lparr>iblocks := (iblocks ino1)[100 := b], isize := 101, mtime := fst (time_now m4)\<rparr>"
  have x: "ok (snd (time_now m4))" "length (iblocks ?x) = 101" using m4(2) d(2) by simp_all
  then obtain m' where m': "put_inode inum ?x (snd (time_now m4)) = Inr m'" using vol.save_returns[OF _ assms(2)] by blast
  then have wr: "write_file inum buf sz m = Inr m'"
    using assms(1,2,5) n wd(1) al subs(1) s(3) m4(1) unfolding write_file.simps[of inum]
    by (simp add: get_inode_ok mins case_prod_beta Let_def)
  have inodes: "inode_at m' j = (if j = inum then ?x else inode_at m3 j)" if "inum_ok j" for j
    using vol.save_does[OF x(1) assms(2) x(2) m'] vol.put_frame[OF s(1) m2(2) m4(1)] that by simp
  have "itype (inode_at m3 inum) \<noteq> 0" using vol.ext_inode[OF ext3 assms(2)] same2 assms(2,3) by simp
  then have "free_inodes m' = free_inodes m3" using inodes bs(2) assms(3) by (auto simp: free_inodes_def split: if_splits)
  moreover have "leaves {inum} m m'" using subs(3) same2 inodes by (auto simp: leaves_def)
  moreover have "free_blocks m' = free_blocks m3"
    using vol.free_set_save[OF x(1) assms(2) x(2) m'] vol.put_does[OF s(1) m2(2) m4(1)] by (auto simp: vol.free_set_def)
  moreover have "pointers_ok (inode_at m' inum)" if "pointers_ok (inode_at m inum)"
  proof -
    have "set (iblocks ?x) \<subseteq> insert b (set bs \<union> set (iblocks (inode_at m inum)))"
      using bs(2) set_update_subset_insert[of "iblocks ino1" 100 b] by (auto dest: in_set_dropD)
    moreover have "\<forall>c \<in> set bs. data_block c" using bs(1,3) by (auto simp: in_set_conv_nth)
    ultimately show ?thesis using that m2(2) inodes[OF assms(2)] by (auto simp: pointers_ok_def)
  qed
  ultimately show ?thesis using wr subs(4,5) card2 split(1) by simp
qed

subsection \<open>The disk after formatting\<close>

lemma card_data_blocks: "card {b. data_block b} = 2095612"
proof -
  have "{b. data_block b} = of_nat ` {1540..<2097152}"
  proof (intro equalityI subsetI)
    fix b :: u32 assume "b \<in> {b. data_block b}"
    then have "b = of_nat (unat b)" "1540 \<le> unat b" "unat b < 2097152"
      by (simp_all add: data_block_iff word_less_nat_alt)
    then show "b \<in> of_nat ` {1540..<2097152}" by (metis atLeastLessThan_iff imageI)
  qed (auto simp: data_block_iff word_less_nat_alt unat_of_nat)
  moreover have "inj_on (of_nat :: nat \<Rightarrow> u32) {1540..<2097152}"
    by (rule inj_on_inverseI[of _ unat]) (simp add: unat_of_nat)
  ultimately show ?thesis by (simp add: card_image)
qed

lemma itype_formatted: "itype (inode_at \<lparr>bm = block_manager_init, clock = clk, ticks = 0\<rparr> i) = 0"
  by (simp add: inode_at_def block_manager_init_def disk_init_def decode_inode_def numeral_2_eq_2)

lemma init_does:
  obtains m where "inode_manager_init clk = Inr (Some m)" "ok m" "inode_at m 1 = new_inode 1 (clk 0)"
    "\<forall>j. inum_ok j \<and> j \<noteq> 1 \<longrightarrow> itype (inode_at m j) = 0" "free_blocks m = {b. data_block b}"
    "data m 0 = replicate 512 0"
proof -
  let ?m = "\<lparr>bm = block_manager_init, clock = clk, ticks = 0\<rparr>"
  have ok: "ok ?m" by (simp add: fmt_init)
  have "(1::u32) \<in> {1, 2, 3}" by simp
  note cases = alloc_inode_cases[OF ok this]
  have one: "inum_ok 1" by (simp add: inum_ok_def)
  show thesis
  proof (rule cases)
    fix i
    let ?m1 = "set_inode i (new_inode 1 (clock ?m (ticks ?m))) (?m\<lparr>ticks := Suc (ticks ?m)\<rparr>)"
    assume i: "inum_ok i" "\<forall>j. inum_ok j \<and> j < i \<longrightarrow> itype (inode_at ?m j) \<noteq> 0" "alloc_inode 1 ?m = Inr (i, ?m1)"
    have "i = 1"
    proof (rule ccontr)
      assume "i \<noteq> 1"
      then have "1 < i" using i(1) by (auto simp: inum_ok_def order_less_le)
      then show False using i(2) one itype_formatted by blast
    qed
    note made = vol.create_does[OF ok _ i(3)]
    have "inode_manager_init clk = Inr (Some ?m1)"
      using i(3) \<open>i = 1\<close> by (simp add: inode_manager_init_def)
    moreover have "free_blocks ?m1 = {b. data_block b}"
      using made used_init by (auto simp: vol.free_set_def)
    moreover have "data ?m1 0 = replicate 512 0"
      using made by (simp add: block_manager_init_def disk_init_def)
    moreover have "inode_at ?m1 1 = new_inode 1 (clk 0)"
      using \<open>i = 1\<close> ok by (simp add: inode_at_set_inode)
    ultimately show thesis using made itype_formatted \<open>i = 1\<close> by (intro that[of ?m1]) auto
  qed (use one itype_formatted in blast)
qed

end
