(* ===== verification/File_Properties.thy ===== *)
theory File_Properties imports File_Progress begin

text \<open>
  The properties of files: what reading returns after writing, what writing leaves alone, when it
  returns, and what it costs.
\<close>


subsection \<open>Reading and writing\<close>

lemma written_reads: "written m m' i v \<Longrightarrow> read_file max_depth i m' = Inr v"
proof -
  assume "written m m' i v"
  then obtain I B where "file_at m' i I B v" "ok m'" by (auto simp: written_def dest: vol.ext_ok)
  then show ?thesis using file_at_card by (intro read_file_at) fastforce+
qed

text \<open>Examples for the witnesses: a write to the inode of the root directory of a new disk.\<close>

lemma example_write:
  obtains m m' where "write_file 1 [1, 2, 3] 3 m = Inr m'" "ok m" "inum_ok 1" "inode_at m 1 = new_inode 1 0"
    "inode_manager_init (\<lambda>n. 0) = Inr (Some m)"
proof -
  obtain m where m: "inode_manager_init (\<lambda>n. 0) = Inr (Some m)" "ok m" "inode_at m 1 = new_inode 1 0"
    "free_blocks m = {b. data_block b}"
    by (rule init_does[of "\<lambda>n. 0"]) auto
  have one: "inum_ok 1" by (simp add: inum_ok_def)
  have "n_blocks 3 = 1" by (simp add: n_blocks_def)
  with write_small_returns[OF m(2) one, of 3 "[1, 2, 3]"] m(4) card_data_blocks
  obtain m' where "write_file 1 [1, 2, 3] 3 m = Inr m'" by auto
  then show thesis using that m one by blast
qed

lemma large_example:
  assumes "length buf = 102401"
  obtains m m' where "write_file 1 buf 102401 m = Inr m'" "ok m" "inum_ok 1" "inode_at m 1 = new_inode 1 0"
proof -
  obtain m where m: "ok m" "inode_at m 1 = new_inode 1 0" "free_blocks m = {b. data_block b}"
    and free: "\<forall>j. inum_ok j \<and> j \<noteq> 1 \<longrightarrow> itype (inode_at m j) = 0"
    by (rule init_does[of "\<lambda>n. 0"]) auto
  have one: "inum_ok 1" by (simp add: inum_ok_def)
  have "{2, 3} \<subseteq> free_inodes m" using free by (auto simp: free_inodes_def inum_ok_def)
  then have "card {2, 3::u32} \<le> card (free_inodes m)" by (intro card_mono) simp_all
  then have "2 \<le> card (free_inodes m)" by simp
  moreover have "n_blocks 102401 = 201" by (simp add: n_blocks_def)
  ultimately obtain m' where "write_file 1 buf 102401 m = Inr m'"
    using write_large_returns[OF m(1) one, of 102401 buf 2] m(2,3) assms card_data_blocks by auto
  then show thesis using that m one by blast
qed

text \<open>
  C17: What \<open>read_file\<close> returns after a successful \<open>write_file\<close> of any size: \<open>read_back\<close> of the bytes
  written, which drops the trailing zero bytes of every piece of the file.
\<close>

theorem write_then_read:
  assumes "ok m" "inum_ok inum" "itype (inode_at m inum) \<noteq> 0" "0 \<le> sz" "nat sz \<le> length buf"
    and "write_file inum buf sz m = Inr m'"
  shows "read_file max_depth inum m' = Inr (read_back (take (nat sz) buf))"
  using write_file_does[OF assms(6,1-3,5)] assms(4) by (intro written_reads) blast

theorem write_then_read_witness:
  "\<exists>m m'. write_file 1 [1, 2, 3] 3 m = Inr m' \<and> read_file max_depth 1 m' = Inr [1, 2, 3]"
proof -
  obtain m m' where w: "write_file 1 [1, 2, 3] 3 m = Inr m'" "ok m" "inum_ok 1" "inode_at m 1 = new_inode 1 0"
    by (rule example_write)
  have "read_file max_depth 1 m' = Inr (read_back (take (nat 3) [1, 2, 3]))"
    using w(2,3) _ _ _ w(1) by (rule write_then_read) (use w(4) in simp_all)
  then show ?thesis using w(1) by (auto simp: read_back_small strip0_def numeral_3_eq_3)
qed

lemma chunk_nonzero: "0 \<notin> set c \<Longrightarrow> strip0 (chunk c i) = chunk c i"
  by (rule strip0_id) (metis chunk_def in_set_dropD in_set_takeD last_in_set)

lemma read_back_nonzero: "0 \<notin> set c \<Longrightarrow> read_back c = c"
proof (induction c rule: read_back.induct)
  case (1 c)
  have id: "strip0 c = c" using 1(2) by (intro strip0_id) (metis last_in_set)
  show ?case
  proof (cases "length c \<le> 51200")
    case True
    then show ?thesis using id by (simp add: read_back_small)
  next
    case False
    have "read_back (drop (51200 * 128) c) = drop (51200 * 128) c"
      using 1(1)[OF False] 1(2) by (auto dest: in_set_dropD)
    moreover have "take 51200 c @ concat (map (chunk c) [0..<n]) = take (51200 * (n + 1)) c" for n
    proof (induction n)
      case (Suc n)
      have "take (51200 * (Suc n + 1)) c = take (51200 * (n + 1)) c @ chunk c n"
        using take_add[of "51200 * (n + 1)" 51200 c] by (simp add: chunk_def algebra_simps)
      then show ?case using Suc by simp
    qed simp
    moreover have "(51200::nat) * (127 + 1) = 51200 * 128" by simp
    ultimately have "take 51200 c @ concat (map (chunk c) [0..<127]) @ read_back (drop (51200 * 128) c) = c"
      by (metis append_assoc append_take_drop_id)
    then show ?thesis
      using False id 1(2) by (subst read_back.simps) (simp only: chunk_nonzero[OF 1(2)] if_False)
  qed
qed

text \<open>
  C18: A content without zero bytes reads back exactly, whatever its size: past 51200 bytes through the
  table of further inodes, and past 6553600 bytes through the file in its last entry.
\<close>

theorem text_round_trip:
  assumes "ok m" "inum_ok inum" "itype (inode_at m inum) \<noteq> 0" "0 \<notin> set buf"
    and "write_file inum buf (int (length buf)) m = Inr m'"
  shows "read_file max_depth inum m' = Inr buf"
  using write_file_does[OF assms(5,1-3)] assms(4) written_reads by (fastforce simp: read_back_nonzero)

theorem text_round_trip_witness:
  "\<exists>m m'. write_file 1 (replicate 102401 7) 102401 m = Inr m' \<and> read_file max_depth 1 m' = Inr (replicate 102401 7)"
proof -
  let ?buf = "replicate 102401 (7::u8)"
  obtain m m' where w: "write_file 1 ?buf 102401 m = Inr m'" "ok m" "inum_ok 1" "inode_at m 1 = new_inode 1 0"
    by (rule large_example[of ?buf]) simp_all
  have "read_file max_depth 1 m' = Inr ?buf"
    using w(2,3) by (rule text_round_trip) (use w in simp_all)
  then show ?thesis using w(1) by blast
qed

text \<open>
  C19: Zero bytes inside a file are lost when they end a piece of it: a file of three pieces reads back
  with the zeros at the end of its second piece cut out, and the rest moved up.
\<close>

theorem inner_zeros_lost:
  assumes "ok m" "inum_ok inum" "itype (inode_at m inum) \<noteq> 0"
    and "length as = 51200" "length bs = 51200" "length cs \<le> 51200" "cs \<noteq> []" "last cs \<noteq> 0"
    and "write_file inum (as @ bs @ cs) (int (length (as @ bs @ cs))) m = Inr m'"
  shows "read_file max_depth inum m' = Inr (as @ strip0 bs @ cs)"
proof -
  let ?c = "as @ bs @ cs"
  have "read_back ?c = strip0 (take 51200 ?c @ concat (map (\<lambda>i. strip0 (chunk ?c i)) [0..<2]))"
    using assms(4-7) by (intro read_back_upto) auto
  also have "[0..<2] = [0, 1::nat]" by (simp add: numeral_2_eq_2)
  also have "take 51200 ?c @ concat (map (\<lambda>i. strip0 (chunk ?c i)) [0, 1]) = as @ strip0 bs @ strip0 cs"
    using assms(4-6) by (simp add: chunk_def)
  also have "strip0 cs = cs" using assms(7,8) by (intro strip0_id) simp
  also have "strip0 (as @ strip0 bs @ cs) = as @ strip0 bs @ cs"
    using assms(7,8) by (intro strip0_id) simp
  finally show ?thesis using write_file_does[OF assms(9,1-3)] written_reads by fastforce
qed


theorem inner_zeros_lost_witness:
  "\<exists>m m' buf. length buf = 102401 \<and> write_file 1 buf 102401 m = Inr m' \<and>
     (\<exists>v. read_file max_depth 1 m' = Inr v \<and> length v = 51201)"
proof -
  let ?as = "replicate 51200 (7::u8)" and ?bs = "replicate 51200 (0::u8)" and ?cs = "[9::u8]"
  have len: "length (?as @ ?bs @ ?cs) = 102401" by simp
  obtain m m' where w: "write_file 1 (?as @ ?bs @ ?cs) 102401 m = Inr m'" "ok m" "inum_ok 1" "inode_at m 1 = new_inode 1 0"
    by (rule large_example[OF len])
  have "read_file max_depth 1 m' = Inr (?as @ strip0 ?bs @ ?cs)"
    using w(2,3) by (rule inner_zeros_lost) (use w len in simp_all)
  then have "read_file max_depth 1 m' = Inr (?as @ ?cs)" by (simp only: strip0_zeros append_Nil)
  moreover have "length (?as @ ?cs) = 51201" by simp
  ultimately show ?thesis using w(1) len by blast
qed

text \<open>
  C20: A write disturbs no other file: every file that does not run through the written inode keeps its
  inodes, its blocks and its content.
\<close>

theorem write_keeps_others:
  assumes "ok m" "inum_ok inum" "itype (inode_at m inum) \<noteq> 0" "0 \<le> sz" "nat sz \<le> length buf"
    and "write_file inum buf sz m = Inr m'" and "file_at m j I B v" "inum \<notin> I"
  shows "file_at m' j I B v \<and> read_file max_depth j m' = Inr v"
proof -
  have e: "vol.ext {inum} m m'"
    using write_file_does[OF assms(6,1-3,5)] assms(4) by (auto simp: written_def)
  then have "file_at m' j I B v" using assms(7,8) by (auto intro: file_at_ext)
  then show ?thesis using file_at_card[of m' j] vol.ext_ok[OF e] by (fastforce intro: read_file_at)
qed

lemma new_file_at: "inum_ok i \<Longrightarrow> inode_at m i = new_inode t now \<Longrightarrow> ucast t \<noteq> (0::u16) \<Longrightarrow> file_at m i {i} {} []"
  using file_at.direct[of i "inode_at m i" m] by simp

theorem write_keeps_others_witness:
  "\<exists>n m m'. write_file n [1, 2, 3] 3 m = Inr m' \<and> n \<noteq> 1 \<and> read_file max_depth 1 m' = Inr []"
proof -
  obtain m where m: "ok m" "inode_at m 1 = new_inode 1 0" "free_blocks m = {b. data_block b}"
    and free: "\<forall>j. inum_ok j \<and> j \<noteq> 1 \<longrightarrow> itype (inode_at m j) = 0"
    by (rule init_does[of "\<lambda>n. 0"]) auto
  have two: "inum_ok 2" "itype (inode_at m 2) = 0" using free by (simp_all add: inum_ok_def)
  obtain n m1 where al: "alloc_inode 2 m = Inr (n, m1)" using vol.create_returns[OF m(1), of 2 2] two by auto
  note made = vol.create_does[OF m(1) _ al, simplified]
  have "n \<noteq> 1" using made m(2) by auto
  have one: "inum_ok 1" by (simp add: inum_ok_def)
  have "free_blocks m1 = {b. data_block b}" using vol.free_set_create[OF m(1) _ al] m(3) by simp
  moreover have "n_blocks 3 = 1" by (simp add: n_blocks_def)
  ultimately obtain m' where w: "write_file n [1, 2, 3] 3 m1 = Inr m'"
    using write_small_returns[of m1 n 3 "[1, 2, 3]"] made card_data_blocks by auto
  have root: "inode_at m1 1 = new_inode 1 0" using made one \<open>n \<noteq> 1\<close> m(2) by simp
  have "file_at m1 1 {1} {} []" using one root by (rule new_file_at) simp
  then have "file_at m' 1 {1} {} [] \<and> read_file max_depth 1 m' = Inr []"
    by (intro write_keeps_others[OF _ _ _ _ _ w]) (use made \<open>n \<noteq> 1\<close> in auto)
  then show ?thesis using w \<open>n \<noteq> 1\<close> by blast
qed

text \<open>
  C21: A write of at most 51200 bytes succeeds exactly when enough blocks are free, takes as many as
  the content has, and throws \<open>std::bad_alloc\<close> otherwise.
\<close>

theorem small_write_returns:
  assumes "ok m" "inum_ok inum" "0 \<le> sz" "sz \<le> 51200" "nat sz \<le> length buf"
  shows "if n_blocks sz \<le> card (free_blocks m)
      then \<exists>m'. write_file inum buf sz m = Inr m' \<and> card (free_blocks m') + n_blocks sz = card (free_blocks m)
      else write_file inum buf sz m = Inl Bad_alloc"
  using assms by (rule write_small_returns)

theorem small_write_returns_witness:
  "\<exists>m m'. inode_manager_init (\<lambda>n. 0) = Inr (Some m) \<and> write_file 1 [1, 2, 3] 3 m = Inr m'
     \<and> card (free_blocks m') = 2095611"
proof -
  obtain m where m: "inode_manager_init (\<lambda>n. 0) = Inr (Some m)" "ok m" "free_blocks m = {b. data_block b}"
    by (rule init_does[of "\<lambda>n. 0"]) auto
  have n: "n_blocks 3 = 1" by (simp add: n_blocks_def)
  have one: "inum_ok 1" by (simp add: inum_ok_def)
  have "if n_blocks 3 \<le> card (free_blocks m)
      then \<exists>m'. write_file 1 [1, 2, 3] 3 m = Inr m' \<and> card (free_blocks m') + n_blocks 3 = card (free_blocks m)
      else write_file 1 [1, 2, 3] 3 m = Inl Bad_alloc"
    using m(2) one by (rule small_write_returns) simp_all
  then show ?thesis using m card_data_blocks n by auto
qed

text \<open>
  C22: A write of up to 127 pieces of 51200 bytes succeeds when there is a free block for each of its
  blocks and one for its table, and a free inode for each piece after the first.
\<close>

theorem large_write_returns:
  assumes "ok m" "inum_ok inum" "itype (inode_at m inum) \<noteq> 0" "nat sz \<le> length buf"
    and "51200 < sz" "sz \<le> 51200 * (1 + int p)" "p \<le> 126"
    and "p \<le> card (free_inodes m)" "n_blocks sz < card (free_blocks m)"
  shows "\<exists>m'. write_file inum buf sz m = Inr m' \<and> ok m'"
proof -
  obtain m' where m': "write_file inum buf sz m = Inr m'" using write_large_returns[OF assms] by blast
  then have "vol.ext {inum} m m'" using write_file_does[OF m' assms(1-4)] assms(5) by (simp add: written_def)
  then show ?thesis using m' vol.ext_ok by blast
qed

theorem large_write_returns_witness:
  "\<exists>m m'. inode_manager_init (\<lambda>n. 0) = Inr (Some m) \<and> write_file 1 (replicate 51201 7) 51201 m = Inr m' \<and> ok m'"
proof -
  obtain m where m: "inode_manager_init (\<lambda>n. 0) = Inr (Some m)" "ok m" "inode_at m 1 = new_inode 1 0"
      "free_blocks m = {b. data_block b}"
    and free: "\<forall>j. inum_ok j \<and> j \<noteq> 1 \<longrightarrow> itype (inode_at m j) = 0"
    by (rule init_does[of "\<lambda>n. 0"]) auto
  have one: "inum_ok 1" by (simp add: inum_ok_def)
  have "2 \<in> free_inodes m" using free by (simp add: free_inodes_def inum_ok_def)
  then have "1 \<le> card (free_inodes m)" by (simp add: Suc_le_eq card_gt_0_iff) blast
  moreover have "n_blocks 51201 = 101" by (simp add: n_blocks_def)
  ultimately have "\<exists>m'. write_file 1 (replicate 51201 7) 51201 m = Inr m' \<and> ok m'"
    using m(3,4) card_data_blocks by (intro large_write_returns[OF m(2) one, where p = 1]) simp_all
  then show ?thesis using m(1) by blast
qed

text \<open>
  C23: Writing a file again does not reuse its blocks: the new content is in blocks that were free, and
  every block of the old content stays allocated, although nothing refers to it.
\<close>

theorem rewrite_leaks:
  assumes "ok m" "inum_ok inum" "itype (inode_at m inum) \<noteq> 0" "0 \<le> sz" "nat sz \<le> length buf"
    and "write_file inum buf sz m = Inr m'" and "file_at m inum I B v"
  shows "\<exists>I' B'. file_at m' inum I' B' (read_back (take (nat sz) buf)) \<and> B \<inter> B' = {}
    \<and> (\<forall>b \<in> B. in_use m' b \<and> data m' b = data m b)"
proof -
  have w: "written m m' inum (read_back (take (nat sz) buf))"
    using write_file_does[OF assms(6,1-3,5)] assms(4) by blast
  then obtain I' B' where "file_at m' inum I' B' (read_back (take (nat sz) buf))" "\<forall>b \<in> B'. \<not> in_use m b"
    and e: "vol.ext {inum} m m'" by (auto simp: written_def)
  moreover have "\<forall>b \<in> B. in_use m' b \<and> data m' b = data m b" "\<forall>b \<in> B. in_use m b"
    using file_at_blocks[OF assms(7)] vol.ext_block[OF e] by auto
  ultimately show ?thesis by blast
qed

lemma file_at_nonempty: "file_at m i I B v \<Longrightarrow> v \<noteq> [] \<Longrightarrow> B \<noteq> {}"
proof (induction rule: file_at.induct)
  case (direct i ino)
  then show ?case by (cases "take (unat (isize ino)) (iblocks ino)") (simp_all del: take_eq_Nil take_eq_Nil2)
next
  case (indirect i ino ns Is Bs vs)
  then have "length (iblocks ino) = 101" by simp
  then show ?case by auto
qed

theorem rewrite_leaks_witness:
  "\<exists>m m' m'' B B'. write_file 1 [1, 2, 3] 3 m = Inr m' \<and> write_file 1 [4] 1 m' = Inr m''
     \<and> B \<noteq> {} \<and> (\<forall>b \<in> B. in_use m'' b) \<and> (\<exists>I. file_at m'' 1 I B' [4]) \<and> B \<inter> B' = {}"
proof -
  obtain m where m: "ok m" "inode_at m 1 = new_inode 1 0" "free_blocks m = {b. data_block b}"
    by (rule init_does[of "\<lambda>n. 0"]) auto
  have one: "inum_ok 1" by (simp add: inum_ok_def)
  have n: "n_blocks 3 = 1" "n_blocks 1 = 1" by (simp_all add: n_blocks_def)
  obtain m' where w: "write_file 1 [1, 2, 3] 3 m = Inr m'" "card (free_blocks m') = 2095611"
    using write_small_returns[OF m(1) one, of 3 "[1, 2, 3]"] m(3) n card_data_blocks by auto
  have wr: "written m m' 1 [1, 2, 3]"
    using write_small_does[OF w(1) m(1) one] m(2) by (simp add: strip0_def numeral_3_eq_3)
  then obtain I B where I: "file_at m' 1 I B [1, 2, 3]" and m': "ok m'" "itype (inode_at m' 1) \<noteq> 0"
    using m(2) vol.ext_ok by (auto simp: written_def)
  obtain m'' where w2: "write_file 1 [4] 1 m' = Inr m''"
    using write_small_returns[OF m'(1) one, of 1 "[4]"] w(2) n by auto
  have "\<exists>I' B'. file_at m'' 1 I' B' (read_back (take (nat 1) [4])) \<and> B \<inter> B' = {}
      \<and> (\<forall>b \<in> B. in_use m'' b \<and> data m'' b = data m' b)"
    using m'(1) one m'(2) _ _ w2 I by (rule rewrite_leaks) simp_all
  moreover have "B \<noteq> {}" using file_at_nonempty[OF I] by simp
  ultimately show ?thesis using w(1) w2 by (auto simp: read_back_small strip0_def) blast
qed

end
