(* ===== verification/File_Attributes.thy ===== *)
theory File_Attributes imports File_Properties begin

text \<open>
  The sizes \<open>get_file_size\<close> reports, removing a file, and what \<open>set_attr\<close> does to small files, with
  their properties.
\<close>

subsection \<open>Sizes\<close>

lemma last_nz_strip0: "n \<le> length bl \<Longrightarrow> last_nz n bl = length (strip0 (take n bl)) - 1"
  by (induction n) (auto simp: take_Suc_conv_app_nth strip0_snoc)

lemma get_file_size_direct:
  assumes "ok m" "inum_ok i" "isize (inode_at m i) = of_nat n" "n \<le> 100"
    and "0 < n \<Longrightarrow> iblocks (inode_at m i) ! (n - 1) < 2097152"
  shows "get_file_size (Suc f) i m = Inr (if n = 0 then 0
    else of_nat (512 * (n - 1) + max 1 (length (strip0 (data m (iblocks (inode_at m i) ! (n - 1)))))))"
proof (cases n)
  case 0
  then show ?thesis using assms by (simp add: get_inode_ok)
next
  case (Suc k)
  let ?bl = "data m (iblocks (inode_at m i) ! k)"
  have k: "unat (of_nat k :: u32) = k" using assms(4) Suc by (simp add: unat_of_nat)
  have n: "(of_nat n :: u32) \<noteq> 0" "(of_nat n :: u32) < 101"
    using assms(4) Suc unat_of_count[of n] by (auto simp: word_less_nat_alt simp del: of_nat_Suc)
  have "last_nz 512 ?bl + 1 = max 1 (length (strip0 ?bl))"
    using last_nz_strip0[of 512 ?bl] assms(1) by simp
  moreover have "of_nat k * 512 + of_nat (last_nz 512 ?bl) + 1 = (of_nat (512 * k + (last_nz 512 ?bl + 1)) :: u32)"
    by simp
  ultimately have "of_nat k * 512 + of_nat (last_nz 512 ?bl) + 1 = (of_nat (512 * k + max 1 (length (strip0 ?bl))) :: u32)"
    by metis
  moreover have "(of_nat n :: u32) - 1 = of_nat k" by (simp add: Suc)
  moreover have "bm_read (iblocks (inode_at m i) ! k) m = Inr ?bl"
    using assms(1,5) Suc by (simp add: bm_read_ok)
  ultimately show ?thesis
    using assms(1-3) n k Suc by (simp add: get_inode_ok last_non_zero_element_index_in_block_def)
qed

lemma get_file_size_after:
  assumes "ok m" "inum_ok inum" "0 < sz" "sz \<le> 51200" "nat sz \<le> length buf" "write_file inum buf sz m = Inr m'"
  shows "get_file_size max_depth inum m' = Inr (of_nat (512 * (n_blocks sz - 1)
    + max 1 (length (strip0 (drop (512 * (n_blocks sz - 1)) (take (nat sz) buf))))))"
proof -
  let ?n = "n_blocks sz" and ?c = "take (nat sz) buf"
  have sz: "0 \<le> sz" using assms(3) by simp
  obtain bs now where bs: "length bs = ?n" "vol.ext {inum} m m'"
    "inode_at m' inum = (inode_at m inum)\<lparr>iblocks := bs @ drop ?n (iblocks (inode_at m inum)),
       isize := of_nat ?n, mtime := now\<rparr>"
    "\<forall>k < ?n. data_block (bs ! k) \<and> \<not> in_use m (bs ! k) \<and> in_use m' (bs ! k) \<and> data m' (bs ! k) = nth_block ?c k"
    by (rule write_small_layout[OF assms(6,1,2) sz assms(4,5)]) (rule that)
  have n: "?n \<le> 100" "0 < ?n" using n_blocks_gt[OF sz] n_blocks_covers[OF sz] assms(3,4) by (linarith, cases ?n) auto
  have last: "iblocks (inode_at m' inum) ! (?n - 1) = bs ! (?n - 1)"
    using bs(1,3) n(2) by (simp add: nth_append)
  have "length (drop (512 * (?n - 1)) ?c) \<le> 512" using n_blocks_covers[OF sz] n(2) by (cases ?n) auto
  then have "strip0 (nth_block ?c (?n - 1)) = strip0 (drop (512 * (?n - 1)) ?c)"
    by (simp add: nth_block_def)
  then have "strip0 (data m' (bs ! (?n - 1))) = strip0 (drop (512 * (?n - 1)) ?c)" using bs(4) n(2) by simp
  moreover have "get_file_size max_depth inum m' = Inr (if ?n = 0 then 0
    else of_nat (512 * (?n - 1) + max 1 (length (strip0 (data m' (iblocks (inode_at m' inum) ! (?n - 1)))))))"
    using get_file_size_direct[of m' inum ?n 1024] vol.ext_ok[OF bs(2)] assms(2) bs(3,4) n last by (simp add: data_block_lt)
  ultimately show ?thesis using n(2) unfolding last by simp
qed

text \<open>
  C24: The size \<open>get_file_size\<close> reports after a write of at most 51200 bytes: the full blocks, and in the
  last block the bytes up to its last nonzero one, but at least one.
\<close>

theorem size_after_write:
  assumes "ok m" "inum_ok inum" "0 < sz" "sz \<le> 51200" "nat sz \<le> length buf" "write_file inum buf sz m = Inr m'"
  shows "get_file_size max_depth inum m' = Inr (of_nat (512 * (n_blocks sz - 1)
    + max 1 (length (strip0 (drop (512 * (n_blocks sz - 1)) (take (nat sz) buf))))))"
  using assms by (rule get_file_size_after)

theorem size_after_write_witness:
  "\<exists>m m'. write_file 1 [1, 2, 3] 3 m = Inr m' \<and> get_file_size max_depth 1 m' = Inr 3"
proof -
  obtain m m' where w: "write_file 1 [1, 2, 3] 3 m = Inr m'" "ok m" "inum_ok 1"
    by (rule example_write) (rule that)
  have n: "n_blocks 3 = 1" by (simp add: n_blocks_def)
  have "get_file_size max_depth 1 m' = Inr (of_nat (512 * (n_blocks 3 - 1)
    + max 1 (length (strip0 (drop (512 * (n_blocks 3 - 1)) (take (nat 3) [1, 2, 3]))))))"
    using w(2,3) _ _ _ w(1) by (rule size_after_write) simp_all
  then show ?thesis using w(1) by (auto simp: n strip0_def numeral_3_eq_3)
qed

lemma file_size_of_text:
  assumes "ok m" "inum_ok inum" "length buf \<le> 51200" "buf \<noteq> []" "last buf \<noteq> 0"
    and "write_file inum buf (int (length buf)) m = Inr m'"
  shows "get_file_size max_depth inum m' = Inr (of_nat (length buf))"
proof -
  let ?k = "n_blocks (int (length buf)) - 1"
  have pos: "0 < n_blocks (int (length buf))" using n_blocks_covers[of "int (length buf)"] assms(4) by (cases "n_blocks (int (length buf))") auto
  then have k: "512 * ?k < length buf" using n_blocks_tight[of ?k "int (length buf)"] by simp
  then have "strip0 (drop (512 * ?k) buf) = drop (512 * ?k) buf" using assms(5) by (intro strip0_id) simp
  moreover have "get_file_size max_depth inum m'
      = Inr (of_nat (512 * ?k + max 1 (length (strip0 (drop (512 * ?k) (take (nat (int (length buf))) buf))))))"
    using get_file_size_after[OF assms(1,2) _ _ _ assms(6)] assms(3,4) by simp
  ultimately show ?thesis using k by simp
qed

text \<open>
  The reported size is the number of bytes written, when the last of them is not zero.
\<close>

lemma size_of_text:
  assumes "ok m" "inum_ok inum" "length buf \<le> 51200" "buf \<noteq> []" "last buf \<noteq> 0"
    and "write_file inum buf (int (length buf)) m = Inr m'"
  shows "get_file_size max_depth inum m' = Inr (of_nat (length buf))"
  using assms by (rule file_size_of_text)

subsection \<open>Removing a file\<close>

lemma remove_direct:
  assumes "ok m" "inum_ok i" "itype (inode_at m i) \<noteq> 0" "isize (inode_at m i) \<le> 100"
    and ptrs: "ptrs = takeWhile (\<lambda>b. b \<noteq> 0) (take 100 (iblocks (inode_at m i)))" "distinct ptrs"
      "\<forall>b \<in> set ptrs. data_block b \<and> in_use m b"
  shows "\<exists>m'. remove_file (Suc f) i m = Inr m' \<and> ok m' \<and> data m' 0 = data m 0 \<and> inode_at m' i = zero_inode
    \<and> (\<forall>j. inum_ok j \<and> j \<noteq> i \<longrightarrow> inode_at m' j = inode_at m j)
    \<and> (\<forall>b. data_block b \<longrightarrow> in_use m' b = (b \<notin> set ptrs \<and> in_use m b)
         \<and> (b \<notin> set ptrs \<longrightarrow> data m' b = data m b))"
proof -
  obtain m1 where m1: "each_sub_st bm_free (take 100 (iblocks (inode_at m i))) m = Inr m1" "ok m1" "data m1 0 = data m 0"
    "\<forall>j. inum_ok j \<longrightarrow> inode_at m1 j = inode_at m j"
    "\<forall>b. data_block b \<longrightarrow> in_use m1 b = (b \<notin> set ptrs \<and> in_use m b)
       \<and> data m1 b = (if b \<in> set ptrs then replicate 512 0 else data m b)"
    using vol.release_all[OF assms(1) ptrs(2,3)] unfolding ptrs(1) each_sub_st_takeWhile by blast
  have z: "length (iblocks zero_inode) = 101" by (simp add: zero_inode_def)
  obtain m' where m': "put_inode i zero_inode m1 = Inr m'" using vol.save_returns[OF m1(2) assms(2) z] ..
  note put = vol.save_does[OF m1(2) assms(2) z m']
  have "\<not> 100 < isize (inode_at m i)" using assms(4) by simp
  then have "remove_file (Suc f) i m = Inr m'"
    using assms(1-3) m1(1,2,4) m' by (simp add: get_inode_ok free_inode_def)
  then show ?thesis using put m1(3-5) assms(2) by auto
qed

text \<open>
  C25: Creating a file, writing at most 51200 bytes to it (so that it has no table) and removing it gives everything
  back: the inode is free again, and the other inodes and the set of free blocks are as before.
\<close>

theorem create_write_remove:
  assumes "ok m" "t \<in> {T_DIR, T_FILE, T_LNK}" "0 \<le> sz" "sz \<le> 51200" "nat sz \<le> length buf"
    and "alloc_inode t m = Inr (i, m1)" "write_file i buf sz m1 = Inr m2"
  shows "\<exists>m3. remove_file max_depth i m2 = Inr m3 \<and> free_blocks m3 = free_blocks m
    \<and> (\<forall>j. inum_ok j \<longrightarrow> (if j = i then itype (inode_at m3 j) = 0 \<and> itype (inode_at m j) = 0
                        else inode_at m3 j = inode_at m j))"
proof -
  have made: "ok m1" "inum_ok i" "itype (inode_at m i) = 0" "\<exists>now. inode_at m1 i = new_inode t now"
    "\<forall>j. inum_ok j \<and> j \<noteq> i \<longrightarrow> inode_at m1 j = inode_at m j"
    using vol.create_does[OF assms(1,2,6)] by auto
  let ?n = "n_blocks sz"
  obtain bs now where bs: "length bs = ?n" "distinct bs" "vol.ext {i} m1 m2"
    "inode_at m2 i = (inode_at m1 i)\<lparr>iblocks := bs @ drop ?n (iblocks (inode_at m1 i)), isize := of_nat ?n, mtime := now\<rparr>"
    "\<forall>k < ?n. data_block (bs ! k) \<and> \<not> in_use m1 (bs ! k) \<and> in_use m2 (bs ! k) \<and> data m2 (bs ! k) = nth_block (take (nat sz) buf) k"
    "\<forall>j. inum_ok j \<and> j \<noteq> i \<longrightarrow> inode_at m2 j = inode_at m1 j"
    by (rule write_small_layout[OF assms(7) made(1,2) assms(3-5)]) (rule that)
  have n: "?n \<le> 100" using n_blocks_gt[OF assms(3)] assms(4) by linarith
  have each: "data_block b \<and> \<not> in_use m1 b \<and> in_use m2 b \<and> b \<noteq> 0" if "b \<in> set bs" for b
    using that bs(1,5) vol.zero_invalid by (metis in_set_conv_nth)
  have "drop ?n (iblocks (inode_at m1 i)) = replicate (101 - ?n) 0" using made(4) by (auto simp: new_inode_def)
  then have "take 100 (iblocks (inode_at m2 i)) = bs @ replicate (100 - ?n) 0"
    using bs(1,4) n by (simp add: min_def)
  then have ptrs: "bs = takeWhile (\<lambda>b. b \<noteq> 0) (take 100 (iblocks (inode_at m2 i)))"
    using each by (simp add: takeWhile_append2)
  have ty: "itype (inode_at m2 i) \<noteq> 0" "isize (inode_at m2 i) \<le> 100"
    using made(4) assms(2) bs(4) count_word[OF n] by (auto simp: new_inode_def)
  have "\<forall>b \<in> set bs. data_block b \<and> in_use m2 b" using each by blast
  from remove_direct[OF vol.ext_ok[OF bs(3)] made(2) ty ptrs bs(2) this, of 1024] obtain m3 where
    m3: "remove_file max_depth i m2 = Inr m3" "inode_at m3 i = zero_inode"
    "\<forall>j. inum_ok j \<and> j \<noteq> i \<longrightarrow> inode_at m3 j = inode_at m2 j"
    "\<forall>b. data_block b \<longrightarrow> in_use m3 b = (b \<notin> set bs \<and> in_use m2 b)"
    by (auto simp: numeral_eq_Suc)
  have "set bs \<subseteq> free_blocks m1" using each by (auto simp: vol.free_set_def)
  moreover have "card (set bs) = ?n" using bs(1,2) by (simp add: distinct_card)
  moreover have "card (free_blocks m2) + ?n = card (free_blocks m1)"
    using write_small_returns[OF made(1,2) assms(3-5)] assms(7) by (simp split: if_splits)
  moreover have "free_blocks m2 \<subseteq> free_blocks m1 - set bs"
    using vol.ext_block[OF bs(3)] each by (auto simp: vol.free_set_def)
  ultimately have "free_blocks m2 = free_blocks m1 - set bs"
    by (intro card_subset_eq) (simp_all add: card_Diff_subset)
  then have "free_blocks m3 = free_blocks m1"
    using m3(4) each by (auto simp: vol.free_set_def)
  also have "\<dots> = free_blocks m" using vol.free_set_create[OF assms(1,2,6)] .
  finally have "free_blocks m3 = free_blocks m" .
  then show ?thesis using m3 made bs(6) by (auto simp: zero_inode_def)
qed


lemma example_create:
  obtains m i m1 m2 where "ok m" "alloc_inode 2 m = Inr (i, m1)" "write_file i [1, 2, 3] 3 m1 = Inr m2"
    "free_blocks m = {b. data_block b}"
proof -
  obtain m where m: "ok m" "free_blocks m = {b. data_block b}"
    and free: "\<forall>j. inum_ok j \<and> j \<noteq> 1 \<longrightarrow> itype (inode_at m j) = 0"
    by (rule init_does[of "\<lambda>n. 0"]) (rule that)
  have "inum_ok 2" "itype (inode_at m 2) = 0" using free by (simp_all add: inum_ok_def)
  then obtain i m1 where al: "alloc_inode 2 m = Inr (i, m1)" using vol.create_returns[OF m(1), of 2 2] by auto
  note made = vol.create_does[OF m(1) _ al, simplified]
  have "free_blocks m1 = {b. data_block b}" using vol.free_set_create[OF m(1) _ al] m(2) by simp
  moreover have "n_blocks 3 = 1" by (simp add: n_blocks_def)
  ultimately obtain m2 where "write_file i [1, 2, 3] 3 m1 = Inr m2"
    using write_small_returns[of m1 i 3 "[1, 2, 3]"] made card_data_blocks by auto
  then show thesis using that m al by blast
qed

theorem create_write_remove_witness:
  "\<exists>m i m1 m2 m3. alloc_inode 2 m = Inr (i, m1) \<and> write_file i [1, 2, 3] 3 m1 = Inr m2
     \<and> remove_file max_depth i m2 = Inr m3 \<and> free_blocks m3 = free_blocks m"
proof -
  obtain m i m1 m2 where e: "ok m" "alloc_inode 2 m = Inr (i, m1)" "write_file i [1, 2, 3] 3 m1 = Inr m2"
    "free_blocks m = {b. data_block b}"
    by (rule example_create) (rule that)
  have "\<exists>m3. remove_file max_depth i m2 = Inr m3 \<and> free_blocks m3 = free_blocks m
    \<and> (\<forall>j. inum_ok j \<longrightarrow> (if j = i then itype (inode_at m3 j) = 0 \<and> itype (inode_at m j) = 0
                        else inode_at m3 j = inode_at m j))"
    using e(1) _ _ _ _ e(2,3) by (rule create_write_remove) simp_all
  then show ?thesis using e(2,3) by blast
qed

subsection \<open>set_attr\<close>

lemma file_size_bounds:
  assumes "ok m" "inum_ok i" "isize (inode_at m i) = of_nat n" "n \<le> 100"
    and "0 < n \<Longrightarrow> iblocks (inode_at m i) ! (n - 1) < 2097152" "get_file_size max_depth i m = Inr s"
  shows "unat s \<le> 512 * n" and "512 * n < unat s + 512"
proof -
  let ?bl = "data m (iblocks (inode_at m i) ! (n - 1))"
  let ?s = "if n = 0 then 0 else 512 * (n - 1) + max 1 (length (strip0 ?bl))"
  have len: "length ?bl = 512" using assms(1) by simp
  have "s = of_nat ?s"
    using get_file_size_direct[OF assms(1-5), of 1024] assms(6) by (simp split: if_splits)
  moreover have "?s \<le> 512 * n" "512 * n < ?s + 512" using strip0_length[of ?bl] len by (cases n; simp)+
  ultimately have "unat s = ?s" using assms(4) by (simp add: unat_of_nat)
  then show "unat s \<le> 512 * n" "512 * n < unat s + 512" using \<open>?s \<le> 512 * n\<close> \<open>512 * n < ?s + 512\<close> by simp_all
qed

lemma n_blocks_nat: "n_blocks (int k) = k div 512 + (if k mod 512 \<noteq> 0 then 1 else 0)"
proof -
  have "int k div 512 = int (k div 512)" "int k mod 512 = int (k mod 512)" by (simp_all add: zdiv_int zmod_int)
  then show ?thesis unfolding n_blocks_def by (simp add: nat_add_distrib del: of_nat_div of_nat_mod)
qed

lemma blocks_of_size_unat: "sz \<le> 51200 \<Longrightarrow> unat (blocks_of_size sz) = n_blocks (int (unat sz))"
proof -
  assume "sz \<le> 51200"
  then have le: "unat sz \<le> 51200" by (simp add: word_le_nat_alt)
  have "unat (sz div 512) = unat sz div 512" "sz mod 512 = 0 \<longleftrightarrow> unat sz mod 512 = 0"
    by (simp_all add: unat_div unat_mod word_unat_eq_iff)
  moreover have "unat sz div 512 \<le> 100" using le by simp
  ultimately have "unat (blocks_of_size sz) = unat sz div 512 + (if unat sz mod 512 \<noteq> 0 then 1 else 0)"
    by (auto simp: blocks_of_size_def unsigned_ucast_eq unat_word_ariths take_bit_eq_mod)
  also have "\<dots> = n_blocks (int (unat sz))"
    by (rule n_blocks_nat[symmetric])
  finally show ?thesis .
qed


lemma last_pointer:
  assumes "0 < n" "n \<le> 100" "\<forall>b \<in> set (take n (iblocks (inode_at m i))). P b"
  shows "P (iblocks (inode_at m i) ! (n - 1))"
proof -
  have "take n (iblocks (inode_at m i)) ! (n - 1) \<in> set (take n (iblocks (inode_at m i)))"
    using assms(1,2) by (intro nth_mem) simp
  then show ?thesis using assms by simp
qed

text \<open>
  Both calls that \<open>set_attr\<close> can make on a small file end in the same way: the block count in the
  inode changes and nothing else does.
\<close>

definition resized :: "inode_manager \<Rightarrow> inode_manager \<Rightarrow> u32 \<Rightarrow> u32 \<Rightarrow> bool" where
  "resized m m' i n \<longleftrightarrow> (\<exists>now. only_inode m m' i ((inode_at m i)\<lparr>isize := n, mtime := now\<rparr>))"

lemma put_resized:
  assumes "ok m" "inum_ok i"
  shows "\<exists>m'. put_inode i ((inode_at m i)\<lparr>isize := n, mtime := fst (time_now m)\<rparr>) (snd (time_now m)) = Inr m' \<and> resized m m' i n"
proof -
  let ?x = "(inode_at m i)\<lparr>isize := n, mtime := fst (time_now m)\<rparr>"
  have "ok (snd (time_now m))" "length (iblocks ?x) = 101" using assms(1) by simp_all
  from put_only_inode[OF this(1) assms(2) this(2)]
  obtain m' where "put_inode i ?x (snd (time_now m)) = Inr m'" "only_inode (snd (time_now m)) m' i ?x" .
  then show ?thesis by (auto simp: resized_def only_inode_def)
qed

lemma pad_direct_noop: "\<forall>i \<in> set is. of_nat i < isize ino \<Longrightarrow> pad_direct is ino m = Inr (ino, m)"
  by (induction "is") (auto simp: not_le)

lemma grow_resizes:
  assumes "ok m" "inum_ok i" "isize (inode_at m i) \<le> 100"
    and "\<forall>b \<in> set (take (unat (isize (inode_at m i))) (iblocks (inode_at m i))). b < 2097152"
    and "get_file_size max_depth i m = Inr s" "ucast s < sz" "sz \<le> 51200"
  shows "\<exists>m'. set_attr max_depth i sz m = Inr m' \<and> resized m m' i (blocks_of_size sz)"
proof -
  let ?ino = "inode_at m i" and ?n = "unat (isize (inode_at m i))"
  have n: "isize ?ino = of_nat ?n" "?n \<le> 100" "\<not> 100 < isize ?ino" using assms(3) by (simp_all add: word_le_nat_alt not_less)
  have "iblocks ?ino ! (?n - 1) < 2097152" if "0 < ?n"
    using that n(2) assms(4) by (rule last_pointer)
  from file_size_bounds[OF assms(1,2) n(1,2) this assms(5)] have "512 * ?n < unat s + 512" by simp
  moreover have "unat s < unat sz" using assms(6) by (simp add: word_less_nat_alt)
  moreover have blocks: "unat (blocks_of_size sz) = n_blocks (int (unat sz))" using assms(7) by (rule blocks_of_size_unat)
  ultimately have keep: "?n \<le> unat (blocks_of_size sz)" using n_blocks_covers[of "int (unat sz)"] by simp
  have "unat sz \<le> 51200" using assms(7) by (simp add: word_le_nat_alt)
  then have "unat (blocks_of_size sz) \<le> 100" using blocks n_blocks_gt[of "int (unat sz)"] by linarith
  then have cap: "min (blocks_of_size sz) 101 = blocks_of_size sz" by (simp add: min_def word_le_nat_alt)
  have loop: "each_st (\<lambda>k s. if of_nat k \<ge> blocks_of_size sz
      then bindF (bm_write (iblocks ?ino ! k) (replicate 512 0) s) (bm_free (iblocks ?ino ! k)) else Inr s)
      [0..<min ?n 100] m = Inr m"
    by (rule each_st_noop) (use keep n(2) in \<open>auto simp: word_le_nat_alt unat_of_nat\<close>)
  have "sz \<noteq> 0" using assms(6) by auto
  then have eq: "truncate_file (Suc 1024) i sz m
      = put_inode i (?ino\<lparr>isize := blocks_of_size sz, mtime := fst (time_now m)\<rparr>) (snd (time_now m))"
    unfolding truncate_file.simps using assms(1,2) n(3) loop cap by (simp add: get_inode_ok Let_def case_prod_beta)
  then have "set_attr max_depth i sz m = truncate_file (Suc 1024) i sz m"
    using assms(5,6) by (simp add: set_attr_def)
  then show ?thesis using eq put_resized[OF assms(1,2)] by simp
qed

lemma shrink_resizes:
  assumes "ok m" "inum_ok i" "isize (inode_at m i) \<le> 100"
    and "\<forall>b \<in> set (take (unat (isize (inode_at m i))) (iblocks (inode_at m i))). b < 2097152"
    and "get_file_size max_depth i m = Inr s" "sz < ucast s"
  shows "\<exists>m'. set_attr max_depth i sz m = Inr m' \<and> resized m m' i (blocks_of_size sz)"
proof -
  let ?ino = "inode_at m i" and ?n = "unat (isize (inode_at m i))"
  have n: "isize ?ino = of_nat ?n" "?n \<le> 100" using assms(3) by (simp_all add: word_le_nat_alt)
  have "iblocks ?ino ! (?n - 1) < 2097152" if "0 < ?n"
    using that n(2) assms(4) by (rule last_pointer)
  from file_size_bounds[OF assms(1,2) n this assms(5)] have "unat s \<le> 512 * ?n" by simp
  moreover have less: "unat sz < unat s" using assms(6) by (simp add: word_less_nat_alt)
  moreover have "512 * int (n_blocks (int (unat sz))) < int (unat sz) + 512" by (rule n_blocks_int) simp
  ultimately have le: "n_blocks (int (unat sz)) \<le> ?n" by linarith
  have small: "sz \<le> 51200" using less \<open>unat s \<le> 512 * ?n\<close> n(2) by (simp add: word_le_nat_alt)
  then have blocks: "unat (blocks_of_size sz) = n_blocks (int (unat sz))" by (rule blocks_of_size_unat)
  have cap: "min (blocks_of_size sz) 101 = blocks_of_size sz" "\<not> 100 < blocks_of_size sz"
    using blocks le n(2) by (simp_all add: min_def word_le_nat_alt word_less_nat_alt)
  have "pad_direct [0..<min (unat (blocks_of_size sz)) 100] ?ino m = Inr (?ino, m)"
    by (rule pad_direct_noop) (use blocks le n(2) in \<open>auto simp: word_less_nat_alt unat_of_nat\<close>)
  then have eq: "padding_file (Suc 1024) i sz m
      = put_inode i (?ino\<lparr>isize := blocks_of_size sz, mtime := fst (time_now m)\<rparr>) (snd (time_now m))"
    unfolding padding_file.simps using assms(1,2) cap by (simp add: get_inode_ok Let_def case_prod_beta)
  have "\<not> ucast s < sz" using assms(6) by (rule order_less_not_sym)
  then have "set_attr max_depth i sz m = padding_file (Suc 1024) i sz m"
    using assms(5,6) by (simp add: set_attr_def)
  then show ?thesis using eq put_resized[OF assms(1,2)] by simp
qed

text \<open>
  C26: Changing the size of a small file, by \<open>truncate_file\<close> when it grows and by \<open>padding_file\<close> when it
  shrinks, changes the block count of the inode only: no block is allocated for a new part or freed, no byte
  is cleared, and the pointers stay what they were.
\<close>

theorem resize_moves_no_block:
  assumes "ok m" "inum_ok i" "isize (inode_at m i) \<le> 100"
    and "\<forall>b \<in> set (take (unat (isize (inode_at m i))) (iblocks (inode_at m i))). data_block b"
    and "get_file_size max_depth i m = Inr s" "sz \<noteq> ucast s" "sz \<le> 51200"
  shows "\<exists>m'. set_attr max_depth i sz m = Inr m' \<and> resized m m' i (blocks_of_size sz)"
proof -
  have ptrs: "\<forall>b \<in> set (take (unat (isize (inode_at m i))) (iblocks (inode_at m i))). b < 2097152"
    using assms(4) data_block_lt by blast
  consider "ucast s < sz" | "sz < ucast s" using assms(6) by fastforce
  then show ?thesis
    using grow_resizes[OF assms(1-3) ptrs assms(5) _ assms(7)] shrink_resizes[OF assms(1-3) ptrs assms(5)] by cases
qed

text \<open>A small file of one block on a new disk, for the witnesses: its size is 3.\<close>

lemma example_small:
  obtains m where "ok m" "inum_ok 1" "isize (inode_at m 1) = 1"
    "\<forall>b \<in> set (take (unat (isize (inode_at m 1))) (iblocks (inode_at m 1))). data_block b"
    "get_file_size max_depth 1 m = Inr 3"
proof -
  obtain m0 m where w: "write_file 1 [1, 2, 3] 3 m0 = Inr m" "ok m0" "inum_ok 1"
    by (rule example_write) (rule that)
  have n: "n_blocks 3 = 1" by (simp add: n_blocks_def)
  obtain bs now where bs: "length bs = n_blocks 3" "vol.ext {1} m0 m"
    "inode_at m 1 = (inode_at m0 1)\<lparr>iblocks := bs @ drop (n_blocks 3) (iblocks (inode_at m0 1)),
       isize := of_nat (n_blocks 3), mtime := now\<rparr>"
    "\<forall>k < n_blocks 3. data_block (bs ! k) \<and> \<not> in_use m0 (bs ! k) \<and> in_use m (bs ! k)
       \<and> data m (bs ! k) = nth_block (take (nat 3) [1, 2, 3]) k"
    by (rule write_small_layout[OF w]) (use that in auto)
  have "get_file_size max_depth 1 m = Inr (of_nat (length [1, 2, 3::u8]))"
    using w(2,3) by (rule file_size_of_text) (use w(1) in simp_all)
  moreover have "\<forall>b \<in> set (take (unat (isize (inode_at m 1))) (iblocks (inode_at m 1))). data_block b"
    using bs n by (auto simp: in_set_conv_nth)
  ultimately show thesis using that[OF vol.ext_ok[OF bs(2)] w(3)] bs(3) n by simp
qed

theorem resize_moves_no_block_witness:
  "\<exists>m m' m''. isize (inode_at m 1) = 1 \<and> set_attr max_depth 1 1000 m = Inr m' \<and> isize (inode_at m' 1) = 2
     \<and> iblocks (inode_at m' 1) = iblocks (inode_at m 1)
     \<and> set_attr max_depth 1 0 m = Inr m'' \<and> isize (inode_at m'' 1) = 0 \<and> free_blocks m'' = free_blocks m"
proof -
  obtain m where m: "ok m" "inum_ok 1" "isize (inode_at m 1) = 1"
    "\<forall>b \<in> set (take (unat (isize (inode_at m 1))) (iblocks (inode_at m 1))). data_block b"
    "get_file_size max_depth 1 m = Inr 3"
    by (rule example_small) (rule that)
  have any: "\<exists>m'. set_attr max_depth 1 sz m = Inr m' \<and> resized m m' 1 (blocks_of_size sz)" if "sz \<noteq> 3" "sz \<le> 51200" for sz
    using m(1,2) _ m(4,5) by (rule resize_moves_no_block) (use m(3) that in simp_all)
  have "blocks_of_size 1000 = 2" "blocks_of_size 0 = 0" by (simp_all add: blocks_of_size_def)
  then obtain m' m'' where m': "set_attr max_depth 1 1000 m = Inr m'" "resized m m' 1 2"
    and m'': "set_attr max_depth 1 0 m = Inr m''" "resized m m'' 1 0"
    using any[of 1000] any[of 0] by auto
  have "isize (inode_at m' 1) = 2" "iblocks (inode_at m' 1) = iblocks (inode_at m 1)"
    using m'(2) by (auto simp: resized_def only_inode_def)
  moreover have "isize (inode_at m'' 1) = 0" "free_blocks m'' = free_blocks m"
    using m''(2) by (auto simp: resized_def only_inode_def vol.free_set_def)
  ultimately show ?thesis using m(3) m'(1) m''(1) by blast
qed

lemma read_direct:
  assumes "ok m" "inum_ok i" "isize (inode_at m i) \<le> 100"
    and "\<forall>b \<in> set (take (unat (isize (inode_at m i))) (iblocks (inode_at m i))). b < 2097152"
  shows "read_file (Suc f) i m = Inr (strip0 (concat (map (data m) (take (unat (isize (inode_at m i))) (iblocks (inode_at m i))))))"
proof -
  have "min (unat (isize (inode_at m i))) 100 = unat (isize (inode_at m i))" "\<not> 100 < isize (inode_at m i)"
    using assms(3) by (simp_all add: word_le_nat_alt not_less)
  moreover have "mapF (\<lambda>b. bm_read b m) (take (unat (isize (inode_at m i))) (iblocks (inode_at m i)))
      = Inr (map (data m) (take (unat (isize (inode_at m i))) (iblocks (inode_at m i))))"
    by (rule mapF_map) (use assms(1,4) in \<open>simp add: bm_read_ok\<close>)
  ultimately show ?thesis using assms(1,2) by (simp add: get_inode_ok)
qed

lemma read_resized:
  assumes "ok m" "inum_ok i" "isize (inode_at m i) \<le> 100" "resized m m' i (isize (inode_at m i))"
    and "\<forall>b \<in> set (take (unat (isize (inode_at m i))) (iblocks (inode_at m i))). data_block b"
  shows "read_file (Suc f) i m' = read_file (Suc f) i m"
proof -
  obtain now where x: "inode_at m' i = (inode_at m i)\<lparr>isize := isize (inode_at m i), mtime := now\<rparr>" "ok m'"
    and same: "\<forall>b. data_block b \<longrightarrow> data m' b = data m b"
    using assms(4) by (auto simp: resized_def only_inode_def)
  then have eq: "isize (inode_at m' i) = isize (inode_at m i)" "iblocks (inode_at m' i) = iblocks (inode_at m i)" by simp_all
  have "map (data m') (take (unat (isize (inode_at m i))) (iblocks (inode_at m i)))
      = map (data m) (take (unat (isize (inode_at m i))) (iblocks (inode_at m i)))"
    using same assms(5) by simp
  moreover have disk: "\<forall>b \<in> set (take (unat (isize (inode_at m i))) (iblocks (inode_at m i))). b < 2097152"
    using assms(5) data_block_lt by blast
  moreover note read_direct[OF assms(1-3) disk, of f]
  moreover have "read_file (Suc f) i m' = Inr (strip0 (concat (map (data m') (take (unat (isize (inode_at m i))) (iblocks (inode_at m i))))))"
    using read_direct[OF x(2) assms(2), of f] assms(3) disk unfolding eq by blast
  ultimately show ?thesis by (simp only:)
qed

text \<open>
  Shrinking a file to a size with the same number of blocks does not shorten it: it still reads
  as before, with the bytes past its new end.
\<close>

lemma shrink_within_block:
  assumes "ok m" "inum_ok inum" "itype (inode_at m inum) \<noteq> 0" "length buf \<le> 51200" "buf \<noteq> []" "last buf \<noteq> 0"
    and "write_file inum buf (int (length buf)) m = Inr m1"
    and "unat sz < length buf" "n_blocks (int (unat sz)) = n_blocks (int (length buf))"
  shows "\<exists>m2. set_attr max_depth inum sz m1 = Inr m2 \<and> read_file max_depth inum m2 = Inr buf"
proof -
  let ?n = "n_blocks (int (length buf))"
  obtain bs now where bs: "length bs = ?n" "vol.ext {inum} m m1"
    "inode_at m1 inum = (inode_at m inum)\<lparr>iblocks := bs @ drop ?n (iblocks (inode_at m inum)), isize := of_nat ?n, mtime := now\<rparr>"
    "\<forall>k < ?n. data_block (bs ! k) \<and> \<not> in_use m (bs ! k) \<and> in_use m1 (bs ! k)
       \<and> data m1 (bs ! k) = nth_block (take (nat (int (length buf))) buf) k"
    by (rule write_small_layout[OF assms(7,1,2)]) (use assms(4) that in auto)
  have n: "?n \<le> 100" using n_blocks_gt[of "int (length buf)"] assms(4) by simp
  have take: "take (unat (isize (inode_at m1 inum))) (iblocks (inode_at m1 inum)) = bs" "isize (inode_at m1 inum) \<le> 100"
    using count_word[OF n] bs(1,3) by simp_all
  then have valid: "\<forall>b \<in> set (take (unat (isize (inode_at m1 inum))) (iblocks (inode_at m1 inum))). data_block b"
    using bs(1,4) by (auto simp: in_set_conv_nth)
  note ok1 = vol.ext_ok[OF bs(2)]
  have size: "get_file_size max_depth inum m1 = Inr (of_nat (length buf))"
    using assms(1,2,4-7) by (rule file_size_of_text)
  have "sz < ucast (of_nat (length buf) :: u32)"
    using assms(4,8) by (simp add: word_less_nat_alt unat_of_nat)
  moreover have "\<forall>b \<in> set (take (unat (isize (inode_at m1 inum))) (iblocks (inode_at m1 inum))). b < 2097152"
    using valid data_block_lt by blast
  ultimately obtain m2 where
    m2: "set_attr max_depth inum sz m1 = Inr m2" "resized m1 m2 inum (blocks_of_size sz)"
    using shrink_resizes[OF ok1 assms(2) take(2) _ size] by blast
  have "sz \<le> 51200" using assms(4,8) by (simp add: word_le_nat_alt)
  then have "unat (blocks_of_size sz) = unat (isize (inode_at m1 inum))"
    using assms(9) bs(3) count_word[OF n] by (simp add: blocks_of_size_unat)
  then have "blocks_of_size sz = isize (inode_at m1 inum)" by (simp only: word_unat_eq_iff)
  then have "read_file (Suc 1024) inum m2 = read_file (Suc 1024) inum m1"
    using m2(2) take(2) valid by (intro read_resized[OF ok1 assms(2)]) simp_all
  moreover have "read_file max_depth inum m1 = Inr buf"
    using write_small_does[OF assms(7,1-3)] assms(4-6) written_reads[of m m1 inum buf] by (simp add: strip0_id)
  ultimately show ?thesis using m2(1) by simp
qed

end
