(* ===== verification/Dir_Layer.thy ===== *)
theory Dir_Layer imports File_Layer begin

text \<open>
  Directories of \<open>inode_manager\<close>. A directory is an inode of type \<open>T_DIR\<close> with one block per entry: the
  inode number in 4 bytes, then the name, zero-terminated. Past 100 entries pointer 100 is meant to be a
  table of further directories, as for files. As in the file layer, the methods that follow the table
  take the number of levels they may go down.
\<close>

subsection \<open>Reading a directory\<close>

type_synonym dir_entries = "(u64 \<times> bytes) list"

text \<open>An entry's block, as \<open>memcpy\<close> and the constructor of \<open>std::string\<close> from a C string read it.\<close>

definition dir_entry :: "bytes \<Rightarrow> u64 \<times> bytes" where
  "dir_entry buf = (ucast (u32_of_bytes (take 4 buf)), takeWhile (\<lambda>c. c \<noteq> 0) (drop 4 buf))"

fun read_dir :: "nat \<Rightarrow> u32 \<Rightarrow> inode_manager \<Rightarrow> fault + dir_entries" where
  "read_dir 0 inum m = Inl Diverges"
| "read_dir (Suc f) inum m = bindF (get_inode inum m) (\<lambda>r. case r of
       None \<Rightarrow> Inr []
     | Some ino \<Rightarrow>
         if itype ino \<noteq> T_DIR then Inr []
         else bindF (mapF (\<lambda>b. bindF (bm_read b m) (\<lambda>buf. Inr (dir_entry buf)))
                       (take (min (unat (isize ino)) NDIRECT) (iblocks ino))) (\<lambda>direct_bufs.
           bindF (if isize ino > NDIRECT
                  then bindF (bm_read (iblocks ino ! NDIRECT) m) (\<lambda>inum_buf.
                    bindF (each_sub (\<lambda>i. read_dir f i m) (u32s_of_block inum_buf)) (\<lambda>bufs. Inr (concat bufs)))
                  else Inr []) (\<lambda>indirect_bufs.
           Inr (direct_bufs @ indirect_bufs))))"

subsection \<open>Adding an entry\<close>

text \<open>\<open>memcpy\<close> of some bytes into an array, from an offset on.\<close>

definition copy_to :: "nat \<Rightarrow> bytes \<Rightarrow> bytes \<Rightarrow> fault + bytes" where
  "copy_to off src buf =
     (if off + length src \<le> length buf then Inr (take off buf @ src @ drop (off + length src) buf) else Inl Out_of_bounds)"

text \<open>The block of an entry: the name is copied behind the inode number without a check of its length.\<close>

definition dir_block :: "u32 \<Rightarrow> bytes \<Rightarrow> fault + bytes" where
  "dir_block inum name = bindF (copy_to 0 (bytes_of_u32 inum) (replicate BLOCK_SIZE 0)) (copy_to 4 name)"

text \<open>
  The loop over the table at block \<open>b\<close>: \<open>add\<close> is the recursive call, \<open>inum_buf\<close> the whole table, and the
  list argument what is left of it from index \<open>i\<close>.
\<close>

fun add_slots :: "(u32 \<Rightarrow> inode_manager \<Rightarrow> fault + inode_manager) \<Rightarrow> u32 \<Rightarrow> u32 list \<Rightarrow> nat \<Rightarrow> u32 list
    \<Rightarrow> inode_manager \<Rightarrow> fault + inode_manager" where
  "add_slots add b inum_buf i [] m = Inr m"
| "add_slots add b inum_buf i (x # xs) m =
     (if x = 0
      then bindF (alloc_inode T_DIR m) (\<lambda>(n, m1).
        bindF (add n m1) (bm_write b (block_of_u32s (inum_buf[i := n]))))
      else bindF (get_ino_block_num x m) (\<lambda>k.
        if k < NDIRECT \<or> i = NINDIRECT - 1 then add x m
        else add_slots add b inum_buf (Suc i) xs m))"

fun add_to_dir :: "nat \<Rightarrow> u32 \<Rightarrow> u32 \<Rightarrow> bytes \<Rightarrow> inode_manager \<Rightarrow> fault + inode_manager" where
  "add_to_dir 0 parent_inum inum name m = Inl Diverges"
| "add_to_dir (Suc f) parent_inum inum name m = bindF (get_inode parent_inum m) (\<lambda>r. case r of
       None \<Rightarrow> Inr m
     | Some ino \<Rightarrow>
         if itype ino \<noteq> T_DIR then Inr m
         else bindF (if isize ino < NDIRECT
                     then bindF (bm_alloc m) (\<lambda>(b, m1).
                       if b = 0 then Inl Bad_alloc
                       else bindF (dir_block inum name) (\<lambda>buf.
                         bindF (bm_write b buf m1) (\<lambda>m2.
                         Inr (ino\<lparr>iblocks := (iblocks ino)[unat (isize ino) := b]\<rparr>, m2))))
                     else bindF (bm_read (iblocks ino ! NDIRECT) m) (\<lambda>buf.
                       bindF (add_slots (\<lambda>sub. add_to_dir f sub inum name) (iblocks ino ! NDIRECT)
                                (u32s_of_block buf) 0 (u32s_of_block buf) m) (\<lambda>m2.
                       Inr (ino, m2)))) (\<lambda>(ino1, m2).
           let (now1, m3) = time_now m2; (now2, m4) = time_now m3 in
           put_inode parent_inum
             (ino1\<lparr>isize := (if isize ino1 < NDIRECT + 1 then isize ino1 + 1 else isize ino1),
                   mtime := now1, ctime := now2\<rparr>) m4))"

subsection \<open>Removing an entry\<close>

fun ino_next_block :: "nat \<Rightarrow> u32 \<Rightarrow> u32 \<Rightarrow> u32 \<Rightarrow> inode_manager \<Rightarrow> fault + u32" where
  "ino_next_block 0 inum iter b m = Inl Diverges"
| "ino_next_block (Suc f) inum iter b m = bindF (get_inode inum m) (\<lambda>r. case r of
       None \<Rightarrow> Inr b
     | Some ino \<Rightarrow>
         if iter < NDIRECT then Inr (iblocks ino ! unat iter)
         else bindF (bm_read (iblocks ino ! NDIRECT) m) (\<lambda>inum_buf.
           let calc_index = (iter - NDIRECT) div NDIRECT;
               max_index = NINDIRECT - 1;
               inum_buf_index = (if calc_index < max_index then calc_index else max_index)
           in ino_next_block f (u32s_of_block inum_buf ! unat inum_buf_index)
                (iter - (inum_buf_index + 1) * NDIRECT) b m))"

fun read_blockid :: "nat \<Rightarrow> u32 \<Rightarrow> inode_manager \<Rightarrow> fault + u32 list" where
  "read_blockid 0 inum m = Inl Diverges"
| "read_blockid (Suc f) inum m = bindF (get_inode inum m) (\<lambda>r. case r of
       None \<Rightarrow> Inr []
     | Some ino \<Rightarrow>
         bindF (if isize ino > NDIRECT
                then bindF (bm_read (iblocks ino ! NDIRECT) m) (\<lambda>inum_buf.
                  bindF (each_sub (\<lambda>i. read_blockid f i m) (u32s_of_block inum_buf)) (\<lambda>bufs. Inr (concat bufs)))
                else Inr []) (\<lambda>blocks.
         Inr (take (min (unat (isize ino)) NDIRECT) (iblocks ino) @ blocks)))"

text \<open>The loop that looks for the entry of \<open>inum\<close> and frees its block; it ends at the index it stopped at.\<close>

fun find_entry :: "u32 \<Rightarrow> u32 \<Rightarrow> u32 list \<Rightarrow> inode_manager \<Rightarrow> fault + u32 \<times> inode_manager" where
  "find_entry inum index [] m = Inr (index, m)"
| "find_entry inum index (b # bs) m = bindF (bm_read b m) (\<lambda>buf.
     if u32_of_bytes (take 4 buf) = inum then bindF (bm_free b m) (\<lambda>m1. Inr (index, m1))
     else find_entry inum (index + 1) bs m)"

text \<open>
  The results are the three reference parameters \<open>index\<close>, \<open>last_block_id\<close> and \<open>last_block_index\<close>, which
  the only caller has set to 0, and the state. \<open>back()\<close> of an empty vector is undefined.
\<close>

definition free_and_find_last :: "nat \<Rightarrow> u32 \<Rightarrow> u32 \<Rightarrow> inode_manager \<Rightarrow> fault + u32 \<times> u32 \<times> u32 \<times> inode_manager" where
  "free_and_find_last f parent_inum inum m = bindF (get_inode parent_inum m) (\<lambda>r. case r of
       None \<Rightarrow> Inr (0, 0, 0, m)
     | Some ino \<Rightarrow>
         if itype ino \<noteq> T_DIR then Inr (0, 0, 0, m)
         else bindF (read_blockid f parent_inum m) (\<lambda>block_ids.
           bindF (find_entry inum 0 block_ids m) (\<lambda>(index, m1).
           if block_ids = [] then Inl Out_of_bounds
           else Inr (index, last block_ids, of_nat (length block_ids) - 1, m1))))"

text \<open>
  \<open>set_ino_block_id\<close> takes \<open>parent_inum\<close> by reference and sets it to 0 when it has freed that inode; the
  result is the return value, the new \<open>parent_inum\<close>, and the state. In the loop over the table, \<open>set\<close> is
  the recursive call.
\<close>

fun set_subs :: "(u32 \<Rightarrow> u32 \<Rightarrow> inode_manager \<Rightarrow> fault + bool \<times> u32 \<times> inode_manager) \<Rightarrow> u32 \<Rightarrow> inode \<Rightarrow> u32 \<Rightarrow> nat
    \<Rightarrow> u32 list \<Rightarrow> inode_manager \<Rightarrow> fault + bool \<times> inode_manager" where
  "set_subs set_id parent_inum ino index i [] m = Inr (False, m)"
| "set_subs set_id parent_inum ino index i (x # xs) m =
     (if x = 0 then Inr (False, m)
      else bindF (set_id x (index - (of_nat i + 1) * NDIRECT) m) (\<lambda>(success, x', m1).
        if success
        then if i = 0 \<and> x' = 0
          then if unat (isize ino - 1) > NDIRECT then Inl Out_of_bounds
            else bindF (bm_free (iblocks ino ! unat (isize ino - 1)) m1) (\<lambda>m2.
              bindF (put_inode parent_inum
                       (ino\<lparr>iblocks := (iblocks ino)[unat (isize ino - 1) := 0], isize := NDIRECT\<rparr>) m2) (\<lambda>m3.
              Inr (True, m3)))
          else Inr (True, m1)
        else set_subs set_id parent_inum ino index (Suc i) xs m1))"

fun set_ino_block_id :: "nat \<Rightarrow> u32 \<Rightarrow> u32 \<Rightarrow> u32 \<Rightarrow> bool \<Rightarrow> inode_manager
    \<Rightarrow> fault + bool \<times> u32 \<times> inode_manager" where
  "set_ino_block_id 0 parent_inum index block_id auto_free m = Inl Diverges"
| "set_ino_block_id (Suc f) parent_inum index block_id auto_free m = bindF (get_inode parent_inum m) (\<lambda>r. case r of
       None \<Rightarrow> Inr (False, parent_inum, m)
     | Some ino \<Rightarrow>
         if itype ino \<noteq> T_DIR then Inr (False, parent_inum, m)
         else if index < min (isize ino) NDIRECT
         then let ino1 = ino\<lparr>iblocks := (iblocks ino)[unat index := block_id]\<rparr>;
                  ino2 = (if block_id = 0 then ino1\<lparr>isize := isize ino1 - 1\<rparr> else ino1)
              in if isize ino2 = 0 \<and> auto_free
                 then bindF (free_inode parent_inum m) (\<lambda>m1. Inr (True, 0, m1))
                 else bindF (put_inode parent_inum ino2 m) (\<lambda>m1. Inr (True, parent_inum, m1))
         else if isize ino > NDIRECT \<and> index > NDIRECT
         then bindF (bm_read (iblocks ino ! NDIRECT) m) (\<lambda>inum_buf.
           bindF (set_subs (\<lambda>sub ix. set_ino_block_id f sub ix block_id True) parent_inum ino index 0
                    (u32s_of_block inum_buf) m) (\<lambda>(success, m1).
           Inr (success, parent_inum, m1)))
         else Inr (False, parent_inum, m))"

definition remove_from_dir :: "nat \<Rightarrow> u32 \<Rightarrow> u32 \<Rightarrow> inode_manager \<Rightarrow> fault + inode_manager" where
  "remove_from_dir f parent_inum inum m =
     bindF (free_and_find_last f parent_inum inum m) (\<lambda>(index, last_block_id, last_block_index, m1).
     bindF (set_ino_block_id f parent_inum index last_block_id False m1) (\<lambda>(_, parent1, m2).
     bindF (set_ino_block_id f parent1 last_block_index 0 False m2) (\<lambda>(_, parent2, m3).
     bindF (get_inode parent2 m3) (\<lambda>r. case r of
         None \<Rightarrow> Inr m3
       | Some ino \<Rightarrow>
           let (now1, m4) = time_now m3; (now2, m5) = time_now m4 in
           put_inode parent2 (ino\<lparr>mtime := now1, ctime := now2\<rparr>) m5))))"

declare read_dir.simps(2) [simp del] add_to_dir.simps(2) [simp del] read_blockid.simps(2) [simp del]
  set_ino_block_id.simps(2) [simp del]

end
