(* ===== verification/Dir_Content.thy ===== *)
theory Dir_Content imports Dir_Layer File_Progress "HOL-Library.Multiset" begin

text \<open>
  What a directory of at most 100 entries holds (\<open>dir_at\<close>), and what adding and removing an entry do to
  it: refinements of appending to the list of entries, and of moving the last entry over a removed one.
\<close>


subsection \<open>What a small directory holds\<close>

abbreviation dir_blocks :: "inode_manager \<Rightarrow> u32 \<Rightarrow> u32 list" where
  "dir_blocks m i \<equiv> take (unat (isize (inode_at m i))) (iblocks (inode_at m i))"

definition dir_at :: "inode_manager \<Rightarrow> u32 \<Rightarrow> dir_entries \<Rightarrow> bool" where
  "dir_at m i es \<longleftrightarrow> inum_ok i \<and> itype (inode_at m i) = 1 \<and> isize (inode_at m i) \<le> 100
     \<and> distinct (dir_blocks m i) \<and> (\<forall>b \<in> set (dir_blocks m i). data_block b \<and> in_use m b)
     \<and> es = map (\<lambda>b. dir_entry (data m b)) (dir_blocks m i)"

lemma dir_at_length: "dir_at m i es \<Longrightarrow> length es = unat (isize (inode_at m i)) \<and> length es \<le> 100"
  by (auto simp: dir_at_def word_le_nat_alt)

lemma dir_at_unique: "dir_at m i es \<Longrightarrow> dir_at m i es' \<Longrightarrow> es = es'"
  by (simp add: dir_at_def)

lemma read_entries:
  "ok m \<Longrightarrow> \<forall>b \<in> set bs. data_block b \<Longrightarrow>
   mapF (\<lambda>b. bindF (bm_read b m) (\<lambda>buf. Inr (dir_entry buf))) bs = Inr (map (\<lambda>b. dir_entry (data m b)) bs)"
  by (rule mapF_map) (simp add: bm_read_ok data_block_lt)

lemma read_dir_at: "dir_at m i es \<Longrightarrow> ok m \<Longrightarrow> read_dir (Suc f) i m = Inr es"
proof -
  assume d: "dir_at m i es" and "ok m"
  moreover have "min (unat (isize (inode_at m i))) 100 = unat (isize (inode_at m i))" "\<not> 100 < isize (inode_at m i)"
    using d by (auto simp: dir_at_def word_le_nat_alt not_less)
  ultimately show ?thesis by (simp add: read_dir.simps(2) dir_at_def get_inode_ok read_entries)
qed

text \<open>A directory depends on its inode and its blocks only.\<close>

lemma dir_at_ext: "dir_at m i es \<Longrightarrow> vol.ext X m m' \<Longrightarrow> i \<notin> X \<Longrightarrow> dir_at m' i es"
proof -
  assume d: "dir_at m i es" and e: "vol.ext X m m'" and "i \<notin> X"
  then have "inode_at m' i = inode_at m i" using vol.ext_inode[OF e] by (simp add: dir_at_def)
  then show ?thesis using d vol.ext_block[OF e] by (auto simp: dir_at_def)
qed

subsection \<open>Adding an entry\<close>

lemma takeWhile_zeros: "0 \<notin> set xs \<Longrightarrow> takeWhile (\<lambda>c. c \<noteq> 0) (xs @ replicate n 0) = xs"
  by (induction xs) (cases n; auto)+

lemma dir_block_eq:
  "dir_block inum name = (if length name \<le> 508 then Inr (bytes_of_u32 inum @ name @ replicate (508 - length name) 0) else Inl Out_of_bounds)"
proof -
  have "copy_to 0 (bytes_of_u32 inum) (replicate 512 0) = Inr (bytes_of_u32 inum @ replicate 508 0)"
    by (simp add: copy_to_def c32.width_enc)
  moreover have "copy_to 4 name (bytes_of_u32 inum @ replicate 508 0)
      = (if length name \<le> 508 then Inr (bytes_of_u32 inum @ name @ replicate (508 - length name) 0) else Inl Out_of_bounds)"
    by (auto simp: copy_to_def c32.width_enc)
  ultimately show ?thesis by (simp add: dir_block_def)
qed

lemma dir_block_ok:
  assumes "length name \<le> 508" "0 \<notin> set name"
  obtains buf where "dir_block inum name = Inr buf" "length buf = 512" "dir_entry buf = (ucast inum, name)"
    "buf = bytes_of_u32 inum @ name @ replicate (508 - length name) 0"
proof -
  let ?buf = "bytes_of_u32 inum @ name @ replicate (508 - length name) 0"
  have "take 4 ?buf = bytes_of_u32 inum" "drop 4 ?buf = name @ replicate (508 - length name) 0"
    by (simp_all add: c32.width_enc)
  then have "dir_entry ?buf = (ucast inum, name)"
    using assms(2) by (auto simp: dir_entry_def c32.dec_enc takeWhile_zeros simp del: take_append drop_append)
  then show thesis using assms by (intro that[of ?buf]) (simp_all add: dir_block_eq c32.width_enc)
qed

lemma add_small_does:
  assumes d: "dir_at m i es" and ok: "ok m" and len: "length es < 100"
    and name: "length name \<le> 508" "0 \<notin> set name" and free: "free_blocks m \<noteq> {}"
  obtains m' where "add_to_dir (Suc f) i inum name m = Inr m'" "dir_at m' i (es @ [(ucast inum, name)])"
    "vol.ext {i} m m'" "card (free_blocks m) = Suc (card (free_blocks m'))"
    "\<forall>j. inum_ok j \<and> j \<noteq> i \<longrightarrow> inode_at m' j = inode_at m j"
    "iblocks (inode_at m' i) ! 100 = iblocks (inode_at m i) ! 100"
    "\<exists>b. data_block b \<and> \<not> in_use m b \<and> iblocks (inode_at m' i) = (iblocks (inode_at m i))[length es := b]
       \<and> data m' b = bytes_of_u32 inum @ name @ replicate (508 - length name) 0"
proof -
  let ?ino = "inode_at m i" and ?n = "unat (isize (inode_at m i))"
  have i: "inum_ok i" "itype ?ino = 1" and n: "?n = length es" "?n < 100" using d len by (auto simp: dir_at_def word_le_nat_alt)
  obtain b m1 where al: "bm_alloc m = Inr (b, m1)" "b \<noteq> 0" using vol.alloc_succeeds[OF ok free] by blast
  note got = vol.alloc_got[OF ok al]
  obtain buf where buf: "dir_block inum name = Inr buf" "length buf = 512" "dir_entry buf = (ucast inum, name)"
    "buf = bytes_of_u32 inum @ name @ replicate (508 - length name) 0"
    using name by (rule dir_block_ok)
  obtain m2 where put: "bm_write b buf m1 = Inr m2" using vol.put_returns[of m1 b buf] got buf(2) by auto
  note filled = vol.fill_fresh[OF ok al put] and ext2 = vol.ext_fill[OF ok al put, of "{}"]
  have same2: "\<forall>j. inum_ok j \<longrightarrow> inode_at m2 j = inode_at m j"
    using vol.alloc_frame[OF ok al(1)] vol.put_frame[of m1 b buf m2] got put by simp
  let ?m3 = "snd (time_now (snd (time_now m2)))"
  let ?x = "?ino\<lparr>iblocks := (iblocks ?ino)[?n := b], isize := isize ?ino + 1,
    mtime := fst (time_now m2), ctime := fst (time_now (snd (time_now m2)))\<rparr>"
  have x: "ok ?m3" "length (iblocks ?x) = 101" using filled(1) by simp_all
  obtain m' where m': "put_inode i ?x ?m3 = Inr m'" using vol.save_returns[OF x(1) i(1) x(2)] ..
  note saved = vol.save_does[OF x(1) i(1) x(2) m']
  have small: "isize ?ino < 100" "isize ?ino < 101" using n(2) by (simp_all add: word_less_nat_alt)
  have run: "add_to_dir (Suc f) i inum name m = Inr m'"
    using ok i al buf(1) put m' small by (simp add: add_to_dir.simps(2) get_inode_ok Let_def case_prod_beta)
  have e23: "vol.ext {i} m2 m'" using saved filled(1) by (auto simp: vol.ext_def vol.keeps_def)
  have e: "vol.ext {i} m m'" using vol.ext_mono[OF ext2] e23 vol.ext_trans by blast
  have size: "unat (isize ?ino + 1) = Suc ?n" using n(2) by (simp add: unat_word_ariths)
  have ib: "inode_at m' i = ?x" using saved i(1) by simp
  have blocks: "dir_blocks m' i = dir_blocks m i @ [b]"
    unfolding ib using n(2) by (simp add: size take_Suc_conv_app_nth take_update_cancel)
  have new: "data m' b = buf" "in_use m' b" "data_block b" "\<not> in_use m b"
    using saved filled buf(2) by simp_all
  have old: "data m' c = data m c \<and> in_use m' c" if "c \<in> set (dir_blocks m i)" for c
    using vol.ext_block[OF e] d that by (auto simp: dir_at_def)
  have "map (\<lambda>b. dir_entry (data m' b)) (dir_blocks m' i) = es @ [(ucast inum, name)]"
    using d old new(1) buf(3) unfolding blocks by (simp add: dir_at_def)
  moreover have "distinct (dir_blocks m' i)" using d new(4) unfolding blocks by (auto simp: dir_at_def)
  moreover have "\<forall>c \<in> set (dir_blocks m' i). data_block c \<and> in_use m' c"
    using d old new unfolding blocks by (auto simp: dir_at_def)
  moreover have "isize (inode_at m' i) \<le> 100" using n(2) size unfolding ib by (simp add: word_le_nat_alt)
  ultimately have dir: "dir_at m' i (es @ [(ucast inum, name)])" using i ib by (simp add: dir_at_def)
  have "free_blocks m' = free_blocks m1"
    using vol.free_set_save[OF x(1) i(1) x(2) m'] vol.free_set_put[of m1 b buf m2] got put by (simp add: vol.free_set_def)
  then have "card (free_blocks m) = Suc (card (free_blocks m'))" using vol.card_alloc[OF ok al] by simp
  moreover have "\<exists>b. data_block b \<and> \<not> in_use m b \<and> iblocks (inode_at m' i) = (iblocks (inode_at m i))[length es := b]
      \<and> data m' b = bytes_of_u32 inum @ name @ replicate (508 - length name) 0"
    using n(1) new(1,3,4) ib buf(4) by (intro exI[of _ b]) simp
  ultimately show thesis using that[OF run dir e] saved same2 n by auto
qed


subsection \<open>Removing an entry\<close>

text \<open>What removal does to the list of entries: the last one takes the place of the one at \<open>k\<close>.\<close>

definition swap_out :: "nat \<Rightarrow> 'a list \<Rightarrow> 'a list" where
  "swap_out k xs = butlast (xs[k := last xs])"

lemma swap_out_snoc: "swap_out k (xs @ [x]) = xs[k := x]"
  by (auto simp: swap_out_def list_update_append list_update_beyond split: nat.split)

lemma map_swap_out: "map f (swap_out k xs) = swap_out k (map f xs)"
  by (cases xs rule: rev_cases) (simp_all add: swap_out_snoc map_update, simp add: swap_out_def)

lemma mset_swap_out: "k < length xs \<Longrightarrow> mset (swap_out k xs) = mset xs - {# xs ! k #}"
proof (cases xs rule: rev_cases)
  case (snoc ys y)
  assume "k < length xs"
  show ?thesis
  proof (cases "k < length ys")
    case True
    then have "ys ! k \<in># mset ys" by simp
    then show ?thesis using True by (simp add: snoc swap_out_snoc mset_update nth_append)
  next
    case False
    then show ?thesis using \<open>k < length xs\<close> by (simp add: snoc swap_out_snoc nth_append list_update_beyond)
  qed
qed simp

lemma distinct_swap_out: "distinct xs \<Longrightarrow> distinct (swap_out k xs)"
  by (cases xs rule: rev_cases) (auto simp: swap_out_snoc distinct_list_update dest: in_set_takeD in_set_dropD, simp add: swap_out_def)

lemma set_swap_out: "set (swap_out k xs) \<subseteq> set xs"
  by (cases xs rule: rev_cases) (auto simp: swap_out_snoc dest: set_update_subset_insert[THEN subsetD], simp add: swap_out_def)

lemma swap_out_removes: "distinct xs \<Longrightarrow> k < length xs \<Longrightarrow> xs ! k \<notin> set (swap_out k xs)"
proof -
  assume "distinct xs" "k < length xs"
  then have "xs ! k \<notin># mset (swap_out k xs)"
    by (simp add: mset_swap_out distinct_count_atmost_1 flip: count_greater_zero_iff)
  then show ?thesis by simp
qed

definition entry_index :: "u32 \<Rightarrow> dir_entries \<Rightarrow> nat" where
  "entry_index inum es = length (takeWhile (\<lambda>e. fst e \<noteq> ucast inum) es)"

lemma ucast_inum_inject [simp]: "(ucast (a :: u32) :: u64) = ucast b \<longleftrightarrow> a = b"
  by (metis unat_size word_unat_eq_iff)

lemma entry_index_simps [simp]:
  "entry_index inum [] = 0"
  "entry_index inum (e # es) = (if fst e = ucast inum then 0 else Suc (entry_index inum es))"
  by (simp_all add: entry_index_def)

lemma fst_dir_entry [simp]: "fst (dir_entry buf) = ucast inum \<longleftrightarrow> u32_of_bytes (take 4 buf) = inum"
  by (simp add: dir_entry_def)

lemma find_entry_does:
  assumes "ok m" "\<forall>b \<in> set bs. data_block b"
  shows "find_entry inum ix bs m
    = (let k = entry_index inum (map (\<lambda>b. dir_entry (data m b)) bs)
       in if k < length bs then bindF (bm_free (bs ! k) m) (\<lambda>m1. Inr (ix + of_nat k, m1)) else Inr (ix + of_nat k, m))"
  using assms(2)
proof (induction bs arbitrary: ix)
  case Nil
  then show ?case by simp
next
  case (Cons b bs)
  have "bm_read b m = Inr (data m b)" using assms(1) Cons.prems by (simp add: bm_read_ok data_block_lt)
  then show ?case
    using Cons.IH[of "ix + 1"] Cons.prems by (simp add: Let_def add.assoc)
qed

lemma set_id_small:
  assumes "ok m" "inum_ok i" "itype (inode_at m i) = 1" "isize (inode_at m i) \<le> 100"
  shows "set_ino_block_id (Suc f) i index b False m
    = (if index < isize (inode_at m i)
       then bindF (put_inode i ((inode_at m i)\<lparr>iblocks := (iblocks (inode_at m i))[unat index := b],
              isize := (if b = 0 then isize (inode_at m i) - 1 else isize (inode_at m i))\<rparr>) m) (\<lambda>m1. Inr (True, i, m1))
       else Inr (False, i, m))"
proof -
  have "min (isize (inode_at m i)) 100 = isize (inode_at m i)" "\<not> 100 < isize (inode_at m i)"
    using assms(4) by (auto simp: min_def)
  then show ?thesis using assms by (simp add: set_ino_block_id.simps(2) get_inode_ok Let_def)
qed

text \<open>\<open>freed m m' F\<close>: \<open>m'\<close> is \<open>m\<close> with the blocks of \<open>F\<close> given back.\<close>

definition freed :: "inode_manager \<Rightarrow> inode_manager \<Rightarrow> u32 set \<Rightarrow> bool" where
  "freed m m' F \<longleftrightarrow> ok m' \<and> (\<forall>j. inum_ok j \<longrightarrow> inode_at m' j = inode_at m j)
     \<and> (\<forall>b. data_block b \<longrightarrow> in_use m' b = (b \<notin> F \<and> in_use m b) \<and> (b \<notin> F \<longrightarrow> data m' b = data m b))
     \<and> data m' 0 = data m 0"

lemma find_entry_frees:
  fixes inum :: u32
  assumes "ok m" "\<forall>b \<in> set bs. data_block b \<and> in_use m b"
  defines "k \<equiv> entry_index inum (map (\<lambda>b. dir_entry (data m b)) bs)"
  obtains m1 where "find_entry inum 0 bs m = Inr (of_nat k, m1)" "freed m m1 (if k < length bs then {bs ! k} else {})"
proof (cases "k < length bs")
  case True
  then have b: "data_block (bs ! k)" "in_use m (bs ! k)" using assms(2) by simp_all
  obtain m1 where m1: "bm_free (bs ! k) m = Inr m1" using vol.release_returns[OF assms(1) b(1)] ..
  have "freed m m1 {bs ! k}"
    using vol.release_does[OF assms(1) b m1] vol.release_frame[OF assms(1) b(1) m1] by (auto simp: freed_def)
  then show thesis
    using that[of m1] True m1 assms(1,2) find_entry_does[of m bs inum 0] by (simp add: k_def[symmetric] Let_def)
next
  case False
  then show thesis
    using that[of m] assms(1,2) find_entry_does[of m bs inum 0] by (simp add: k_def[symmetric] Let_def freed_def)
qed

lemma swap_out_take:
  assumes "n = length (take n xs)" "0 < n" "ys = (if k < n then xs[k := last (take n xs)] else xs)"
  shows "take (n - 1) (ys[n - 1 := z]) = swap_out k (take n xs)"
proof -
  have "take n ys = (take n xs)[k := last (take n xs)]" using assms(3) by (simp add: take_update_swap list_update_beyond)
  then have "butlast (take n ys) = swap_out k (take n xs)" by (simp add: swap_out_def)
  moreover have "n \<le> length ys" using assms(1,3) by simp
  ultimately show ?thesis by (simp add: butlast_take)
qed

lemma count_pred: "0 < n \<Longrightarrow> n \<le> 100 \<Longrightarrow> unat (of_nat n - 1 :: u32) = n - 1"
  by (cases n) (simp_all add: unat_of_nat)

text \<open>The inode that is left when the last of \<open>n\<close> pointers has moved to place \<open>k\<close>.\<close>

definition moved_last :: "nat \<Rightarrow> nat \<Rightarrow> u32 \<Rightarrow> inode \<Rightarrow> inode" where
  "moved_last k n b x = x\<lparr>iblocks := (if k < n then (iblocks x)[k := b] else iblocks x)[n - 1 := 0], isize := isize x - 1\<rparr>"

lemma move_last_does:
  assumes "ok m1" "inum_ok i" "itype (inode_at m1 i) = 1" "isize (inode_at m1 i) = of_nat n" "0 < n" "n \<le> 100" "k \<le> n" "b \<noteq> 0"
  obtains s m2 m3 where "set_ino_block_id (Suc f) i (of_nat k) b False m1 = Inr (s, i, m2)"
    "set_ino_block_id (Suc f) i (of_nat n - 1) 0 False m2 = Inr (True, i, m3)"
    "only_inode m1 m3 i (moved_last k n b (inode_at m1 i))"
proof -
  let ?ino = "inode_at m1 i"
  let ?x1 = "?ino\<lparr>iblocks := (if k < n then (iblocks ?ino)[k := b] else iblocks ?ino)\<rparr>"
  have i3: "isize ?ino \<le> 100" using assms(4,6) by (simp add: word_le_nat_alt unat_of_nat)
  have k: "of_nat k < isize ?ino \<longleftrightarrow> k < n" "unat (of_nat k :: u32) = k"
    using assms(4,6,7) by (simp_all add: word_less_nat_alt unat_of_nat)
  obtain s m2 where m2: "set_ino_block_id (Suc f) i (of_nat k) b False m1 = Inr (s, i, m2)" "only_inode m1 m2 i ?x1"
  proof (cases "k < n")
    case True
    obtain m2 where "put_inode i ?x1 m1 = Inr m2" "only_inode m1 m2 i ?x1"
      by (rule put_only_inode[OF assms(1,2), of ?x1]) simp_all
    then show thesis
      using that[of True m2] True k assms(8) set_id_small[OF assms(1,2), of f "of_nat k" b] assms(3) i3 by simp
  next
    case False
    then show thesis
      using that[of False m1] k set_id_small[OF assms(1,2), of f "of_nat k" b] assms(1,3) i3 by (simp add: only_inode_def)
  qed
  let ?x2 = "moved_last k n b ?ino"
  have x2: "?x2 = ?x1\<lparr>iblocks := (iblocks ?x1)[n - 1 := 0], isize := isize ?ino - 1\<rparr>" by (simp add: moved_last_def)
  have ok2: "ok m2" and ino2: "inode_at m2 i = ?x1" using m2(2) by (simp_all add: only_inode_def)
  have ix: "unat (of_nat n - 1 :: u32) = n - 1" "(of_nat n - 1 :: u32) < of_nat n"
    using assms(5,6) count_pred[of n] by (simp_all add: unat_of_nat word_less_nat_alt)
  have "length (iblocks ?x2) = 101" by (simp add: moved_last_def)
  from put_only_inode[OF ok2 assms(2) this] obtain m3 where m3: "put_inode i ?x2 m2 = Inr m3" "only_inode m2 m3 i ?x2" .
  then have "set_ino_block_id (Suc f) i (of_nat n - 1) 0 False m2 = Inr (True, i, m3)"
    using set_id_small[OF ok2 assms(2), of f "of_nat n - 1" 0] assms(3,4) i3 ino2 ix unfolding x2 by simp
  then show thesis using that m2(1) only_inode_trans[OF m2(2) m3(2)] by blast
qed

text \<open>What \<open>remove_from_dir\<close> has done to the inode in the end, but for its time stamps.\<close>

lemma remove_small_runs:
  fixes inum :: u32
  assumes d: "dir_at m i es" and ok: "ok m" and ne: "es \<noteq> []"
  defines "k \<equiv> entry_index inum es" and "F \<equiv> (if entry_index inum es < length es then {dir_blocks m i ! entry_index inum es} else {})"
  obtains m1 m' t u where "remove_from_dir (Suc f) i inum m = Inr m'" "freed m m1 F"
    "only_inode m1 m' i ((moved_last k (length es) (last (dir_blocks m i)) (inode_at m i))\<lparr>mtime := t, ctime := u\<rparr>)"
proof -
  let ?ino = "inode_at m i" and ?bs = "dir_blocks m i" and ?n = "length es"
  have i: "inum_ok i" "itype ?ino = 1" "isize ?ino \<le> 100" and bs: "\<forall>b \<in> set ?bs. data_block b \<and> in_use m b"
    and es: "es = map (\<lambda>b. dir_entry (data m b)) ?bs" using d by (auto simp: dir_at_def)
  have n: "unat (isize ?ino) = ?n" "?n \<le> 100" "0 < ?n" using dir_at_length[OF d] ne by (auto simp flip: length_greater_0_conv)
  have len: "length ?bs = ?n" using n by simp
  have bs_ne: "?bs \<noteq> []" using len n(3) by (metis less_numeral_extra(3) list.size(3))
  have "min (unat (isize ?ino)) 100 = unat (isize ?ino)" "\<not> 100 < isize ?ino" using i(3) n by (simp_all add: not_less)
  then have ids: "read_blockid (Suc f) i m = Inr ?bs" using ok i(1) by (simp add: read_blockid.simps(2) get_inode_ok)
  obtain m1 where m1: "find_entry inum 0 ?bs m = Inr (of_nat k, m1)" "freed m m1 F"
    using find_entry_frees[OF ok bs, of inum] unfolding es[symmetric] len k_def F_def .
  have last_nz: "last ?bs \<noteq> 0" using bs vol.zero_invalid last_in_set[OF bs_ne] by metis
  have "get_inode i m = Inr (Some ?ino)" using ok i(1) by (simp add: get_inode_ok)
  then have one: "free_and_find_last (Suc f) i inum m = Inr (of_nat k, last ?bs, of_nat ?n - 1, m1)"
    unfolding free_and_find_last_def using bs_ne i(2) ids m1(1) len by (simp del: take_eq_Nil)
  have ok1: "ok m1" and ino1: "inode_at m1 i = ?ino" using m1(2) i(1) by (simp_all add: freed_def)
  have size: "isize (inode_at m1 i) = of_nat ?n" and type: "itype (inode_at m1 i) = 1" unfolding ino1 using n(1) i(2) by (simp_all flip: n(1))
  have "k \<le> ?n" unfolding k_def entry_index_def by (rule length_takeWhile_le)
  from move_last_does[OF ok1 i(1) type size n(3,2) this last_nz, of f] obtain s m2 m3 where
    m2: "set_ino_block_id (Suc f) i (of_nat k) (last ?bs) False m1 = Inr (s, i, m2)"
    and m3: "set_ino_block_id (Suc f) i (of_nat ?n - 1) 0 False m2 = Inr (True, i, m3)"
      "only_inode m1 m3 i (moved_last k ?n (last ?bs) ?ino)" unfolding ino1 .
  let ?m5 = "snd (time_now (snd (time_now m3)))" and ?t = "fst (time_now m3)" and ?u = "fst (time_now (snd (time_now m3)))"
  let ?x3 = "(inode_at m3 i)\<lparr>mtime := ?t, ctime := ?u\<rparr>"
  have ok3: "ok m3" "ok ?m5" using m3(2) by (simp_all add: only_inode_def)
  have "length (iblocks ?x3) = 101" by simp
  from put_only_inode[OF ok3(2) i(1) this] obtain m' where m': "put_inode i ?x3 ?m5 = Inr m'" "only_inode ?m5 m' i ?x3" .
  have run: "remove_from_dir (Suc f) i inum m = Inr m'"
    unfolding remove_from_dir_def using one m2 m3(1) m'(1) ok3(1) i(1)
    by (simp add: get_inode_ok Let_def case_prod_beta)
  have x3: "?x3 = (moved_last k ?n (last ?bs) ?ino)\<lparr>mtime := ?t, ctime := ?u\<rparr>" using m3(2) by (simp add: only_inode_def)
  have "only_inode m3 m' i ?x3" using m'(2) by (simp add: only_inode_def)
  then have "only_inode m1 m' i ((moved_last k ?n (last ?bs) ?ino)\<lparr>mtime := ?t, ctime := ?u\<rparr>)"
    using only_inode_trans[OF m3(2)] unfolding x3 by blast
  then show thesis using that[OF run m1(2)] by blast
qed

lemma remove_small_does:
  fixes inum :: u32
  assumes d: "dir_at m i es" and ok: "ok m" and ne: "es \<noteq> []"
  defines "k \<equiv> entry_index inum es" and "F \<equiv> (if entry_index inum es < length es then {dir_blocks m i ! entry_index inum es} else {})"
  obtains m' where "remove_from_dir (Suc f) i inum m = Inr m'" "ok m'" "data m' 0 = data m 0" "dir_at m' i (swap_out k es)"
    "\<forall>j. inum_ok j \<and> j \<noteq> i \<longrightarrow> inode_at m' j = inode_at m j"
    "\<forall>b. data_block b \<longrightarrow> in_use m' b = (b \<notin> F \<and> in_use m b) \<and> (b \<notin> F \<longrightarrow> data m' b = data m b)"
    "iblocks (inode_at m' i) = (if k < length es then (iblocks (inode_at m i))[k := last (dir_blocks m i)]
       else iblocks (inode_at m i))[length es - 1 := 0]"
proof -
  let ?ino = "inode_at m i" and ?bs = "dir_blocks m i" and ?n = "length es"
  have i: "inum_ok i" "itype ?ino = 1" and bs: "\<forall>b \<in> set ?bs. data_block b \<and> in_use m b" "distinct ?bs"
    and es: "es = map (\<lambda>b. dir_entry (data m b)) ?bs" using d by (auto simp: dir_at_def)
  have n: "unat (isize ?ino) = ?n" "?n \<le> 100" "0 < ?n" using dir_at_length[OF d] ne by (auto simp flip: length_greater_0_conv)
  obtain m1 m' t u where run: "remove_from_dir (Suc f) i inum m = Inr m'" and m1: "freed m m1 F"
    and all: "only_inode m1 m' i ((moved_last k ?n (last ?bs) ?ino)\<lparr>mtime := t, ctime := u\<rparr>)"
    by (rule remove_small_runs[OF d ok ne, of f inum, folded k_def F_def])
  have final: "isize (inode_at m' i) = isize ?ino - 1" "itype (inode_at m' i) = 1"
    "iblocks (inode_at m' i) = (if k < ?n then (iblocks ?ino)[k := last ?bs] else iblocks ?ino)[?n - 1 := 0]"
    using all i(2) by (simp_all add: only_inode_def moved_last_def)
  have size: "unat (isize ?ino - 1) = ?n - 1" using n count_pred[of ?n] by (simp flip: n(1))
  have len: "length ?bs = ?n" using n by simp
  have blocks: "dir_blocks m' i = swap_out k ?bs"
    unfolding final size n(1) by (rule swap_out_take) (use n len in \<open>simp_all del: length_take\<close>)
  have frame: "in_use m' b = (b \<notin> F \<and> in_use m b) \<and> (b \<notin> F \<longrightarrow> data m' b = data m b)" if "data_block b" for b
    using that all m1 by (simp add: only_inode_def freed_def)
  have kept: "b \<in> set ?bs \<and> b \<notin> F" if "b \<in> set (swap_out k ?bs)" for b
    using that set_swap_out[of k ?bs] swap_out_removes[OF bs(2), of k] n(1,2) by (auto simp: F_def k_def)
  have "swap_out k es = map (\<lambda>b. dir_entry (data m' b)) (swap_out k ?bs)"
    unfolding es map_swap_out[symmetric] using kept frame bs(1) by (intro map_cong) auto
  moreover have "\<forall>b \<in> set (swap_out k ?bs). data_block b \<and> in_use m' b" using kept frame bs(1) by blast
  moreover have "isize (inode_at m' i) \<le> 100" using size n(2) unfolding final by (simp add: word_le_nat_alt)
  ultimately have "dir_at m' i (swap_out k es)"
    unfolding dir_at_def blocks using i(1) final(2) distinct_swap_out[OF bs(2)] by simp
  moreover have "ok m'" "data m' 0 = data m 0" "\<forall>j. inum_ok j \<and> j \<noteq> i \<longrightarrow> inode_at m' j = inode_at m j"
    using all m1 by (simp_all add: only_inode_def freed_def)
  ultimately show thesis using that run frame final(3) by blast
qed

end
