(* ===== verification/Dir_Properties.thy ===== *)
theory Dir_Properties imports Dir_Content begin

text \<open>
  The properties of directories: what listing returns after adding and removing entries, and what
  happens past 508 bytes of a name and past 100 entries.
\<close>



subsection \<open>Filling a directory\<close>

lemma fill_dir:
  assumes "dir_at m i es" "ok m" "length es + k \<le> 100" "k \<le> card (free_blocks m)"
  shows "\<exists>m' es'. dir_at m' i es' \<and> length es' = length es + k \<and> vol.ext {i} m m'
    \<and> card (free_blocks m) = card (free_blocks m') + k
    \<and> (\<forall>j. inum_ok j \<and> j \<noteq> i \<longrightarrow> inode_at m' j = inode_at m j)
    \<and> iblocks (inode_at m' i) ! 100 = iblocks (inode_at m i) ! 100"
  using assms
proof (induction k arbitrary: m es)
  case 0
  then show ?case using vol.ext_refl by auto
next
  case (Suc k)
  have c: "length es < 100" "length ([] :: bytes) \<le> 508" "0 \<notin> set ([] :: bytes)" "free_blocks m \<noteq> {}"
    using Suc.prems(3,4) by auto
  obtain m1 where m1: "dir_at m1 i (es @ [(ucast (1::u32), [])])" "vol.ext {i} m m1"
    "card (free_blocks m) = Suc (card (free_blocks m1))" "\<forall>j. inum_ok j \<and> j \<noteq> i \<longrightarrow> inode_at m1 j = inode_at m j"
    "iblocks (inode_at m1 i) ! 100 = iblocks (inode_at m i) ! 100"
    by (rule add_small_does[OF Suc.prems(1,2) c, of 0 1]) (rule that)
  have "length (es @ [(ucast (1::u32), [])]) + k \<le> 100" "k \<le> card (free_blocks m1)" using Suc.prems(3,4) m1(3) by simp_all
  from Suc.IH[OF m1(1) vol.ext_ok[OF m1(2)] this] obtain m' es' where
    "dir_at m' i es'" "length es' = length es + Suc k" "vol.ext {i} m1 m'" "card (free_blocks m1) = card (free_blocks m') + k"
    "\<forall>j. inum_ok j \<and> j \<noteq> i \<longrightarrow> inode_at m' j = inode_at m1 j"
    "iblocks (inode_at m' i) ! 100 = iblocks (inode_at m1 i) ! 100" by auto
  then show ?case using m1 vol.ext_trans[OF m1(2), of m'] by (intro exI[of _ m'] exI[of _ es']) simp
qed

text \<open>The root directory of a new disk, and a second directory beside it.\<close>

lemma example_dir:
  obtains m where "inode_manager_init (\<lambda>n. 0) = Inr (Some m)" "ok m" "dir_at m 1 []"
    "free_blocks m = {b. data_block b}" "\<forall>j. inum_ok j \<and> j \<noteq> 1 \<longrightarrow> itype (inode_at m j) = 0"
    "data m 0 = replicate 512 0" "iblocks (inode_at m 1) ! 100 = 0"
proof -
  obtain m where m: "inode_manager_init (\<lambda>n. 0) = Inr (Some m)" "ok m" "inode_at m 1 = new_inode 1 0"
    "\<forall>j. inum_ok j \<and> j \<noteq> 1 \<longrightarrow> itype (inode_at m j) = 0" "free_blocks m = {b. data_block b}" "data m 0 = replicate 512 0"
    by (rule init_does[of "\<lambda>n. 0"]) auto
  have "dir_at m 1 []" using m(3) by (simp add: dir_at_def inum_ok_def)
  then show thesis using that m by (simp add: new_inode_def)
qed

lemma example_full_dir:
  obtains m es where "ok m" "dir_at m 1 es" "length es = 99" "free_blocks m \<noteq> {}"
proof -
  obtain m where m: "ok m" "dir_at m 1 []" "free_blocks m = {b. data_block b}"
    by (rule example_dir) (rule that)
  have "length ([] :: dir_entries) + 99 \<le> 100" "99 \<le> card (free_blocks m)" using m(3) card_data_blocks by simp_all
  from fill_dir[OF m(2,1) this] obtain m' es' where m': "dir_at m' 1 es'" "length es' = 99" "vol.ext {1} m m'"
    "card (free_blocks m) = card (free_blocks m') + 99" by auto
  have "free_blocks m' \<noteq> {}" using m'(4) m(3) card_data_blocks by auto
  then show thesis using that m' vol.ext_ok by blast
qed

subsection \<open>Adding\<close>

text \<open>
  C27: Adding an entry to a directory of less than 100 appends it: listing the directory gives the old
  entries in their order and then the new one, and no other inode changes.
\<close>

theorem add_appends:
  assumes "ok m" "dir_at m i es" "length es < 100" "length name \<le> 508" "0 \<notin> set name" "free_blocks m \<noteq> {}"
  shows "\<exists>m'. add_to_dir max_depth i inum name m = Inr m' \<and> read_dir max_depth i m' = Inr (es @ [(ucast inum, name)])
    \<and> (\<forall>j. inum_ok j \<and> j \<noteq> i \<longrightarrow> inode_at m' j = inode_at m j)"
proof -
  obtain m' where m': "add_to_dir (Suc 1024) i inum name m = Inr m'" "dir_at m' i (es @ [(ucast inum, name)])"
    "vol.ext {i} m m'" "card (free_blocks m) = Suc (card (free_blocks m'))"
    "\<forall>j. inum_ok j \<and> j \<noteq> i \<longrightarrow> inode_at m' j = inode_at m j"
    "iblocks (inode_at m' i) ! 100 = iblocks (inode_at m i) ! 100"
    by (rule add_small_does[OF assms(2,1,3-6)]) (rule that)
  then show ?thesis using read_dir_at[OF m'(2) vol.ext_ok[OF m'(3)], of 1024] by simp
qed

theorem add_appends_witness:
  "\<exists>m m'. inode_manager_init (\<lambda>n. 0) = Inr (Some m) \<and> add_to_dir max_depth 1 7 [97, 98] m = Inr m'
     \<and> read_dir max_depth 1 m' = Inr [(7, [97, 98])]"
proof -
  obtain m where m: "inode_manager_init (\<lambda>n. 0) = Inr (Some m)" "ok m" "dir_at m 1 []" "free_blocks m = {b. data_block b}"
    by (rule example_dir) (rule that)
  have "free_blocks m \<noteq> {}" using card_data_blocks unfolding m(4) by (metis card.empty zero_neq_numeral)
  with m(2,3) have "\<exists>m'. add_to_dir max_depth 1 7 [97, 98] m = Inr m'
      \<and> read_dir max_depth 1 m' = Inr ([] @ [(ucast (7::u32), [97, 98])])
      \<and> (\<forall>j. inum_ok j \<and> j \<noteq> 1 \<longrightarrow> inode_at m' j = inode_at m j)"
    by (intro add_appends) simp_all
  then show ?thesis using m(1) by auto
qed

text \<open>
  C28: Adding a name without zero bytes to a directory with a direct slot, when a block is free, stores the
  number in the first four bytes of a free block and the name behind it, with zero bytes up to the end, when
  the name has at most 508 bytes; a longer one is copied past the end of the block.
\<close>

theorem entry_fills_block:
  assumes "ok m" "dir_at m i es" "length es < 100" "0 \<notin> set name" "free_blocks m \<noteq> {}"
  shows "if length name \<le> 508
    then \<exists>m' b. add_to_dir max_depth i inum name m = Inr m' \<and> iblocks (inode_at m' i) ! length es = b \<and> b \<in> free_blocks m
      \<and> data m' b = bytes_of_u32 inum @ name @ replicate (508 - length name) 0
    else add_to_dir max_depth i inum name m = Inl Out_of_bounds"
proof (cases "length name \<le> 508")
  case True
  obtain m' b where m': "add_to_dir (Suc 1024) i inum name m = Inr m'" and b: "data_block b" "\<not> in_use m b"
    "iblocks (inode_at m' i) = (iblocks (inode_at m i))[length es := b]"
    "data m' b = bytes_of_u32 inum @ name @ replicate (508 - length name) 0"
    by (rule add_small_does[OF assms(2,1,3) True assms(4,5), of 1024 inum]) (use that in blast)
  have "iblocks (inode_at m' i) ! length es = b" using b(3) assms(3) by simp
  moreover have "b \<in> free_blocks m" using b(1,2) by (simp add: vol.free_set_def)
  ultimately show ?thesis using m' b(4) True by auto
next
  case False
  obtain b m1 where al: "bm_alloc m = Inr (b, m1)" "b \<noteq> 0" using vol.alloc_succeeds[OF assms(1,5)] by blast
  have "isize (inode_at m i) < 100" using dir_at_length[OF assms(2)] assms(3) by (simp add: word_less_nat_alt)
  then have "add_to_dir (Suc 1024) i inum name m = Inl Out_of_bounds"
    unfolding add_to_dir.simps(2) using assms(1,2) False al by (simp add: dir_at_def get_inode_ok dir_block_eq)
  then show ?thesis using False by simp
qed

theorem entry_fills_block_witness:
  "\<exists>m m' b. inode_manager_init (\<lambda>n. 0) = Inr (Some m) \<and> add_to_dir max_depth 1 7 (replicate 508 97) m = Inr m'
     \<and> data m' b = bytes_of_u32 7 @ replicate 508 97 \<and> add_to_dir max_depth 1 7 (replicate 509 97) m = Inl Out_of_bounds"
proof -
  obtain m where m: "inode_manager_init (\<lambda>n. 0) = Inr (Some m)" "ok m" "dir_at m 1 []" "free_blocks m = {b. data_block b}"
    by (rule example_dir) (rule that)
  have free: "free_blocks m \<noteq> {}" using card_data_blocks unfolding m(4) by (metis card.empty zero_neq_numeral)
  have "0 \<notin> set (replicate 508 97 :: bytes)" "0 \<notin> set (replicate 509 97 :: bytes)" by simp_all
  with entry_fills_block[OF m(2,3) _ _ free, of "replicate 508 97" 7] entry_fills_block[OF m(2,3) _ _ free, of "replicate 509 97" 7]
  have "\<exists>m' b. add_to_dir max_depth 1 7 (replicate 508 97) m = Inr m' \<and> data m' b = bytes_of_u32 7 @ replicate 508 97"
    "add_to_dir max_depth 1 7 (replicate 509 97) m = Inl Out_of_bounds" by auto
  then show ?thesis using m(1) by blast
qed

subsection \<open>Removing\<close>

text \<open>
  C29: Removing an entry of a directory of at most 100 puts the last entry in its place: listing the
  directory gives that, and all other inodes are as before.
\<close>

theorem remove_swaps:
  assumes "ok m" "dir_at m i es" "es \<noteq> []"
  shows "\<exists>m'. remove_from_dir max_depth i inum m = Inr m'
    \<and> read_dir max_depth i m' = Inr (swap_out (entry_index inum es) es)
    \<and> (\<forall>j. inum_ok j \<and> j \<noteq> i \<longrightarrow> inode_at m' j = inode_at m j)"
proof -
  obtain m' where "remove_from_dir (Suc 1024) i inum m = Inr m'" "ok m'" "dir_at m' i (swap_out (entry_index inum es) es)"
    "\<forall>j. inum_ok j \<and> j \<noteq> i \<longrightarrow> inode_at m' j = inode_at m j"
    using assms(2,1,3) by (rule remove_small_does) (rule that)
  then show ?thesis using read_dir_at[of m' i _ 1024] by simp
qed

theorem remove_swaps_witness:
  "\<exists>m m' es. length es = 99 \<and> dir_at m 1 es \<and> remove_from_dir max_depth 1 1 m = Inr m'
     \<and> read_dir max_depth 1 m' = Inr (swap_out (entry_index 1 es) es)"
proof -
  obtain m es where m: "ok m" "dir_at m 1 es" "length es = 99" by (rule example_full_dir) (rule that)
  then have "\<exists>m'. remove_from_dir max_depth 1 1 m = Inr m' \<and> read_dir max_depth 1 m' = Inr (swap_out (entry_index 1 es) es)
      \<and> (\<forall>j. inum_ok j \<and> j \<noteq> 1 \<longrightarrow> inode_at m' j = inode_at m j)"
    by (intro remove_swaps) auto
  then show ?thesis using m by blast
qed

text \<open>
  Removing an inode number that an entry has takes away exactly one entry, the first with that
  number, and gives exactly its block back; the order of the others may change.
\<close>

lemma remove_takes_one:
  assumes "ok m" "dir_at m i es" "ucast inum \<in> fst ` set es"
  shows "\<exists>m' es'. remove_from_dir max_depth i inum m = Inr m' \<and> read_dir max_depth i m' = Inr es'
    \<and> mset es' + {# es ! entry_index inum es #} = mset es \<and> fst (es ! entry_index inum es) = ucast inum
    \<and> card (free_blocks m') = Suc (card (free_blocks m))"
proof -
  let ?k = "entry_index inum es" and ?b = "dir_blocks m i ! entry_index inum es"
  have k: "?k < length es" unfolding entry_index_def
    using assms(3) by (metis (mono_tags, lifting) imageE length_takeWhile_le nat_less_le takeWhile_eq_all_conv takeWhile_eq_take take_all_iff le_refl)
  have fst: "fst (es ! ?k) = ucast inum"
    using k nth_length_takeWhile[of "\<lambda>e. fst e \<noteq> ucast inum" es] by (simp add: entry_index_def)
  have ne: "es \<noteq> []" using k by auto
  obtain m' where m': "remove_from_dir (Suc 1024) i inum m = Inr m'" "ok m'" "dir_at m' i (swap_out ?k es)"
    "\<forall>b. data_block b \<longrightarrow> in_use m' b = (b \<notin> (if ?k < length es then {?b} else {}) \<and> in_use m b)
       \<and> (b \<notin> (if ?k < length es then {?b} else {}) \<longrightarrow> data m' b = data m b)"
    using assms(2,1) ne by (rule remove_small_does) (rule that)
  have "?b \<in> set (dir_blocks m i)" using k dir_at_length[OF assms(2)] by (intro nth_mem) simp
  then have b: "data_block ?b" "in_use m ?b" using assms(2) unfolding dir_at_def by blast+
  then have "free_blocks m' = insert ?b (free_blocks m)" "?b \<notin> free_blocks m"
    using m'(4) k by (auto simp: vol.free_set_def)
  then have "card (free_blocks m') = Suc (card (free_blocks m))" by simp
  moreover have "mset (swap_out ?k es) + {# es ! ?k #} = mset es" using k by (simp add: mset_swap_out)
  ultimately show ?thesis using m'(1) read_dir_at[OF m'(3,2), of 1024] fst by auto
qed


text \<open>
  C30: Removing an inode number that no entry has is not an error: it drops the last entry from the
  directory, and leaves its block allocated.
\<close>

theorem remove_absent_drops_last:
  assumes "ok m" "dir_at m i es" "es \<noteq> []" "ucast inum \<notin> fst ` set es"
  shows "\<exists>m'. remove_from_dir max_depth i inum m = Inr m' \<and> read_dir max_depth i m' = Inr (butlast es)
    \<and> free_blocks m' = free_blocks m"
proof -
  have k: "entry_index inum es = length es"
  proof -
    have "takeWhile (\<lambda>e. fst e \<noteq> ucast inum) es = es" using assms(4) by (intro takeWhile_eq_all_conv[THEN iffD2]) force
    then show ?thesis by (simp only: entry_index_def)
  qed
  obtain m' where m': "remove_from_dir (Suc 1024) i inum m = Inr m'" "ok m'" "dir_at m' i (swap_out (entry_index inum es) es)"
    "\<forall>b. data_block b \<longrightarrow> in_use m' b = (b \<notin> (if entry_index inum es < length es then {dir_blocks m i ! entry_index inum es} else {})
       \<and> in_use m b) \<and> (b \<notin> (if entry_index inum es < length es then {dir_blocks m i ! entry_index inum es} else {})
       \<longrightarrow> data m' b = data m b)"
    using assms(2,1,3) by (rule remove_small_does) (rule that)
  then have "free_blocks m' = free_blocks m" by (auto simp: vol.free_set_def k)
  moreover have "swap_out (entry_index inum es) es = butlast es" by (simp add: swap_out_def k list_update_beyond)
  ultimately show ?thesis using m'(1) read_dir_at[OF m'(3,2), of 1024] by simp
qed

text \<open>A directory of the two entries 7 and 8, for the witnesses.\<close>

lemma example_two:
  obtains m where "ok m" "dir_at m 1 [(7, [97]), (8, [98])]"
proof -
  obtain m where m: "ok m" "dir_at m 1 []" "free_blocks m = {b. data_block b}"
    by (rule example_dir) (rule that)
  have free: "2 \<le> card (free_blocks m)" unfolding m(3) card_data_blocks by simp
  then have c: "length ([] :: dir_entries) < 100" "length [97::u8] \<le> 508" "0 \<notin> set [97::u8]" "free_blocks m \<noteq> {}" by auto
  obtain m1 where m1: "dir_at m1 1 ([] @ [(ucast (7::u32), [97])])" "vol.ext {1} m m1"
      "card (free_blocks m) = Suc (card (free_blocks m1))"
    by (rule add_small_does[OF m(2,1) c, of 0 7]) (rule that)
  have c1: "length ([] @ [(ucast (7::u32), [97])] :: dir_entries) < 100" "length [98::u8] \<le> 508" "0 \<notin> set [98::u8]"
      "free_blocks m1 \<noteq> {}" using m1(3) free by auto
  obtain m2 where "dir_at m2 1 (([] @ [(ucast (7::u32), [97])]) @ [(ucast (8::u32), [98])])" "vol.ext {1} m1 m2"
    by (rule add_small_does[OF m1(1) vol.ext_ok[OF m1(2)] c1, of 0 8]) (rule that)
  then show thesis using that[OF vol.ext_ok] by simp
qed

theorem remove_absent_drops_last_witness:
  "\<exists>m m'. dir_at m 1 [(7, [97]), (8, [98])] \<and> remove_from_dir max_depth 1 9 m = Inr m'
     \<and> read_dir max_depth 1 m' = Inr [(7, [97])]"
proof -
  obtain m where m: "ok m" "dir_at m 1 [(7, [97]), (8, [98])]" by (rule example_two) (rule that)
  then have "\<exists>m'. remove_from_dir max_depth 1 9 m = Inr m'
      \<and> read_dir max_depth 1 m' = Inr (butlast [(7, [97]), (8, [98])]) \<and> free_blocks m' = free_blocks m"
    by (intro remove_absent_drops_last) simp_all
  then show ?thesis using m(2) by auto
qed


subsection \<open>More than 100 entries\<close>

text \<open>A directory whose 100 direct slots are full and whose table pointer was never set.\<close>

definition full_dir :: "inode_manager \<Rightarrow> u32 \<Rightarrow> dir_entries \<Rightarrow> bool" where
  "full_dir m i es \<longleftrightarrow> inum_ok i \<and> itype (inode_at m i) = 1 \<and> 100 \<le> unat (isize (inode_at m i))
     \<and> iblocks (inode_at m i) ! 100 = 0 \<and> (\<forall>b \<in> set (take 100 (iblocks (inode_at m i))). data_block b \<and> in_use m b)
     \<and> es = map (\<lambda>b. dir_entry (data m b)) (take 100 (iblocks (inode_at m i)))"

text \<open>Block 0 used as the table of such a directory, with the directory \<open>n\<close> in its first entry.\<close>

definition table_in_boot :: "inode_manager \<Rightarrow> u32 \<Rightarrow> dir_entries \<Rightarrow> bool" where
  "table_in_boot m n fs \<longleftrightarrow> u32s_of_block (data m 0) = n # replicate 127 0 \<and> dir_at m n fs"

lemma full_dir_at: "dir_at m i es \<Longrightarrow> length es = 100 \<Longrightarrow> iblocks (inode_at m i) ! 100 = 0 \<Longrightarrow> full_dir m i es"
  using dir_at_length[of m i es] by (auto simp: dir_at_def full_dir_def)

lemma full_dir_kept:
  assumes "full_dir m i es" "vol.ext X m m'" "i \<notin> X"
  shows "full_dir m' i es"
proof -
  have "inode_at m' i = inode_at m i" using assms vol.ext_inode[OF assms(2)] by (simp add: full_dir_def)
  then show ?thesis using assms(1) vol.ext_block[OF assms(2)] by (auto simp: full_dir_def)
qed

lemma full_dir_cong:
  assumes "full_dir m i es" "iblocks (inode_at m' i) = iblocks (inode_at m i)" "itype (inode_at m' i) = itype (inode_at m i)"
    "100 \<le> unat (isize (inode_at m' i))" "\<forall>b. data_block b \<longrightarrow> in_use m' b = in_use m b \<and> data m' b = data m b"
  shows "full_dir m' i es"
  using assms by (auto simp: full_dir_def)

lemma read_full_dir:
  assumes "full_dir m i es" "100 < unat (isize (inode_at m i))" "table_in_boot m n fs" "ok m"
  shows "read_dir (Suc (Suc f)) i m = Inr (es @ fs)"
proof -
  have size: "min (unat (isize (inode_at m i))) 100 = 100" "100 < isize (inode_at m i)"
    using assms(2) by (simp_all add: word_less_nat_alt)
  have boot: "bm_read 0 m = Inr (data m 0)" using assms(4) by (simp add: bm_read_ok)
  have "n \<noteq> 0" "read_dir (Suc f) n m = Inr fs"
    using assms(3,4) read_dir_at by (auto simp: table_in_boot_def dir_at_def inum_ok_iff)
  then have subs: "each_sub (\<lambda>i. read_dir (Suc f) i m) (u32s_of_block (data m 0)) = Inr [fs]"
    using assms(3) by (simp add: table_in_boot_def numeral_eq_Suc)
  show ?thesis
    unfolding read_dir.simps(2)[of "Suc f"] using assms(1,4) size boot subs
    by (simp add: full_dir_def get_inode_ok read_entries)
qed

text \<open>A write to block 0 disturbs nothing else.\<close>

lemma boot_written:
  assumes "ok m" "length buf = 512"
  obtains m' where "bm_write 0 buf m = Inr m'" "ok m'" "data m' 0 = buf" "\<forall>j. inum_ok j \<longrightarrow> inode_at m' j = inode_at m j"
    "\<forall>b. data_block b \<longrightarrow> in_use m' b = in_use m b \<and> data m' b = data m b"
proof -
  let ?m = "m\<lparr>bm := put_blk 0 buf (bm m)\<rparr>"
  have "bm_write 0 buf m = Inr ?m" using assms by (simp add: bm_write_def write_block_ok)
  moreover have "inode_at ?m j = inode_at m j" if "inum_ok j" for j
    using iblk_nonzero[OF that] by (simp add: inode_at_def)
  moreover have "used (put_blk 0 buf (bm m)) b = used (bm m) b \<and> data ?m b = data m b" if "data_block b" for b
    using bitmap_range[OF data_block_lt[OF that]] data_block_nonzero[OF that] by (auto intro!: used_put_blk)
  ultimately show thesis using that[of ?m] assms by (simp add: fmt_put_blk)
qed

text \<open>What follows the slot that was found: the count in the inode goes up, at most to 101.\<close>

lemma count_entry:
  assumes "full_dir m i es" "ok m"
  obtains m' where "put_inode i ((inode_at m i)\<lparr>isize := (if isize (inode_at m i) < 101 then isize (inode_at m i) + 1 else isize (inode_at m i)),
      mtime := fst (time_now m), ctime := fst (time_now (snd (time_now m)))\<rparr>) (snd (time_now (snd (time_now m)))) = Inr m'"
    "full_dir m' i es" "100 < unat (isize (inode_at m' i))" "ok m'"
    "\<forall>j. inum_ok j \<and> j \<noteq> i \<longrightarrow> inode_at m' j = inode_at m j"
    "\<forall>b. data_block b \<longrightarrow> in_use m' b = in_use m b \<and> data m' b = data m b" "data m' 0 = data m 0"
proof -
  let ?s = "if isize (inode_at m i) < 101 then isize (inode_at m i) + 1 else isize (inode_at m i)"
  let ?x = "(inode_at m i)\<lparr>isize := ?s, mtime := fst (time_now m), ctime := fst (time_now (snd (time_now m)))\<rparr>"
  let ?m2 = "snd (time_now (snd (time_now m)))"
  have x: "ok ?m2" "inum_ok i" "length (iblocks ?x) = 101" using assms by (simp_all add: full_dir_def)
  obtain m' where m': "put_inode i ?x ?m2 = Inr m'" using vol.save_returns[OF x] ..
  note saved = vol.save_does[OF x m']
  have big: "100 < unat ?s" using assms(1) by (auto simp: full_dir_def word_less_nat_alt unat_word_ariths)
  have "full_dir m' i es"
    using assms(1) by (rule full_dir_cong) (use saved x(2) big in auto)
  then show thesis using that[OF m'] saved x(2) big by auto
qed


lemma dir_at_cong:
  assumes "dir_at m n es" "inode_at m' n = inode_at m n"
    "\<forall>b. data_block b \<longrightarrow> in_use m' b = in_use m b \<and> data m' b = data m b"
  shows "dir_at m' n es"
  using assms by (auto simp: dir_at_def)

lemma full_dir_inode:
  assumes "full_dir m i es" "inode_at m' i = inode_at m i"
    "\<forall>b. data_block b \<longrightarrow> in_use m' b = in_use m b \<and> data m' b = data m b"
  shows "full_dir m' i es"
  using assms by (auto simp: full_dir_def)

lemma full_dir_step:
  assumes "full_dir m i es" "ok m"
  shows "add_to_dir (Suc f) i inum name m = bindF (add_slots (\<lambda>sub. add_to_dir f sub inum name) 0
      (u32s_of_block (data m 0)) 0 (u32s_of_block (data m 0)) m) (\<lambda>m2.
    put_inode i ((inode_at m i)\<lparr>isize := (if isize (inode_at m i) < 101 then isize (inode_at m i) + 1 else isize (inode_at m i)),
      mtime := fst (time_now m2), ctime := fst (time_now (snd (time_now m2)))\<rparr>) (snd (time_now (snd (time_now m2)))))"
proof -
  have "\<not> isize (inode_at m i) < 100" using assms(1) by (simp add: full_dir_def word_less_nat_alt)
  moreover have "bm_read 0 m = Inr (data m 0)" using assms(2) by (simp add: bm_read_ok)
  ultimately show ?thesis
    unfolding add_to_dir.simps(2) using assms
    by (simp add: full_dir_def get_inode_ok bindF_assoc Let_def case_prod_beta)
qed

lemma first_overflow:
  assumes dir: "full_dir m i es" and ok: "ok m" and empty: "u32s_of_block (data m 0) = replicate 128 0"
    and free: "free_inodes m \<noteq> {}" "free_blocks m \<noteq> {}" and name: "length name \<le> 508" "0 \<notin> set name"
  obtains m' n where "add_to_dir (Suc (Suc f)) i inum name m = Inr m'" "ok m'" "table_in_boot m' n [(ucast inum, name)]"
    "full_dir m' i es" "100 < unat (isize (inode_at m' i))" "itype (inode_at m n) = 0" "inum_ok n"
    "\<forall>j es'. full_dir m j es' \<longrightarrow> full_dir m' j es'" "card (free_blocks m) = Suc (card (free_blocks m'))"
proof -
  obtain k where "inum_ok k" "itype (inode_at m k) = 0" using free(1) by (auto simp: free_inodes_def)
  then obtain n m1 where al: "alloc_inode 1 m = Inr (n, m1)" using vol.create_returns[OF ok, of 1 k] by auto
  note made = vol.create_does[OF ok _ al, simplified]
  have ok1: "ok m1" and n: "inum_ok n" "itype (inode_at m n) = 0" using made by auto
  have e1: "vol.ext {} m m1" using ok al by (intro vol.ext_create) auto
  have blocks1: "free_blocks m1 = free_blocks m" using vol.free_set_create[OF ok _ al] by simp
  have new: "dir_at m1 n []" using made by (auto simp: dir_at_def new_inode_def)
  have c: "length ([] :: dir_entries) < 100" "free_blocks m1 \<noteq> {}" using free(2) blocks1 by simp_all
  obtain m2 where m2: "add_to_dir (Suc f) n inum name m1 = Inr m2" "dir_at m2 n ([] @ [(ucast inum, name)])"
    "vol.ext {n} m1 m2" "card (free_blocks m1) = Suc (card (free_blocks m2))"
    "\<forall>j. inum_ok j \<and> j \<noteq> n \<longrightarrow> inode_at m2 j = inode_at m1 j"
    by (rule add_small_does[OF new ok1 c(1) name c(2)]) (rule that)
  have ok2: "ok m2" using m2(3) by (rule vol.ext_ok)
  let ?t = "n # replicate 127 0"
  have "length (block_of_u32s ?t) = 512" by simp
  from boot_written[OF ok2 this] obtain m3 where m3: "bm_write 0 (block_of_u32s ?t) m2 = Inr m3" "ok m3"
    "data m3 0 = block_of_u32s ?t" "\<forall>j. inum_ok j \<longrightarrow> inode_at m3 j = inode_at m2 j"
    "\<forall>b. data_block b \<longrightarrow> in_use m3 b = in_use m2 b \<and> data m3 b = data m2 b" .
  have old: "full_dir m3 j es' \<and> inode_at m3 j = inode_at m j \<and> j \<noteq> n" if j: "full_dir m j es'" for j es'
  proof -
    have jn: "j \<noteq> n" "inum_ok j" using j n(2) by (auto simp: full_dir_def)
    have "full_dir m2 j es'" using full_dir_kept[OF full_dir_kept[OF j e1] m2(3)] jn(1) by simp
    moreover have "inode_at m3 j = inode_at m2 j" using m3(4) jn(2) by simp
    moreover have "inode_at m2 j = inode_at m j" using m2(5) made jn by simp
    ultimately show ?thesis using full_dir_inode m3(5) jn(1) by simp
  qed
  obtain m' where m': "put_inode i ((inode_at m3 i)\<lparr>isize := (if isize (inode_at m3 i) < 101 then isize (inode_at m3 i) + 1 else isize (inode_at m3 i)),
      mtime := fst (time_now m3), ctime := fst (time_now (snd (time_now m3)))\<rparr>) (snd (time_now (snd (time_now m3)))) = Inr m'"
    "full_dir m' i es" "100 < unat (isize (inode_at m' i))" "ok m'"
    "\<forall>j. inum_ok j \<and> j \<noteq> i \<longrightarrow> inode_at m' j = inode_at m3 j"
    "\<forall>b. data_block b \<longrightarrow> in_use m' b = in_use m3 b \<and> data m' b = data m3 b" "data m' 0 = data m3 0"
    using old[OF dir] m3(2) count_entry[of m3 i es] by blast
  have i3: "inode_at m3 i = inode_at m i" "i \<noteq> n" using old[OF dir] by simp_all
  have "add_slots (\<lambda>sub. add_to_dir (Suc f) sub inum name) 0 (replicate 128 0) 0 (replicate 128 0) m = Inr m3"
    using al m2(1) m3(1) by (simp add: numeral_eq_Suc)
  then have run: "add_to_dir (Suc (Suc f)) i inum name m = Inr m'"
    unfolding full_dir_step[OF dir ok] empty using m'(1) unfolding i3(1) by simp
  have "dir_at m' n [(ucast inum, name)]"
  proof (rule dir_at_cong)
    show "dir_at m2 n [(ucast inum, name)]" using m2(2) by simp
    show "inode_at m' n = inode_at m2 n" using m'(5) m3(4) n(1) i3(2) by simp
    show "\<forall>b. data_block b \<longrightarrow> in_use m' b = in_use m2 b \<and> data m' b = data m2 b" using m'(6) m3(5) by simp
  qed
  then have table: "table_in_boot m' n [(ucast inum, name)]" using m'(7) m3(3) by (simp add: table_in_boot_def)
  have kept: "full_dir m' j es'" if j: "full_dir m j es'" for j es'
  proof (cases "j = i")
    case True
    then have "es' = es" using j dir by (simp add: full_dir_def)
    then show ?thesis using True m'(2) by simp
  next
    case False
    have "full_dir m3 j es'" using old[OF j] by simp
    moreover have "inode_at m' j = inode_at m3 j" using False m'(5) j by (simp add: full_dir_def)
    ultimately show ?thesis using m'(6) by (rule full_dir_inode)
  qed
  have "free_blocks m' = free_blocks m2" using m'(6) m3(5) by (auto simp: vol.free_set_def)
  then show thesis using that[OF run m'(4) table m'(2,3) n(2,1)] kept m2(4) blocks1 by simp
qed

lemma next_overflow:
  assumes dir: "full_dir m i es" and ok: "ok m" and table: "table_in_boot m n fs" "length fs < 100" "i \<noteq> n"
    and free: "free_blocks m \<noteq> {}" and name: "length name \<le> 508" "0 \<notin> set name"
  obtains m' where "add_to_dir (Suc (Suc f)) i inum name m = Inr m'" "ok m'" "table_in_boot m' n (fs @ [(ucast inum, name)])"
    "full_dir m' i es" "100 < unat (isize (inode_at m' i))"
    "\<forall>j. inum_ok j \<and> j \<noteq> i \<and> j \<noteq> n \<longrightarrow> inode_at m' j = inode_at m j"
    "\<forall>j es'. j \<noteq> n \<and> full_dir m j es' \<longrightarrow> full_dir m' j es'"
proof -
  have n: "dir_at m n fs" "inum_ok n" "n \<noteq> 0" "u32s_of_block (data m 0) = n # replicate 127 0"
    using table(1) by (auto simp: table_in_boot_def dir_at_def inum_ok_iff)
  obtain m2 where m2: "add_to_dir (Suc f) n inum name m = Inr m2" "dir_at m2 n (fs @ [(ucast inum, name)])"
    "vol.ext {n} m m2" "\<forall>j. inum_ok j \<and> j \<noteq> n \<longrightarrow> inode_at m2 j = inode_at m j"
    by (rule add_small_does[OF n(1) ok table(2) name free]) (rule that)
  have ok2: "ok m2" and boot2: "data m2 0 = data m 0" using m2(3) vol.ext_ok vol.ext_boot by blast+
  have dir2: "full_dir m2 i es" "inode_at m2 i = inode_at m i"
    using full_dir_kept[OF dir m2(3)] m2(4) dir table(3) by (simp_all add: full_dir_def)
  obtain m' where m': "put_inode i ((inode_at m2 i)\<lparr>isize := (if isize (inode_at m2 i) < 101 then isize (inode_at m2 i) + 1 else isize (inode_at m2 i)),
      mtime := fst (time_now m2), ctime := fst (time_now (snd (time_now m2)))\<rparr>) (snd (time_now (snd (time_now m2)))) = Inr m'"
    "full_dir m' i es" "100 < unat (isize (inode_at m' i))" "ok m'"
    "\<forall>j. inum_ok j \<and> j \<noteq> i \<longrightarrow> inode_at m' j = inode_at m2 j"
    "\<forall>b. data_block b \<longrightarrow> in_use m' b = in_use m2 b \<and> data m' b = data m2 b" "data m' 0 = data m2 0"
    using dir2(1) ok2 by (rule count_entry)
  have "isize (inode_at m n) < 100" using dir_at_length[OF n(1)] table(2) by (simp add: word_less_nat_alt)
  then have "get_ino_block_num n m = Inr (isize (inode_at m n))" "isize (inode_at m n) < 100"
    using ok n(2) by (simp_all add: get_ino_block_num_def get_inode_ok)
  then have "add_slots (\<lambda>sub. add_to_dir (Suc f) sub inum name) 0 (n # replicate 127 0) 0 (n # replicate 127 0) m = Inr m2"
    using n(3) m2(1) by simp
  then have run: "add_to_dir (Suc (Suc f)) i inum name m = Inr m'"
    unfolding full_dir_step[OF dir ok] n(4) using m'(1) unfolding dir2(2) by simp
  have "dir_at m' n (fs @ [(ucast inum, name)])"
    using m2(2) by (rule dir_at_cong) (use m'(5,6) n(2) table(3) in simp_all)
  then have tab: "table_in_boot m' n (fs @ [(ucast inum, name)])" using m'(7) boot2 n(4) by (simp add: table_in_boot_def)
  have kept: "full_dir m' j es'" if j: "full_dir m j es'" "j \<noteq> n" for j es'
  proof (cases "j = i")
    case True
    then have "es' = es" using j dir by (simp add: full_dir_def)
    then show ?thesis using True m'(2) by simp
  next
    case False
    then have "full_dir m2 j es'" "inode_at m' j = inode_at m2 j"
      using full_dir_kept[OF j(1) m2(3)] j m'(5) by (simp_all add: full_dir_def)
    then show ?thesis using m'(6) by (rule full_dir_inode)
  qed
  show thesis using that[OF run m'(4) tab m'(2,3)] kept m'(5) m2(4) by simp
qed

text \<open>
  C31: Two directories of 100 entries share what comes after. The table pointer of neither was ever set,
  so both use block 0 as their table, and each lists the 101st entry of the other as its own.
\<close>

theorem overflow_is_shared:
  assumes "ok m" "dir_at m i es" "dir_at m j fs" "i \<noteq> j" "length es = 100" "length fs = 100"
    and "iblocks (inode_at m i) ! 100 = 0" "iblocks (inode_at m j) ! 100 = 0" "data m 0 = replicate 512 0"
    and "free_inodes m \<noteq> {}" "2 \<le> card (free_blocks m)"
    and "length a \<le> 508" "0 \<notin> set a" "length b \<le> 508" "0 \<notin> set b"
  shows "\<exists>m1 m2. add_to_dir max_depth i x a m = Inr m1 \<and> add_to_dir max_depth j y b m1 = Inr m2
    \<and> read_dir max_depth i m2 = Inr (es @ [(ucast x, a), (ucast y, b)])
    \<and> read_dir max_depth j m2 = Inr (fs @ [(ucast x, a), (ucast y, b)])"
proof -
  note full = full_dir_at[OF assms(2,5,7)] full_dir_at[OF assms(3,6,8)]
  have empty: "u32s_of_block (data m 0) = replicate 128 0"
    unfolding assms(9) by (simp add: u32s_of_block_def numeral_eq_Suc)
  have free: "free_blocks m \<noteq> {}" using assms(11) by auto
  obtain m1 n where m1: "add_to_dir (Suc (Suc 1023)) i x a m = Inr m1" "ok m1" "table_in_boot m1 n [(ucast x, a)]"
    "full_dir m1 i es" "100 < unat (isize (inode_at m1 i))" "itype (inode_at m n) = 0" "inum_ok n"
    "\<forall>k es'. full_dir m k es' \<longrightarrow> full_dir m1 k es'" "card (free_blocks m) = Suc (card (free_blocks m1))"
    by (rule first_overflow[OF full(1) assms(1) empty assms(10) free assms(12,13)])
  have n: "i \<noteq> n" "j \<noteq> n" using m1(6) full by (auto simp: full_dir_def)
  have free1: "free_blocks m1 \<noteq> {}" using assms(11) m1(9) by auto
  have one: "length [(ucast x :: u64, a)] < 100" by simp
  have full1: "full_dir m1 j fs" using m1(8) full(2) by blast
  obtain m2 where m2: "add_to_dir (Suc (Suc 1023)) j y b m1 = Inr m2" "ok m2" "table_in_boot m2 n ([(ucast x, a)] @ [(ucast y, b)])"
    "full_dir m2 j fs" "100 < unat (isize (inode_at m2 j))"
    "\<forall>k. inum_ok k \<and> k \<noteq> j \<and> k \<noteq> n \<longrightarrow> inode_at m2 k = inode_at m1 k"
    "\<forall>k es'. k \<noteq> n \<and> full_dir m1 k es' \<longrightarrow> full_dir m2 k es'"
    by (rule next_overflow[OF full1 m1(2,3) one n(2) free1 assms(14,15)]) (rule that)
  have "full_dir m2 i es" "inode_at m2 i = inode_at m1 i"
    using m2(6,7) m1(4) n(1) assms(4) by (auto simp: full_dir_def)
  then show ?thesis
    using m1(1,5) m2(1) read_full_dir[of m2 i es n _ 1023] read_full_dir[of m2 j fs n _ 1023] m2(2-5) by simp
qed

lemma two_full_dirs:
  obtains m i j es fs where "ok m" "dir_at m i es" "dir_at m j fs" "i \<noteq> j" "length es = 100" "length fs = 100"
    "iblocks (inode_at m i) ! 100 = 0" "iblocks (inode_at m j) ! 100 = 0" "data m 0 = replicate 512 0"
    "free_inodes m \<noteq> {}" "2 \<le> card (free_blocks m)"
proof -
  obtain m where m: "ok m" "dir_at m 1 []" "free_blocks m = {b. data_block b}"
    "\<forall>j. inum_ok j \<and> j \<noteq> 1 \<longrightarrow> itype (inode_at m j) = 0" "data m 0 = replicate 512 0" "iblocks (inode_at m 1) ! 100 = 0"
    by (rule example_dir) (rule that)
  have "inum_ok 2" "itype (inode_at m 2) = 0" using m(4) by (simp_all add: inum_ok_def)
  then obtain n m1 where al: "alloc_inode 1 m = Inr (n, m1)" using vol.create_returns[OF m(1), of 1 2] by auto
  note made = vol.create_does[OF m(1) _ al, simplified]
  have e1: "vol.ext {} m m1" using m(1) al by (intro vol.ext_create) auto
  have n: "n \<noteq> 1" using made m(2) by (auto simp: dir_at_def)
  have d1: "dir_at m1 1 []" using m(2) e1 by (rule dir_at_ext) simp
  have dn: "dir_at m1 n []" and ptr: "iblocks (inode_at m1 n) ! 100 = 0" using made by (auto simp: dir_at_def new_inode_def)
  have free1: "card (free_blocks m1) = 2095612" using vol.free_set_create[OF m(1) _ al] m(3) card_data_blocks by simp
  have "length ([] :: dir_entries) + 100 \<le> 100" "100 \<le> card (free_blocks m1)" using free1 by simp_all
  from fill_dir[OF d1 vol.ext_ok[OF e1] this] obtain m2 es where m2: "dir_at m2 1 es" "length es = 100" "vol.ext {1} m1 m2"
    "card (free_blocks m1) = card (free_blocks m2) + 100" "\<forall>j. inum_ok j \<and> j \<noteq> 1 \<longrightarrow> inode_at m2 j = inode_at m1 j"
    "iblocks (inode_at m2 1) ! 100 = iblocks (inode_at m1 1) ! 100" by auto
  have dn2: "dir_at m2 n []" using dn m2(3) by (rule dir_at_ext) (use n in simp)
  have "length ([] :: dir_entries) + 100 \<le> 100" "100 \<le> card (free_blocks m2)" using free1 m2(4) by simp_all
  from fill_dir[OF dn2 vol.ext_ok[OF m2(3)] this] obtain m3 fs where m3: "dir_at m3 n fs" "length fs = 100" "vol.ext {n} m2 m3"
    "card (free_blocks m2) = card (free_blocks m3) + 100" "\<forall>j. inum_ok j \<and> j \<noteq> n \<longrightarrow> inode_at m3 j = inode_at m2 j"
    "iblocks (inode_at m3 n) ! 100 = iblocks (inode_at m2 n) ! 100" by auto
  have one: "inum_ok 1" "inum_ok n" using d1 dn by (simp_all add: dir_at_def)
  have "dir_at m3 1 es" using m2(1) m3(3) by (rule dir_at_ext) (use n in simp)
  moreover have "inode_at m1 1 = inode_at m 1" using made one(1) n by simp
  moreover have "data m3 0 = replicate 512 0" using m(5) vol.ext_boot[OF e1] vol.ext_boot[OF m2(3)] vol.ext_boot[OF m3(3)] by simp
  moreover have "free_inodes m3 \<noteq> {}"
  proof -
    obtain k :: u32 where k: "inum_ok k" "k \<noteq> 1" "k \<noteq> n"
    proof (cases "n = 2")
      case True
      then show thesis using that[of 3] by (simp add: inum_ok_def)
    next
      case False
      then show thesis using that[of 2] by (simp add: inum_ok_def)
    qed
    then have "itype (inode_at m3 k) = 0" using m(4) made m2(5) m3(5) by simp
    then show ?thesis using k(1) by (auto simp: free_inodes_def)
  qed
  ultimately show thesis
    using that[of m3 1 es n fs] vol.ext_ok[OF m3(3)] m3 m2 n m(6) ptr one free1 by simp
qed

theorem overflow_is_shared_witness:
  "\<exists>m i j es fs m1 m2. i \<noteq> j \<and> length es = 100 \<and> length fs = 100 \<and> dir_at m i es \<and> dir_at m j fs
     \<and> add_to_dir max_depth i 7 [97] m = Inr m1 \<and> add_to_dir max_depth j 8 [98] m1 = Inr m2
     \<and> read_dir max_depth i m2 = Inr (es @ [(7, [97]), (8, [98])])"
proof -
  obtain m i j es fs where m: "ok m" "dir_at m i es" "dir_at m j fs" "i \<noteq> j" "length es = 100" "length fs = 100"
    "iblocks (inode_at m i) ! 100 = 0" "iblocks (inode_at m j) ! 100 = 0" "data m 0 = replicate 512 0"
    "free_inodes m \<noteq> {}" "2 \<le> card (free_blocks m)"
    by (rule two_full_dirs)
  have "\<exists>m1 m2. add_to_dir max_depth i 7 [97] m = Inr m1 \<and> add_to_dir max_depth j 8 [98] m1 = Inr m2
    \<and> read_dir max_depth i m2 = Inr (es @ [(ucast (7 :: u32), [97]), (ucast (8 :: u32), [98])])
    \<and> read_dir max_depth j m2 = Inr (fs @ [(ucast (7 :: u32), [97]), (ucast (8 :: u32), [98])])"
    using m by (rule overflow_is_shared) simp_all
  then obtain m1 m2 where "add_to_dir max_depth i 7 [97] m = Inr m1" "add_to_dir max_depth j 8 [98] m1 = Inr m2"
    "read_dir max_depth i m2 = Inr (es @ [(7, [97]), (8, [98])])" by auto
  then show ?thesis using m(2-6) by blast
qed

end
