(* ===== verification/Extent.thy ===== *)
theory Extent imports File_Attributes Dir_Properties begin

text \<open>
  \<open>extent_server\<close> and \<open>extent_client\<close>. Neither object holds anything but the pointer to the next one, so
  the state of both is the \<open>inode_manager\<close>; the client calls the server's methods directly. Identifiers
  have 64 bits here and 32 below. The locale \<open>extent_store\<close> is what \<open>chfs_client\<close> relies on for files.
\<close>

subsection \<open>Status values\<close>

text \<open>
  The values of \<open>extent_protocol::xxstatus\<close> and of \<open>chfs_client::xxstatus\<close>, which has one more. The code
  passes them on as \<open>int\<close>, and they have the same numbers.
\<close>

datatype status = OK | RPCERR | NOENT | IOERR | EXIST

subsection \<open>class extent_server\<close>

type_synonym extent_server = inode_manager

text \<open>The low 31 bits of an identifier, and its conversion to the \<open>uint32_t\<close> of the manager.\<close>

definition id_inum :: "u64 \<Rightarrow> u32" where
  "id_inum i = ucast (i AND 0x7fffffff)"

definition es_create :: "u32 \<Rightarrow> extent_server \<Rightarrow> fault + status \<times> u64 \<times> extent_server" where
  "es_create type m = bindF (alloc_inode type m) (\<lambda>(i, m1). Inr (OK, ucast i, m1))"

text \<open>\<open>c_str()\<close> has a zero byte behind the bytes of the string; the size is converted to \<open>int\<close>.\<close>

definition es_put :: "u64 \<Rightarrow> bytes \<Rightarrow> extent_server \<Rightarrow> fault + status \<times> extent_server" where
  "es_put i buf m =
     (let cbuf = buf @ [0]; sz = sint (of_nat (length buf) :: u32)
      in bindF (write_file (id_inum i) cbuf sz m) (\<lambda>m1. Inr (OK, m1)))"

definition es_get :: "u64 \<Rightarrow> extent_server \<Rightarrow> fault + status \<times> bytes" where
  "es_get i m = bindF (read_file max_depth (id_inum i) m) (\<lambda>buf. Inr (OK, buf))"

definition es_getattr :: "u64 \<Rightarrow> extent_server \<Rightarrow> fault + status \<times> attr" where
  "es_getattr i m = bindF (get_attr max_depth (id_inum i) m) (\<lambda>a. Inr (OK, a))"

definition es_remove :: "u64 \<Rightarrow> extent_server \<Rightarrow> fault + status \<times> extent_server" where
  "es_remove i m = bindF (remove_file max_depth (id_inum i) m) (\<lambda>m1. Inr (OK, m1))"

definition es_read_dir :: "u64 \<Rightarrow> extent_server \<Rightarrow> fault + status \<times> dir_entries" where
  "es_read_dir i m = bindF (read_dir max_depth (ucast i) m) (\<lambda>bufs. Inr (OK, bufs))"

definition es_add_to_dir :: "u64 \<Rightarrow> u64 \<Rightarrow> bytes \<Rightarrow> extent_server \<Rightarrow> fault + status \<times> extent_server" where
  "es_add_to_dir parent_id i name m =
     bindF (add_to_dir max_depth (ucast parent_id) (ucast i) name m) (\<lambda>m1. Inr (OK, m1))"

definition es_remove_from_dir :: "u64 \<Rightarrow> u64 \<Rightarrow> extent_server \<Rightarrow> fault + status \<times> extent_server" where
  "es_remove_from_dir parent_id i m =
     bindF (remove_from_dir max_depth (ucast parent_id) (ucast i) m) (\<lambda>m1. Inr (OK, m1))"

definition es_set_attr :: "u64 \<Rightarrow> u64 \<Rightarrow> extent_server \<Rightarrow> fault + status \<times> extent_server" where
  "es_set_attr i sz m = bindF (set_attr max_depth (ucast i) sz m) (\<lambda>m1. Inr (OK, m1))"

subsection \<open>class extent_client\<close>

type_synonym extent_client = extent_server

definition ec_create :: "u32 \<Rightarrow> extent_client \<Rightarrow> fault + status \<times> u64 \<times> extent_client" where
  "ec_create type c = es_create type c"

definition ec_get :: "u64 \<Rightarrow> extent_client \<Rightarrow> fault + status \<times> bytes" where
  "ec_get i c = es_get i c"

definition ec_getattr :: "u64 \<Rightarrow> extent_client \<Rightarrow> fault + status \<times> attr" where
  "ec_getattr i c = es_getattr i c"

definition ec_put :: "u64 \<Rightarrow> bytes \<Rightarrow> extent_client \<Rightarrow> fault + status \<times> extent_client" where
  "ec_put i buf c = es_put i buf c"

definition ec_remove :: "u64 \<Rightarrow> extent_client \<Rightarrow> fault + status \<times> extent_client" where
  "ec_remove i c = es_remove i c"

definition ec_read_dir :: "u64 \<Rightarrow> extent_client \<Rightarrow> fault + status \<times> dir_entries" where
  "ec_read_dir i c = es_read_dir i c"

definition ec_add_to_dir :: "u64 \<Rightarrow> u64 \<Rightarrow> bytes \<Rightarrow> extent_client \<Rightarrow> fault + status \<times> extent_client" where
  "ec_add_to_dir parent_id i name c = es_add_to_dir parent_id i name c"

definition ec_remove_from_dir :: "u64 \<Rightarrow> u64 \<Rightarrow> extent_client \<Rightarrow> fault + status \<times> extent_client" where
  "ec_remove_from_dir parent_id i c = es_remove_from_dir parent_id i c"

definition ec_set_attr :: "u64 \<Rightarrow> u64 \<Rightarrow> extent_client \<Rightarrow> fault + status \<times> extent_client" where
  "ec_set_attr i sz c = es_set_attr i sz c"

lemmas ec_defs = ec_create_def ec_get_def ec_getattr_def ec_put_def ec_remove_def ec_read_dir_def
  ec_add_to_dir_def ec_remove_from_dir_def ec_set_attr_def

lemmas es_defs = es_create_def es_get_def es_getattr_def es_put_def es_remove_def es_read_dir_def
  es_add_to_dir_def es_remove_from_dir_def es_set_attr_def

subsection \<open>The interface for files\<close>

text \<open>
  What a client of the store of extents can count on for files of at most 51200 bytes: they read back
  up to trailing zero bytes, setting their size to 0 empties them, and no operation on one changes
  another. Writing takes room, one unit per 512 bytes, and setting the size does not give it back.
\<close>

locale extent_store =
  fixes small :: "'s \<Rightarrow> u64 \<Rightarrow> bytes \<Rightarrow> bool" and room :: "'s \<Rightarrow> nat"
    and get :: "u64 \<Rightarrow> 's \<Rightarrow> fault + status \<times> bytes"
    and put :: "u64 \<Rightarrow> bytes \<Rightarrow> 's \<Rightarrow> fault + status \<times> 's"
    and set_size :: "u64 \<Rightarrow> u64 \<Rightarrow> 's \<Rightarrow> fault + status \<times> 's"
  assumes get_small: "small s i v \<Longrightarrow> get i s = Inr (OK, v)"
    and clear_small: "small s i v \<Longrightarrow> \<exists>s'. set_size i 0 s = Inr (OK, s') \<and> small s' i [] \<and> room s' = room s"
    and put_small: "small s i v \<Longrightarrow> length buf \<le> 51200 \<Longrightarrow> n_blocks (int (length buf)) \<le> room s \<Longrightarrow>
      \<exists>s'. put i buf s = Inr (OK, s') \<and> small s' i (strip0 buf) \<and> room s' + n_blocks (int (length buf)) = room s"
    and clear_keeps: "small s i v \<Longrightarrow> small s j w \<Longrightarrow> i \<noteq> j \<Longrightarrow> set_size i 0 s = Inr (OK, s') \<Longrightarrow> small s' j w"
    and put_keeps: "small s i v \<Longrightarrow> length buf \<le> 51200 \<Longrightarrow> small s j w \<Longrightarrow> i \<noteq> j \<Longrightarrow>
      put i buf s = Inr (OK, s') \<Longrightarrow> small s' j w"
begin

text \<open>Emptying a file and then writing all of it, the way a write of the client does.\<close>

lemma rewrite:
  assumes "small s i v" "length buf \<le> 51200" "n_blocks (int (length buf)) \<le> room s"
  obtains s1 s2 where "set_size i 0 s = Inr (OK, s1)" "put i buf s1 = Inr (OK, s2)" "small s2 i (strip0 buf)"
    "get i s2 = Inr (OK, strip0 buf)" "room s2 + n_blocks (int (length buf)) = room s"
    "\<And>j w. small s j w \<Longrightarrow> i \<noteq> j \<Longrightarrow> small s2 j w"
proof -
  obtain s1 where s1: "set_size i 0 s = Inr (OK, s1)" "small s1 i []" "room s1 = room s"
    using clear_small[OF assms(1)] by blast
  obtain s2 where s2: "put i buf s1 = Inr (OK, s2)" "small s2 i (strip0 buf)"
      "room s2 + n_blocks (int (length buf)) = room s1"
    using put_small[OF s1(2) assms(2)] assms(3) s1(3) by auto
  show thesis
    using that[OF s1(1) s2(1,2) get_small[OF s2(2)]] s2(3) s1(3)
      put_keeps[OF s1(2) assms(2) clear_keeps[OF assms(1) _ _ s1(1)] _ s2(1)] by simp
qed

end

text \<open>On the model: a file of at most 100 blocks, under an identifier in the range of inode numbers.\<close>

definition small_file :: "extent_client \<Rightarrow> u64 \<Rightarrow> bytes \<Rightarrow> bool" where
  "small_file m i v \<longleftrightarrow> ok m \<and> i \<le> 1024 \<and> inum_ok (ucast i) \<and> itype (inode_at m (ucast i)) \<noteq> 0
     \<and> isize (inode_at m (ucast i)) \<le> 100 \<and> (\<forall>b \<in> set (dir_blocks m (ucast i)). data_block b \<and> in_use m b)
     \<and> v = strip0 (concat (map (data m) (dir_blocks m (ucast i))))"

lemma ucast_id: "i \<le> 1024 \<Longrightarrow> unat (ucast (i :: u64) :: u32) = unat i"
  by (simp add: unsigned_ucast_eq word_le_nat_alt take_bit_nat_eq_self)

lemma id_inum_small: "i \<le> 1024 \<Longrightarrow> id_inum i = ucast i"
proof -
  assume "i \<le> 1024"
  then have "take_bit 31 i = i" by (simp add: word_le_nat_alt word_unat_eq_iff unsigned_take_bit_eq take_bit_nat_eq_self)
  moreover have "i AND 0x7fffffff = take_bit 31 i" by (simp add: take_bit_eq_mask mask_eq_exp_minus_1)
  ultimately show ?thesis by (simp add: id_inum_def)
qed

lemma ucast_id_inject: "i \<le> 1024 \<Longrightarrow> j \<le> 1024 \<Longrightarrow> (ucast (i :: u64) :: u32) = ucast (j :: u64) \<longleftrightarrow> i = j"
  using ucast_id[of i] ucast_id[of j] by (simp add: word_unat_eq_iff)

lemma small_file_frame:
  assumes "small_file m j w" "ok m'" "inode_at m' (ucast j) = inode_at m (ucast j)"
    "\<forall>b. data_block b \<and> in_use m b \<longrightarrow> in_use m' b \<and> data m' b = data m b"
  shows "small_file m' j w"
proof -
  have "map (data m') (dir_blocks m (ucast j)) = map (data m) (dir_blocks m (ucast j))"
    using assms(1,4) by (simp add: small_file_def)
  then have "concat (map (data m') (dir_blocks m (ucast j))) = concat (map (data m) (dir_blocks m (ucast j)))"
    by (simp only:)
  then show ?thesis using assms(1,2,4) unfolding small_file_def assms(3) by auto
qed

lemma small_file_read: "small_file m i v \<Longrightarrow> ec_get i m = Inr (OK, v)"
proof -
  assume f: "small_file m i v"
  then have "read_file (Suc 1024) (ucast i) m = Inr v"
    using read_direct[of m "ucast i" 1024] data_block_lt by (auto simp: small_file_def simp del: read_file.simps)
  then show ?thesis using f by (simp add: ec_defs es_defs id_inum_small small_file_def)
qed

lemma small_file_clear:
  assumes "small_file m i v"
  shows "\<exists>m'. ec_set_attr i 0 m = Inr (OK, m') \<and> small_file m' i [] \<and> card (free_blocks m') = card (free_blocks m)
    \<and> (\<forall>j w. small_file m j w \<and> i \<noteq> j \<longrightarrow> small_file m' j w)"
proof -
  let ?i = "ucast i :: u32" and ?n = "unat (isize (inode_at m (ucast i)))"
  have f: "ok m" "i \<le> 1024" "inum_ok ?i" "itype (inode_at m ?i) \<noteq> 0" "isize (inode_at m ?i) \<le> 100"
    "\<forall>b \<in> set (dir_blocks m ?i). data_block b" using assms by (auto simp: small_file_def)
  have n: "isize (inode_at m ?i) = of_nat ?n" "?n \<le> 100" using f(5) by (simp_all add: word_le_nat_alt)
  have disk: "\<forall>b \<in> set (dir_blocks m ?i). b < 2097152" using f(6) data_block_lt by blast
  then have last: "0 < ?n \<Longrightarrow> iblocks (inode_at m ?i) ! (?n - 1) < 2097152" using last_pointer[OF _ n(2)] by blast
  note size = get_file_size_direct[OF f(1,3) n(1,2) last, of 1024]
  show ?thesis
  proof (cases "?n = 0")
    case True
    then have "get_file_size (Suc 1024) ?i m = Inr 0" using size by (simp del: get_file_size.simps)
    then have "ec_set_attr i 0 m = Inr (OK, m)" by (simp add: ec_defs es_defs set_attr_def del: get_file_size.simps)
    moreover have "v = []" using assms True by (simp add: small_file_def)
    ultimately show ?thesis using assms by blast
  next
    case False
    let ?s = "of_nat (512 * (?n - 1) + max 1 (length (strip0 (data m (iblocks (inode_at m ?i) ! (?n - 1))))))"
    have sz: "get_file_size max_depth ?i m = Inr ?s" using size False by (simp del: get_file_size.simps)
    from file_size_bounds[OF f(1,3) n(1,2) last sz] have "0 < unat (?s :: u32)" using False by linarith
    then have "(0 :: u64) < ucast (?s :: u32)" by (simp only: word_less_nat_alt unat_size unat_0)
    from shrink_resizes[OF f(1,3,5) disk sz this] obtain m' where
      m': "set_attr max_depth ?i 0 m = Inr m'" "resized m m' ?i (blocks_of_size 0)" by blast
    have z: "blocks_of_size 0 = 0" by (simp add: blocks_of_size_def)
    have only: "ok m'" "isize (inode_at m' ?i) = 0" "itype (inode_at m' ?i) = itype (inode_at m ?i)"
      "\<forall>j. inum_ok j \<and> j \<noteq> ?i \<longrightarrow> inode_at m' j = inode_at m j"
      "\<forall>b. data_block b \<longrightarrow> in_use m' b = in_use m b \<and> data m' b = data m b"
      using m'(2) z by (auto simp: resized_def only_inode_def)
    have "small_file m' i []" using only(1-3) f by (simp add: small_file_def)
    moreover have "small_file m' j w" if "small_file m j w" "i \<noteq> j" for j w
    proof (rule small_file_frame[OF that(1) only(1)])
      have "ucast j \<noteq> ?i" "inum_ok (ucast j)" using that f(2) by (auto simp: small_file_def ucast_id_inject)
      then show "inode_at m' (ucast j) = inode_at m (ucast j)" using only(4) by blast
    qed (use only(5) in blast)
    moreover have "free_blocks m' = free_blocks m" using only(5) by (auto simp: vol.free_set_def)
    ultimately show ?thesis using m'(1) by (auto simp: ec_defs es_defs)
  qed
qed

lemma put_size: "length buf \<le> 51200 \<Longrightarrow> sint (of_nat (length buf) :: u32) = int (length buf)"
  by (simp add: signed_of_nat signed_take_bit_int_eq_self)

lemma small_file_put:
  assumes "small_file m i v" "length buf \<le> 51200"
  shows "(n_blocks (int (length buf)) \<le> card (free_blocks m) \<longrightarrow> (\<exists>m'. ec_put i buf m = Inr (OK, m')))
    \<and> (\<forall>m'. ec_put i buf m = Inr (OK, m') \<longrightarrow> small_file m' i (strip0 buf)
         \<and> card (free_blocks m') + n_blocks (int (length buf)) = card (free_blocks m)
         \<and> (\<forall>j w. small_file m j w \<and> i \<noteq> j \<longrightarrow> small_file m' j w))"
proof -
  let ?i = "ucast i :: u32" and ?n = "n_blocks (int (length buf))"
  have f: "ok m" "i \<le> 1024" "inum_ok ?i" "itype (inode_at m ?i) \<noteq> 0" using assms(1) by (auto simp: small_file_def)
  have sz: "0 \<le> int (length buf)" "int (length buf) \<le> 51200" "nat (int (length buf)) \<le> length (buf @ [0])"
    using assms(2) by simp_all
  have put: "ec_put i buf m = bindF (write_file ?i (buf @ [0]) (int (length buf)) m) (\<lambda>m1. Inr (OK, m1))"
    using f(2) assms(2) by (simp add: ec_defs es_defs Let_def id_inum_small put_size)
  note ret = write_small_returns[OF f(1,3) sz]
  have "small_file m' i (strip0 buf) \<and> card (free_blocks m') + ?n = card (free_blocks m)
      \<and> (\<forall>j w. small_file m j w \<and> i \<noteq> j \<longrightarrow> small_file m' j w)" if "ec_put i buf m = Inr (OK, m')" for m'
  proof -
    have wr: "write_file ?i (buf @ [0]) (int (length buf)) m = Inr m'" using that unfolding put by (auto simp: bindF_eq_Inr)
    obtain bs now where bs: "length bs = ?n" "vol.ext {?i} m m'"
      "inode_at m' ?i = (inode_at m ?i)\<lparr>iblocks := bs @ drop ?n (iblocks (inode_at m ?i)), isize := of_nat ?n, mtime := now\<rparr>"
      "\<forall>k < ?n. data_block (bs ! k) \<and> \<not> in_use m (bs ! k) \<and> in_use m' (bs ! k)
         \<and> data m' (bs ! k) = nth_block (take (nat (int (length buf))) (buf @ [0])) k"
      by (rule write_small_layout[OF wr f(1,3) sz]) (rule that)
    have n: "?n \<le> 100" using n_blocks_gt[OF sz(1)] assms(2) by linarith
    have blocks: "dir_blocks m' ?i = bs" "isize (inode_at m' ?i) \<le> 100"
      using count_word[OF n] bs(1,3) by simp_all
    have "concat (map (data m') bs) = buf @ replicate (512 * ?n - length buf) 0"
      using direct_content[OF bs(1), of m' buf] bs(4) n_blocks_covers[OF sz(1)] by simp
    then have "small_file m' i (strip0 buf)"
      unfolding small_file_def blocks(1) using f(2-4) blocks(2) bs vol.ext_ok[OF bs(2)] by (auto simp: in_set_conv_nth)
    moreover have "small_file m' j w" if "small_file m j w" "i \<noteq> j" for j w
    proof (rule small_file_frame[OF that(1) vol.ext_ok[OF bs(2)]])
      have "ucast j \<noteq> ?i" "inum_ok (ucast j)" "itype (inode_at m (ucast j)) \<noteq> 0"
        using that f(2) by (auto simp: small_file_def ucast_id_inject)
      then show "inode_at m' (ucast j) = inode_at m (ucast j)" using vol.ext_inode[OF bs(2)] by blast
    qed (use vol.ext_block[OF bs(2)] in blast)
    moreover have "card (free_blocks m') + ?n = card (free_blocks m)" using ret wr by (simp split: if_splits)
    ultimately show ?thesis by blast
  qed
  moreover have "\<exists>m'. ec_put i buf m = Inr (OK, m')" if "?n \<le> card (free_blocks m)"
    using ret that unfolding put by auto
  ultimately show ?thesis by blast
qed

interpretation xs: extent_store small_file "\<lambda>m. card (free_blocks m)" ec_get ec_put ec_set_attr
proof unfold_locales
  fix s :: extent_client and i j :: u64 and v w buf :: bytes and s' :: extent_client
  show "ec_get i s = Inr (OK, v)" if "small_file s i v" using that by (rule small_file_read)
  show "\<exists>s'. ec_set_attr i 0 s = Inr (OK, s') \<and> small_file s' i [] \<and> card (free_blocks s') = card (free_blocks s)"
    if "small_file s i v" using small_file_clear[OF that] by blast
  show "\<exists>s'. ec_put i buf s = Inr (OK, s') \<and> small_file s' i (strip0 buf)
      \<and> card (free_blocks s') + n_blocks (int (length buf)) = card (free_blocks s)"
    if "small_file s i v" "length buf \<le> 51200" "n_blocks (int (length buf)) \<le> card (free_blocks s)"
    using small_file_put[OF that(1,2)] that(3) by blast
  show "small_file s' j w" if "small_file s i v" "small_file s j w" "i \<noteq> j" "ec_set_attr i 0 s = Inr (OK, s')"
    using small_file_clear[OF that(1)] that(2-4) by auto
  show "small_file s' j w" if "small_file s i v" "length buf \<le> 51200" "small_file s j w" "i \<noteq> j" "ec_put i buf s = Inr (OK, s')"
    using small_file_put[OF that(1,2)] that(3-5) by blast
qed

end
