(* ===== verification/Chfs_Client.thy ===== *)
theory Chfs_Client imports Extent begin

text \<open>
  \<open>chfs_client\<close>: names over directories and bytes at offsets over whole files. The object holds the pointer
  to its \<open>extent_client\<close>, so its state is that of the client. \<open>size_t\<close> and \<open>off_t\<close> are 64-bit words, of which
  \<open>off_t\<close> is signed. A C string is the list of its bytes before the terminating zero.
\<close>

type_synonym chfs_client = extent_client

subsection \<open>The constructors\<close>

definition chfs_init :: "(nat \<Rightarrow> u32) \<Rightarrow> fault + chfs_client option" where
  "chfs_init clk = inode_manager_init clk"

text \<open>The constructor with the two destinations, which it ignores, also writes an empty root.\<close>

definition chfs_init_dst :: "(nat \<Rightarrow> u32) \<Rightarrow> fault + chfs_client option" where
  "chfs_init_dst clk = bindF (inode_manager_init clk) (\<lambda>r. case r of
       None \<Rightarrow> Inr None
     | Some c \<Rightarrow> bindF (ec_put 1 [] c) (\<lambda>(r, c1). Inr (Some c1)))"

subsection \<open>Numbers as text\<close>

text \<open>
  \<open>n2i\<close> reads an \<open>unsigned long long\<close> from a stream: after white space and a sign, the digits up to the
  first other character; 0 without digits, the largest value when they overflow, and the negation
  modulo \<open>2 ^ 64\<close> after a minus. When there is nothing but white space the stream fails before it converts
  anything and the variable is never set: \<open>None\<close>.
\<close>

definition is_digit :: "u8 \<Rightarrow> bool" where
  "is_digit c \<longleftrightarrow> 48 \<le> c \<and> c \<le> 57"

definition is_space :: "u8 \<Rightarrow> bool" where
  "is_space c \<longleftrightarrow> c = 32 \<or> 9 \<le> c \<and> c \<le> 13"

definition digits_value :: "bytes \<Rightarrow> nat" where
  "digits_value ds = foldl (\<lambda>a d. 10 * a + (unat d - 48)) 0 ds"

definition n2i :: "bytes \<Rightarrow> u64 option" where
  "n2i n = (let s = dropWhile is_space n;
               neg = (s \<noteq> [] \<and> hd s = 45);
               t = (if s \<noteq> [] \<and> (hd s = 45 \<or> hd s = 43) then tl s else s);
               v = digits_value (takeWhile is_digit t)
            in if s = [] then None
               else if v \<ge> 2 ^ 64 then Some (- 1) else if neg then Some (- of_nat v) else Some (of_nat v))"

fun dec_digits :: "nat \<Rightarrow> bytes" where
  "dec_digits n = (if n < 10 then [of_nat (48 + n)] else dec_digits (n div 10) @ [of_nat (48 + n mod 10)])"

declare dec_digits.simps [simp del]

definition filename :: "u64 \<Rightarrow> bytes" where
  "filename inum = dec_digits (unat inum)"

subsection \<open>Attributes\<close>

definition isfile :: "u64 \<Rightarrow> chfs_client \<Rightarrow> fault + bool" where
  "isfile inum c = bindF (ec_getattr inum c) (\<lambda>(r, a).
     Inr (if r \<noteq> OK then False else a_type a = T_FILE))"

definition isdir :: "u64 \<Rightarrow> chfs_client \<Rightarrow> fault + bool" where
  "isdir inum c = bindF (ec_getattr inum c) (\<lambda>(r, a).
     Inr (if r \<noteq> OK then False else a_type a = T_DIR))"

record dirinfo =
  i_atime :: u64
  i_mtime :: u64
  i_ctime :: u64

record fileinfo = dirinfo +
  i_size :: u64

text \<open>The second component is what the reference parameter holds on return, if the method has set it.\<close>

definition getfile :: "u64 \<Rightarrow> chfs_client \<Rightarrow> fault + status \<times> fileinfo option" where
  "getfile inum c = bindF (ec_getattr inum c) (\<lambda>(r, a).
     Inr (if r \<noteq> OK then (IOERR, None)
          else (OK, Some \<lparr>i_atime = ucast (a_atime a), i_mtime = ucast (a_mtime a), i_ctime = ucast (a_ctime a),
                          i_size = ucast (a_size a)\<rparr>)))"

definition getdir :: "u64 \<Rightarrow> chfs_client \<Rightarrow> fault + status \<times> dirinfo option" where
  "getdir inum c = bindF (ec_getattr inum c) (\<lambda>(r, a).
     Inr (if r \<noteq> OK then (IOERR, None)
          else (OK, Some \<lparr>i_atime = ucast (a_atime a), i_mtime = ucast (a_mtime a), i_ctime = ucast (a_ctime a)\<rparr>)))"

definition setattr :: "u64 \<Rightarrow> u64 \<Rightarrow> chfs_client \<Rightarrow> fault + status \<times> chfs_client" where
  "setattr ino sz c = ec_set_attr ino sz c"

subsection \<open>Names\<close>

definition readdir :: "u64 \<Rightarrow> chfs_client \<Rightarrow> fault + status \<times> dir_entries" where
  "readdir dir c = bindF (ec_read_dir dir c) (\<lambda>(_, bufs). Inr (OK, bufs))"

text \<open>
  The loop over the entries: the number of the first with the name. The callers of \<open>lookup\<close> set \<open>found\<close> to
  false before; the result \<open>Some\<close> stands for \<open>found\<close> with the value of \<open>ino_out\<close>.
\<close>

fun find_name :: "bytes \<Rightarrow> dir_entries \<Rightarrow> u64 option" where
  "find_name name [] = None"
| "find_name name ((i, n) # es) = (if name = n then Some i else find_name name es)"

definition lookup :: "u64 \<Rightarrow> bytes \<Rightarrow> chfs_client \<Rightarrow> fault + status \<times> u64 option" where
  "lookup parent name c = bindF (readdir parent c) (\<lambda>(_, contents). Inr (OK, find_name name contents))"

text \<open>
  \<open>create\<close>, \<open>mkdir\<close> and \<open>ln\<close> differ in the type only. They return the status, the value \<open>ino_out\<close> is left
  with, and the state. The mode is not used.
\<close>

definition create :: "u64 \<Rightarrow> bytes \<Rightarrow> u64 \<Rightarrow> chfs_client \<Rightarrow> fault + status \<times> u64 \<times> chfs_client" where
  "create parent name ino_out c = bindF (lookup parent name c) (\<lambda>(_, found).
     if found \<noteq> None then Inr (EXIST, ino_out, c)
     else bindF (ec_create T_FILE c) (\<lambda>(r, ino, c1).
       bindF (ec_add_to_dir parent ino name c1) (\<lambda>(_, c2). Inr (r, ino, c2))))"

definition mkdir :: "u64 \<Rightarrow> bytes \<Rightarrow> u64 \<Rightarrow> chfs_client \<Rightarrow> fault + status \<times> u64 \<times> chfs_client" where
  "mkdir parent name ino_out c = bindF (lookup parent name c) (\<lambda>(_, found).
     if found \<noteq> None then Inr (EXIST, ino_out, c)
     else bindF (ec_create T_DIR c) (\<lambda>(r, ino, c1).
       bindF (ec_add_to_dir parent ino name c1) (\<lambda>(_, c2). Inr (r, ino, c2))))"

definition ln :: "u64 \<Rightarrow> bytes \<Rightarrow> u64 \<Rightarrow> chfs_client \<Rightarrow> fault + status \<times> u64 \<times> chfs_client" where
  "ln parent name ino_out c = bindF (lookup parent name c) (\<lambda>(_, found).
     if found \<noteq> None then Inr (EXIST, ino_out, c)
     else bindF (ec_create T_LNK c) (\<lambda>(r, ino, c1).
       bindF (ec_add_to_dir parent ino name c1) (\<lambda>(_, c2). Inr (r, ino, c2))))"

definition unlink :: "u64 \<Rightarrow> bytes \<Rightarrow> chfs_client \<Rightarrow> fault + status \<times> chfs_client" where
  "unlink parent name c = bindF (readdir parent c) (\<lambda>(_, files). case find_name name files of
       None \<Rightarrow> Inr (OK, c)
     | Some inum \<Rightarrow>
         bindF (ec_remove inum c) (\<lambda>(_, c1).
         bindF (ec_remove_from_dir parent inum c1) (\<lambda>(_, c2). Inr (OK, c2))))"

subsection \<open>Bytes at offsets\<close>

text \<open>\<open>std::string::substr\<close>.\<close>

definition substr :: "u64 \<Rightarrow> u64 option \<Rightarrow> bytes \<Rightarrow> fault + bytes" where
  "substr pos len str =
     (if length str < unat pos then Inl Out_of_range
      else Inr (case len of None \<Rightarrow> drop (unat pos) str | Some n \<Rightarrow> take (unat n) (drop (unat pos) str)))"

text \<open>The first comparison is between signed numbers, the second between unsigned ones.\<close>

definition chfs_read :: "u64 \<Rightarrow> u64 \<Rightarrow> u64 \<Rightarrow> chfs_client \<Rightarrow> fault + status \<times> bytes" where
  "chfs_read ino sz off c = bindF (ec_get ino c) (\<lambda>(_, read_str).
     let read_str_size = of_nat (length read_str) :: u32
     in if sint (ucast read_str_size :: u64) < sint off then Inr (OK, [])
        else if ucast read_str_size < off + sz then bindF (substr off None read_str) (\<lambda>str. Inr (OK, str))
        else bindF (substr off (Some sz) read_str) (\<lambda>str. Inr (OK, str)))"

text \<open>
  \<open>std::string::resize\<close> to a larger length. A length above \<open>max_size()\<close> is an error, which is here the
  largest difference of two pointers. The memory for a shorter string is taken to be there.
\<close>

definition max_size :: nat where
  "max_size = 2 ^ 63 - 1"

definition resize :: "nat \<Rightarrow> bytes \<Rightarrow> fault + bytes" where
  "resize n str = (if n \<le> max_size then Inr (take n str @ replicate (n - length str) 0) else Inl Length_error)"

text \<open>
  The loop that copies the data: \<open>i\<close> has 32 bits and the end has 64. When \<open>i\<close> wraps to 0 the condition
  still holds: the index \<open>i - off\<close> is then negative, or the loop starts over for ever, when \<open>off\<close> is 0.
\<close>

function copy_bytes :: "u32 \<Rightarrow> u64 \<Rightarrow> u64 \<Rightarrow> bytes \<Rightarrow> bytes \<Rightarrow> fault + bytes" where
  "copy_bytes i off end buf str =
     (if ucast i < end
      then if int (unat i) < sint off \<or> int (length buf) \<le> int (unat i) - sint off \<or> length str \<le> unat i
        then Inl Out_of_bounds
        else let str1 = str[unat i := buf ! nat (int (unat i) - sint off)]
             in if i = - 1 then (if off = 0 then Inl Diverges else Inl Out_of_bounds)
                else copy_bytes (i + 1) off end buf str1
      else Inr str)"
  by pat_completeness auto
termination
proof (relation "measure (\<lambda>(i, _). 2 ^ 32 - unat i)")
  fix i :: u32 and off ed :: u64 and buf str x :: bytes
  assume "\<not> i = - 1"
  then have "unat (i + 1) = unat i + 1" by (metis Suc_eq_plus1 add.commute add_eq_0_iff unatSuc)
  moreover have "unat i < 2 ^ 32" by (rule order_less_le_trans[OF unsigned_less]) simp
  ultimately show "((i + 1, off, ed, buf, x), (i, off, ed, buf, str)) \<in> measure (\<lambda>(i, _). 2 ^ 32 - unat i)"
    by simp
qed simp

declare copy_bytes.simps [simp del]

definition chfs_write :: "u64 \<Rightarrow> u64 \<Rightarrow> u64 \<Rightarrow> bytes \<Rightarrow> chfs_client \<Rightarrow> fault + status \<times> u64 \<times> chfs_client" where
  "chfs_write ino sz off buf c = bindF (ec_get ino c) (\<lambda>(_, read_str).
     bindF (setattr ino 0 c) (\<lambda>(_, c1).
     let str = (if off + sz > of_nat (length read_str) then resize (unat (off + sz)) read_str else Inr read_str)
     in bindF (bindF str (copy_bytes (ucast off) off (off + sz) buf)) (\<lambda>str1.
        bindF (ec_put ino str1 c1) (\<lambda>(_, c2). Inr (OK, sz, c2)))))"

end
