(* ===== verification/Chfs_Dirs.thy ===== *)
theory Chfs_Dirs imports Chfs_Client begin

text \<open>
  The namespace operations of \<open>chfs_client\<close> on directories of at most 100 entries. What they rely on is
  the locale \<open>name_store\<close>: listing returns what adding and removing left there.
\<close>

subsection \<open>The interface for directories\<close>

lemma find_name_append: "find_name n (es @ fs) = (case find_name n es of Some i \<Rightarrow> Some i | None \<Rightarrow> find_name n fs)"
  by (induction n es rule: find_name.induct) auto

lemma find_name_None: "find_name n es = None \<longleftrightarrow> n \<notin> snd ` set es"
  by (induction n es rule: find_name.induct) auto

lemma find_name_Some: "distinct (map snd es) \<Longrightarrow> find_name n es = Some i \<longleftrightarrow> (i, n) \<in> set es"
  by (induction n es rule: find_name.induct) (auto simp: rev_image_eqI)

lemma find_name_in: "find_name n es = Some i \<Longrightarrow> (i, n) \<in> set es"
  by (induction n es rule: find_name.induct) (auto split: if_splits)

definition name_ok :: "bytes \<Rightarrow> bool" where
  "name_ok n \<longleftrightarrow> length n \<le> 508 \<and> 0 \<notin> set n"

lemma entry_index_nth:
  assumes "ucast inum \<in> fst ` set es"
  shows "entry_index inum es < length es" and "fst (es ! entry_index inum es) = ucast inum"
proof -
  show len: "entry_index inum es < length es" using assms by (induction es) auto
  show "fst (es ! entry_index inum es) = ucast inum"
    using len by (induction es) (auto split: if_splits)
qed

lemma find_name_swap_out:
  assumes "distinct (map snd es)" "k < length es" "snd (es ! k) = n"
  shows "find_name n (swap_out k es) = None" and "c \<noteq> n \<Longrightarrow> find_name c (swap_out k es) = find_name c es"
proof -
  have m: "mset (swap_out k es) = mset es - {# es ! k #}" using assms(2) by (rule mset_swap_out)
  have d: "distinct es" using assms(1) by (simp add: distinct_map)
  have "es ! k \<in># mset es" using assms(2) by simp
  then have "mset es = add_mset (es ! k) (mset (swap_out k es))" unfolding m by simp
  then have "set es = insert (es ! k) (set (swap_out k es))" by (metis set_mset_add_mset_insert set_mset_mset)
  then have set: "set (swap_out k es) = set es - {es ! k}" using swap_out_removes[OF d assms(2)] by blast
  have dm: "distinct (map snd (swap_out k es))" unfolding map_swap_out using assms(1) by (rule distinct_swap_out)
  show "find_name n (swap_out k es) = None"
    unfolding find_name_None set using assms by (auto simp: distinct_map inj_on_def)
  show "find_name c (swap_out k es) = find_name c es" if "c \<noteq> n"
  proof -
    have "find_name c (swap_out k es) = Some i \<longleftrightarrow> find_name c es = Some i" for i
      unfolding find_name_Some[OF dm] find_name_Some[OF assms(1)] set using that assms(3) by (metis Diff_iff empty_iff insert_iff snd_conv)
    then show ?thesis by (cases "find_name c es"; cases "find_name c (swap_out k es)") auto
  qed
qed

locale name_store =
  fixes dir :: "'s \<Rightarrow> u64 \<Rightarrow> dir_entries \<Rightarrow> bool" and room :: "'s \<Rightarrow> nat"
    and list_dir :: "u64 \<Rightarrow> 's \<Rightarrow> fault + status \<times> dir_entries"
    and add_name :: "u64 \<Rightarrow> u64 \<Rightarrow> bytes \<Rightarrow> 's \<Rightarrow> fault + status \<times> 's"
    and del_name :: "u64 \<Rightarrow> u64 \<Rightarrow> 's \<Rightarrow> fault + status \<times> 's"
  assumes list_eq: "dir s p es \<Longrightarrow> list_dir p s = Inr (OK, es)"
    and add_eq: "dir s p es \<Longrightarrow> length es < 100 \<Longrightarrow> name_ok n \<Longrightarrow> 0 < room s \<Longrightarrow> i \<le> 1024 \<Longrightarrow>
      \<exists>s'. add_name p i n s = Inr (OK, s') \<and> dir s' p (es @ [(i, n)]) \<and> room s = Suc (room s')"
    and add_keeps: "dir s p es \<Longrightarrow> length es < 100 \<Longrightarrow> name_ok n \<Longrightarrow> 0 < room s \<Longrightarrow> i \<le> 1024 \<Longrightarrow>
      add_name p i n s = Inr (OK, s') \<Longrightarrow> dir s q fs \<Longrightarrow> q \<noteq> p \<Longrightarrow> dir s' q fs"
    and del_eq: "dir s p es \<Longrightarrow> i \<le> 1024 \<Longrightarrow> i \<in> fst ` set es \<Longrightarrow>
      \<exists>s'. del_name p i s = Inr (OK, s') \<and> dir s' p (swap_out (entry_index (ucast i) es) es) \<and> room s' = Suc (room s)"
begin

lemma add_then_find:
  assumes "dir s p es" "length es < 100" "name_ok n" "0 < room s" "i \<le> 1024" "find_name n es = None"
  obtains s' fs where "add_name p i n s = Inr (OK, s')" "list_dir p s' = Inr (OK, fs)" "dir s' p fs"
    "find_name n fs = Some i" "\<forall>c. c \<noteq> n \<longrightarrow> find_name c fs = find_name c es"
    "\<forall>q gs. dir s q gs \<and> q \<noteq> p \<longrightarrow> list_dir q s' = Inr (OK, gs)"
proof -
  obtain s' where s': "add_name p i n s = Inr (OK, s')" "dir s' p (es @ [(i, n)])" using add_eq[OF assms(1-5)] by blast
  show thesis
  proof (rule that[OF s'(1) list_eq[OF s'(2)] s'(2)])
    show "\<forall>q gs. dir s q gs \<and> q \<noteq> p \<longrightarrow> list_dir q s' = Inr (OK, gs)"
      using add_keeps[OF assms(1-5) s'(1)] list_eq by blast
  qed (use assms(6) in \<open>auto simp: find_name_append split: option.splits\<close>)
qed

lemma del_then_find:
  assumes "dir s p es" "i \<le> 1024" "distinct (map snd es)" "distinct (map fst es)" "find_name n es = Some i"
    "(ucast (ucast i :: u32) :: u64) = i"
  obtains s' fs where "del_name p i s = Inr (OK, s')" "dir s' p fs" "list_dir p s' = Inr (OK, fs)" "room s' = Suc (room s)"
    "find_name n fs = None" "\<forall>c. c \<noteq> n \<longrightarrow> find_name c fs = find_name c es"
proof -
  have e: "(i, n) \<in> set es" using assms(5) by (rule find_name_in)
  then have i: "i \<in> fst ` set es" by force
  let ?k = "entry_index (ucast i) es"
  have k: "?k < length es" "fst (es ! ?k) = i" using entry_index_nth[of "ucast i" es] i assms(6) by simp_all
  have "es ! ?k = (i, n)" using assms(4) e k by (auto simp: distinct_map inj_on_def dest: nth_mem)
  then have "snd (es ! ?k) = n" by simp
  note found = find_name_swap_out[OF assms(3) k(1) this]
  obtain s' where s': "del_name p i s = Inr (OK, s')" "dir s' p (swap_out ?k es)" "room s' = Suc (room s)"
    using del_eq[OF assms(1,2) i] by blast
  show thesis using that[OF s'(1,2) list_eq[OF s'(2)] s'(3)] found by blast
qed

end

subsection \<open>Its interpretation\<close>

text \<open>On the model: a directory of at most 100 entries, under an identifier in the range of inode numbers.\<close>

definition dir_of :: "extent_client \<Rightarrow> u64 \<Rightarrow> dir_entries \<Rightarrow> bool" where
  "dir_of m p es \<longleftrightarrow> ok m \<and> p \<le> 1024 \<and> dir_at m (ucast p) es"

lemma ucast_small [simp]: "i \<le> 1024 \<Longrightarrow> (ucast (ucast i :: u32) :: u64) = i"
  using ucast_id[of i] by (simp add: word_unat_eq_iff)

lemma ucast_inum [simp]: "(ucast (ucast (i :: u32) :: u64) :: u32) = i"
  by (rule bit_word_eqI) (simp add: bit_simps)

lemma ucast_inum_le: "inum_ok i \<Longrightarrow> (ucast i :: u64) \<le> 1024"
  by (simp add: inum_ok_def word_le_nat_alt)

lemma dir_of_list: "dir_of m p es \<Longrightarrow> ec_read_dir p m = Inr (OK, es)"
  using read_dir_at[of m "ucast p" es 1024] by (simp add: dir_of_def ec_defs es_defs)

lemma dir_of_add:
  assumes "dir_of m p es" "length es < 100" "name_ok n" "0 < card (free_blocks m)" "i \<le> 1024"
  obtains m' where "ec_add_to_dir p i n m = Inr (OK, m')" "dir_of m' p (es @ [(i, n)])" "vol.ext {ucast p} m m'"
    "card (free_blocks m) = Suc (card (free_blocks m'))"
    "\<forall>j. inum_ok j \<and> j \<noteq> ucast p \<longrightarrow> inode_at m' j = inode_at m j"
proof -
  have a: "dir_at m (ucast p) es" "ok m" "p \<le> 1024" "free_blocks m \<noteq> {}" "length n \<le> 508" "0 \<notin> set n"
    using assms(1,3,4) by (auto simp: dir_of_def name_ok_def)
  obtain m' where m': "add_to_dir (Suc 1024) (ucast p) (ucast i) n m = Inr m'"
    "dir_at m' (ucast p) (es @ [(ucast (ucast i :: u32), n)])" "vol.ext {ucast p} m m'"
    "card (free_blocks m) = Suc (card (free_blocks m'))"
    "\<forall>j. inum_ok j \<and> j \<noteq> ucast p \<longrightarrow> inode_at m' j = inode_at m j"
    by (rule add_small_does[OF a(1,2) assms(2) a(5,6,4), of 1024 "ucast i"]) (rule that)
  then show thesis
    using that[of m'] a(3) assms(5) vol.ext_ok by (simp add: ec_defs es_defs dir_of_def)
qed

lemma dir_of_ext: "dir_of m q fs \<Longrightarrow> vol.ext X m m' \<Longrightarrow> ucast q \<notin> X \<Longrightarrow> dir_of m' q fs"
  using dir_at_ext[of m "ucast q" fs X m'] vol.ext_ok by (auto simp: dir_of_def)

lemma dir_of_del:
  assumes "dir_of m p es" "i \<le> 1024" "i \<in> fst ` set es"
  defines "k \<equiv> entry_index (ucast i) es"
  obtains m' where "ec_remove_from_dir p i m = Inr (OK, m')" "dir_of m' p (swap_out k es)"
    "\<forall>j. inum_ok j \<and> j \<noteq> ucast p \<longrightarrow> inode_at m' j = inode_at m j"
    "card (free_blocks m') = Suc (card (free_blocks m))"
proof -
  have a: "dir_at m (ucast p) es" "ok m" "es \<noteq> []" using assms(1,3) by (auto simp: dir_of_def)
  have k: "k < length es" unfolding k_def using entry_index_nth[of "ucast i" es] assms(2,3) by simp
  let ?b = "dir_blocks m (ucast p) ! k"
  obtain m' where m': "remove_from_dir (Suc 1024) (ucast p) (ucast i) m = Inr m'" "ok m'" "dir_at m' (ucast p) (swap_out k es)"
    "\<forall>j. inum_ok j \<and> j \<noteq> ucast p \<longrightarrow> inode_at m' j = inode_at m j"
    "\<forall>b. data_block b \<longrightarrow> in_use m' b = (b \<notin> (if k < length es then {?b} else {}) \<and> in_use m b)
       \<and> (b \<notin> (if k < length es then {?b} else {}) \<longrightarrow> data m' b = data m b)"
    by (rule remove_small_does[OF a, of 1024 "ucast i", folded k_def]) (rule that)
  have "?b \<in> set (dir_blocks m (ucast p))" using k dir_at_length[OF a(1)] by (intro nth_mem) simp
  then have b: "data_block ?b" "in_use m ?b" using a(1) unfolding dir_at_def by blast+
  then have "free_blocks m' = insert ?b (free_blocks m)" "?b \<notin> free_blocks m"
    using m'(5) k by (auto simp: vol.free_set_def)
  then have "card (free_blocks m') = Suc (card (free_blocks m))" by simp
  then show thesis using that[of m'] m'(1-4) assms(1) by (simp add: ec_defs es_defs dir_of_def)
qed

interpretation ns: name_store dir_of "\<lambda>m. card (free_blocks m)" ec_read_dir ec_add_to_dir ec_remove_from_dir
proof unfold_locales
  fix s s' :: extent_client and p q i :: u64 and es fs :: dir_entries and n :: bytes
  show "ec_read_dir p s = Inr (OK, es)" if "dir_of s p es" using that by (rule dir_of_list)
  show "\<exists>s'. ec_add_to_dir p i n s = Inr (OK, s') \<and> dir_of s' p (es @ [(i, n)])
      \<and> card (free_blocks s) = Suc (card (free_blocks s'))"
    if "dir_of s p es" "length es < 100" "name_ok n" "0 < card (free_blocks s)" "i \<le> 1024"
    using that by (rule dir_of_add) blast
  show "dir_of s' q fs" if "dir_of s p es" "length es < 100" "name_ok n" "0 < card (free_blocks s)" "i \<le> 1024"
    "ec_add_to_dir p i n s = Inr (OK, s')" "dir_of s q fs" "q \<noteq> p"
    using that(1-5)
  proof (rule dir_of_add)
    fix m' assume "ec_add_to_dir p i n s = Inr (OK, m')" "vol.ext {ucast p} s m'"
    moreover have "(ucast q :: u32) \<notin> {ucast p}" using that(1,7,8) by (simp add: dir_of_def ucast_id_inject)
    ultimately show ?thesis using dir_of_ext that(6,7) by fastforce
  qed
  show "\<exists>s'. ec_remove_from_dir p i s = Inr (OK, s') \<and> dir_of s' p (swap_out (entry_index (ucast i) es) es)
      \<and> card (free_blocks s') = Suc (card (free_blocks s))"
    if "dir_of s p es" "i \<le> 1024" "i \<in> fst ` set es"
    using that by (rule dir_of_del) blast
qed

subsection \<open>Making files, directories and links\<close>

lemma lookup_dir: "dir_of c p es \<Longrightarrow> lookup p name c = Inr (OK, find_name name es)"
  by (simp add: lookup_def readdir_def ns.list_eq)

lemma type_of_new: "t \<in> {1, 2, 3} \<Longrightarrow> scast (ucast t :: u16) = (t :: u32)"
  by auto

lemma attr_of_new:
  assumes "ok c" "i \<le> 1024" "inum_ok (ucast i)" "inode_at c (ucast i) = new_inode t now" "t \<in> {1, 2, 3}"
  shows "ec_getattr i c = Inr (OK, \<lparr>a_type = t, a_atime = now, a_mtime = now, a_ctime = now, a_size = 0\<rparr>)"
proof -
  have "get_file_size (Suc 1024) (ucast i) c = Inr 0"
    unfolding get_file_size.simps(2) using assms by (simp add: get_inode_ok new_inode_def)
  then have "get_file_size max_depth (ucast i) c = Inr 0" by simp
  then show ?thesis
    using assms by (simp add: ec_defs es_defs id_inum_small get_attr_def get_inode_ok new_inode_def type_of_new
        del: insert_iff get_file_size.simps)
qed

lemma small_file_ext: "small_file m j w \<Longrightarrow> vol.ext X m m' \<Longrightarrow> ucast j \<notin> X \<Longrightarrow> small_file m' j w"
proof -
  assume f: "small_file m j w" and e: "vol.ext X m m'" and "ucast j \<notin> X"
  then have "inode_at m' (ucast j) = inode_at m (ucast j)" using vol.ext_inode[OF e] by (simp add: small_file_def)
  then show ?thesis using small_file_frame[OF f vol.ext_ok[OF e]] vol.ext_block[OF e] by blast
qed

text \<open>What \<open>create\<close>, \<open>mkdir\<close> and \<open>ln\<close> do once the name is known to be new: an inode, then an entry for it.\<close>

lemma make_does:
  assumes "dir_of c p es" "length es < 100" "name_ok name" "free_blocks c \<noteq> {}" "free_inodes c \<noteq> {}"
    and t: "t \<in> {1, 2, 3}" and new: "find_name name es = None"
  obtains ino c1 c2 now where "ec_create t c = Inr (OK, ino, c1)" "ec_add_to_dir p ino name c1 = Inr (OK, c2)"
    "dir_of c2 p (es @ [(ino, name)])" "ino \<le> 1024" "inum_ok (ucast ino)" "inode_at c2 (ucast ino) = new_inode t now"
    "vol.ext {ucast p} c c2" "card (free_blocks c) = Suc (card (free_blocks c2))" "itype (inode_at c (ucast ino)) = 0"
    "\<forall>j. inum_ok j \<and> j \<noteq> ucast p \<and> j \<noteq> ucast ino \<longrightarrow> inode_at c2 j = inode_at c j" "ino \<noteq> p"
    "lookup p name c2 = Inr (OK, Some ino)" "\<forall>n. n \<noteq> name \<longrightarrow> lookup p n c2 = lookup p n c"
proof -
  have ok: "ok c" and d: "dir_at c (ucast p) es" using assms(1) by (auto simp: dir_of_def)
  obtain j where "inum_ok j" "itype (inode_at c j) = 0" using assms(5) by (auto simp: free_inodes_def)
  then obtain i c1 where al: "alloc_inode t c = Inr (i, c1)" using vol.create_returns[OF ok t] by blast
  note made = vol.create_does[OF ok t al]
  let ?ino = "ucast i :: u64"
  have le: "?ino \<le> 1024" using made ucast_inum_le by blast
  note e1 = vol.ext_create[OF ok t al]
  have d1: "dir_of c1 p es" using dir_of_ext[OF assms(1) e1[of "{}"]] by simp
  have "free_blocks c1 = free_blocks c" by (rule vol.free_set_create[OF ok t al])
  then have room: "0 < card (free_blocks c1)" and card: "card (free_blocks c1) = card (free_blocks c)"
    using assms(4) by (auto simp: card_gt_0_iff)
  obtain c2 where c2: "ec_add_to_dir p ?ino name c1 = Inr (OK, c2)" "dir_of c2 p (es @ [(?ino, name)])" "vol.ext {ucast p} c1 c2"
    "card (free_blocks c1) = Suc (card (free_blocks c2))" "\<forall>j. inum_ok j \<and> j \<noteq> ucast p \<longrightarrow> inode_at c2 j = inode_at c1 j"
    by (rule dir_of_add[OF d1 assms(2,3) room le]) (rule that)
  obtain fs where "ec_read_dir p c2 = Inr (OK, fs)" "find_name name fs = Some ?ino"
    "\<forall>n. n \<noteq> name \<longrightarrow> find_name n fs = find_name n es"
    by (rule ns.add_then_find[OF d1 assms(2,3) room le new]) (use c2(1) in simp)
  then have found: "lookup p name c2 = Inr (OK, Some ?ino)" "\<forall>n. n \<noteq> name \<longrightarrow> lookup p n c2 = lookup p n c"
    by (simp_all add: lookup_def readdir_def ns.list_eq[OF assms(1)])
  have "i \<noteq> ucast p" using made d by (auto simp: dir_at_def)
  then have ne: "?ino \<noteq> p" by auto
  obtain now where "inode_at c1 i = new_inode t now" using made by blast
  then have fresh: "inode_at c2 i = new_inode t now" using c2(5) made \<open>i \<noteq> ucast p\<close> by simp
  show thesis
  proof (rule that[of ?ino c1 c2 now])
    show "ec_create t c = Inr (OK, ?ino, c1)" using al by (simp add: ec_defs es_defs)
    show "vol.ext {ucast p} c c2" using vol.ext_trans[OF e1 c2(3)] .
    show "\<forall>j. inum_ok j \<and> j \<noteq> ucast p \<and> j \<noteq> ucast ?ino \<longrightarrow> inode_at c2 j = inode_at c j" using c2(5) made by simp
  qed (use made fresh c2 ne le card found in simp_all)
qed

text \<open>
  C9: \<open>create\<close> of a new name makes an empty file with a new number, which \<open>lookup\<close> finds under the
  name, and leaves the other names and the other files as they were.
\<close>

theorem create_makes_file:
  assumes "dir_of c p es" "length es < 100" "name_ok name" "free_blocks c \<noteq> {}" "free_inodes c \<noteq> {}"
    and "find_name name es = None"
  shows "\<exists>ino c'. create p name x c = Inr (OK, ino, c') \<and> lookup p name c' = Inr (OK, Some ino)
    \<and> isfile ino c' = Inr True \<and> ec_get ino c' = Inr (OK, [])
    \<and> (\<forall>n. n \<noteq> name \<longrightarrow> lookup p n c' = lookup p n c)
    \<and> (\<forall>j w. small_file c j w \<and> j \<noteq> p \<longrightarrow> ec_get j c' = Inr (OK, w))"
proof -
  obtain ino c1 c2 now where m: "ec_create 2 c = Inr (OK, ino, c1)" "ec_add_to_dir p ino name c1 = Inr (OK, c2)"
    "dir_of c2 p (es @ [(ino, name)])" "ino \<le> 1024" "inum_ok (ucast ino)" "inode_at c2 (ucast ino) = new_inode 2 now"
    "vol.ext {ucast p} c c2" "lookup p name c2 = Inr (OK, Some ino)" "\<forall>n. n \<noteq> name \<longrightarrow> lookup p n c2 = lookup p n c"
    by (rule make_does[OF assms(1-5) _ assms(6), of 2]) (use that in auto)
  have ok2: "ok c2" using m(3) by (simp add: dir_of_def)
  have "create p name x c = Inr (OK, ino, c2)" using m(1,2) assms(6) by (simp add: create_def lookup_dir[OF assms(1)])
  moreover have "isfile ino c2 = Inr True" using attr_of_new[OF ok2 m(4-6)] by (simp add: isfile_def)
  moreover have "small_file c2 ino []" using ok2 m(4-6) by (simp add: small_file_def new_inode_def)
  then have "ec_get ino c2 = Inr (OK, [])" by (rule xs.get_small)
  moreover have "ec_get j c2 = Inr (OK, w)" if "small_file c j w" "j \<noteq> p" for j w
  proof (rule xs.get_small, rule small_file_ext[OF that(1) m(7)])
    show "ucast j \<notin> {ucast p :: u32}" using that assms(1) by (simp add: dir_of_def small_file_def ucast_id_inject)
  qed
  ultimately show ?thesis using m(8,9) by blast
qed

text \<open>
  \<open>mkdir\<close> of a new name makes an empty directory with a new number, which \<open>lookup\<close> finds under
  the name.
\<close>

lemma mkdir_makes_dir:
  assumes "dir_of c p es" "length es < 100" "name_ok name" "free_blocks c \<noteq> {}" "free_inodes c \<noteq> {}"
    and "find_name name es = None"
  shows "\<exists>ino c'. mkdir p name x c = Inr (OK, ino, c') \<and> lookup p name c' = Inr (OK, Some ino)
    \<and> isdir ino c' = Inr True \<and> readdir ino c' = Inr (OK, [])
    \<and> (\<forall>n. n \<noteq> name \<longrightarrow> lookup p n c' = lookup p n c)
    \<and> (\<forall>q fs. dir_of c q fs \<and> q \<noteq> p \<longrightarrow> readdir q c' = Inr (OK, fs))"
proof -
  obtain ino c1 c2 now where m: "ec_create 1 c = Inr (OK, ino, c1)" "ec_add_to_dir p ino name c1 = Inr (OK, c2)"
    "dir_of c2 p (es @ [(ino, name)])" "ino \<le> 1024" "inum_ok (ucast ino)" "inode_at c2 (ucast ino) = new_inode 1 now"
    "vol.ext {ucast p} c c2" "lookup p name c2 = Inr (OK, Some ino)" "\<forall>n. n \<noteq> name \<longrightarrow> lookup p n c2 = lookup p n c"
    by (rule make_does[OF assms(1-5) _ assms(6), of 1]) (use that in auto)
  have ok2: "ok c2" using m(3) by (simp add: dir_of_def)
  have "mkdir p name x c = Inr (OK, ino, c2)" using m(1,2) assms(6) by (simp add: mkdir_def lookup_dir[OF assms(1)])
  moreover have "isdir ino c2 = Inr True" using attr_of_new[OF ok2 m(4-6)] by (simp add: isdir_def)
  moreover have "dir_of c2 ino []" using ok2 m(4-6) by (simp add: dir_of_def dir_at_def new_inode_def)
  then have "readdir ino c2 = Inr (OK, [])" by (simp add: readdir_def ns.list_eq)
  moreover have "readdir q c2 = Inr (OK, fs)" if "dir_of c q fs" "q \<noteq> p" for q fs
  proof -
    have "ucast q \<notin> {ucast p :: u32}" using that assms(1) by (simp add: dir_of_def ucast_id_inject)
    from dir_of_ext[OF that(1) m(7) this] show ?thesis by (simp add: readdir_def ns.list_eq)
  qed
  ultimately show ?thesis using m(8,9) by blast
qed

text \<open>A name that the directory has is not made again: the answer is EXIST and nothing changes.\<close>

lemma make_existing:
  assumes "dir_of c p es" "name \<in> snd ` set es"
  shows "create p name x c = Inr (EXIST, x, c) \<and> mkdir p name x c = Inr (EXIST, x, c) \<and> ln p name x c = Inr (EXIST, x, c)"
proof -
  have "find_name name es \<noteq> None" using assms(2) by (simp add: find_name_None)
  then show ?thesis by (simp add: create_def mkdir_def ln_def lookup_dir[OF assms(1)])
qed

text \<open>A new disk, for the witnesses.\<close>

lemma example_root:
  obtains c where "chfs_init (\<lambda>n. 0) = Inr (Some c)" "dir_of c 1 []" "free_blocks c \<noteq> {}" "free_inodes c \<noteq> {}"
    "card (free_blocks c) = 2095612"
proof -
  obtain m where m: "inode_manager_init (\<lambda>n. 0) = Inr (Some m)" "ok m" "dir_at m 1 []" "free_blocks m = {b. data_block b}"
    "\<forall>j. inum_ok j \<and> j \<noteq> 1 \<longrightarrow> itype (inode_at m j) = 0"
    by (rule example_dir) (rule that)
  have "free_blocks m \<noteq> {}" using card_data_blocks unfolding m(4) by (metis card.empty zero_neq_numeral)
  moreover have "2 \<in> free_inodes m" using m(5) by (simp add: free_inodes_def inum_ok_def)
  moreover have "card (free_blocks m) = 2095612" unfolding m(4) by (rule card_data_blocks)
  ultimately show thesis using that m(1-3) by (auto simp: chfs_init_def dir_of_def)
qed

theorem create_makes_file_witness:
  "\<exists>c ino c'. chfs_init (\<lambda>n. 0) = Inr (Some c) \<and> create 1 [97] 0 c = Inr (OK, ino, c')
     \<and> lookup 1 [97] c' = Inr (OK, Some ino) \<and> lookup 1 [98] c' = Inr (OK, None) \<and> ec_get ino c' = Inr (OK, [])"
proof -
  obtain c where c: "chfs_init (\<lambda>n. 0) = Inr (Some c)" "dir_of c 1 []" "free_blocks c \<noteq> {}" "free_inodes c \<noteq> {}"
    by (rule example_root) (rule that)
  have "\<exists>ino c'. create 1 [97] 0 c = Inr (OK, ino, c') \<and> lookup 1 [97] c' = Inr (OK, Some ino)
    \<and> isfile ino c' = Inr True \<and> ec_get ino c' = Inr (OK, [])
    \<and> (\<forall>n. n \<noteq> [97] \<longrightarrow> lookup 1 n c' = lookup 1 n c)
    \<and> (\<forall>j w. small_file c j w \<and> j \<noteq> 1 \<longrightarrow> ec_get j c' = Inr (OK, w))"
    using c(2) _ _ c(3,4) by (rule create_makes_file) (simp_all add: name_ok_def)
  moreover have "lookup 1 [98] c = Inr (OK, None)" using lookup_dir[OF c(2)] by simp
  ultimately show ?thesis using c(1) by fastforce
qed

lemma example_named:
  obtains c ino where "dir_of c 1 [(ino, [97])]" "ino \<le> 1024" "inum_ok (ucast ino)" "ino \<noteq> 1"
    "\<exists>now. inode_at c (ucast ino) = new_inode 2 now" "small_file c ino []" "card (free_blocks c) = 2095611"
proof -
  obtain c where c: "dir_of c 1 []" "free_blocks c \<noteq> {}" "free_inodes c \<noteq> {}" "card (free_blocks c) = 2095612"
    by (rule example_root) (rule that)
  have n: "length ([] :: dir_entries) < 100" "name_ok [97]" "find_name [97] [] = None" "(2 :: u32) \<in> {1, 2, 3}"
    by (simp_all add: name_ok_def)
  obtain ino c1 c2 now where m: "dir_of c2 1 ([] @ [(ino, [97])])" "ino \<le> 1024" "inum_ok (ucast ino)"
    "inode_at c2 (ucast ino) = new_inode 2 now" "ino \<noteq> 1" "card (free_blocks c) = Suc (card (free_blocks c2))"
    by (rule make_does[OF c(1) n(1,2) c(2,3) n(4,3)]) (rule that)
  then have "small_file c2 ino []" by (simp add: small_file_def new_inode_def dir_of_def)
  then show thesis using that[of c2 ino] m c(4) by auto
qed

subsection \<open>Removing a name\<close>

text \<open>
  The blocks that \<open>remove_file\<close> frees, all the pointers up to the first zero one, and what must hold for
  that to be harmless: they are in use, each once, and are none of the blocks of the directory.
\<close>

definition file_ptrs :: "extent_client \<Rightarrow> u32 \<Rightarrow> u32 list" where
  "file_ptrs m i = takeWhile (\<lambda>b. b \<noteq> 0) (take 100 (iblocks (inode_at m i)))"

definition apart :: "extent_client \<Rightarrow> u32 \<Rightarrow> u32 \<Rightarrow> bool" where
  "apart m i p \<longleftrightarrow> i \<noteq> p \<and> distinct (file_ptrs m i) \<and> (\<forall>b \<in> set (file_ptrs m i). data_block b \<and> in_use m b)
     \<and> set (file_ptrs m i) \<inter> set (dir_blocks m p) = {}"

definition small_inode :: "extent_client \<Rightarrow> u64 \<Rightarrow> bool" where
  "small_inode m i \<longleftrightarrow> i \<le> 1024 \<and> inum_ok (ucast i) \<and> itype (inode_at m (ucast i)) \<noteq> 0
     \<and> isize (inode_at m (ucast i)) \<le> 100"

lemma remove_keeps_dir:
  assumes "dir_of c p es" "small_inode c i" "apart c (ucast i) (ucast p)"
  obtains c1 where "ec_remove i c = Inr (OK, c1)" "dir_of c1 p es" "itype (inode_at c1 (ucast i)) = 0"
    "card (free_blocks c1) = card (free_blocks c) + length (file_ptrs c (ucast i))"
    "\<forall>j. inum_ok j \<and> j \<noteq> ucast i \<longrightarrow> inode_at c1 j = inode_at c j"
proof -
  let ?i = "ucast i :: u32" and ?p = "ucast p :: u32"
  have d: "ok c" "dir_at c ?p es" "p \<le> 1024" using assms(1) by (auto simp: dir_of_def)
  have i: "i \<le> 1024" "inum_ok ?i" "itype (inode_at c ?i) \<noteq> 0" "isize (inode_at c ?i) \<le> 100"
    using assms(2) by (auto simp: small_inode_def)
  have a: "?i \<noteq> ?p" "distinct (file_ptrs c ?i)" "\<forall>b \<in> set (file_ptrs c ?i). data_block b \<and> in_use c b"
    "set (file_ptrs c ?i) \<inter> set (dir_blocks c ?p) = {}" using assms(3) by (auto simp: apart_def)
  obtain c1 where c1: "remove_file (Suc 1024) ?i c = Inr c1" "ok c1" "inode_at c1 ?i = zero_inode"
    "\<forall>j. inum_ok j \<and> j \<noteq> ?i \<longrightarrow> inode_at c1 j = inode_at c j"
    "\<forall>b. data_block b \<longrightarrow> in_use c1 b = (b \<notin> set (file_ptrs c ?i) \<and> in_use c b)
       \<and> (b \<notin> set (file_ptrs c ?i) \<longrightarrow> data c1 b = data c b)"
    using remove_direct[OF d(1) i(2-4) file_ptrs_def a(2,3), of 1024] by blast
  have same: "inode_at c1 ?p = inode_at c ?p" using c1(4) a(1) d(2) by (simp add: dir_at_def)
  have kept: "in_use c1 b \<and> data c1 b = data c b" if "b \<in> set (dir_blocks c ?p)" for b
    using that a(4) c1(5) d(2) by (auto simp: dir_at_def)
  have "map (\<lambda>b. dir_entry (data c1 b)) (dir_blocks c ?p) = map (\<lambda>b. dir_entry (data c b)) (dir_blocks c ?p)"
    using kept by (intro map_cong) simp_all
  then have "dir_at c1 ?p es" using d(2) kept unfolding dir_at_def same by auto
  then have dir1: "dir_of c1 p es" using c1(2) d(3) by (simp add: dir_of_def)
  have "free_blocks c1 = free_blocks c \<union> set (file_ptrs c ?i)" "free_blocks c \<inter> set (file_ptrs c ?i) = {}"
    using c1(5) a(3) by (auto simp: vol.free_set_def)
  then have "card (free_blocks c1) = card (free_blocks c) + length (file_ptrs c ?i)"
    using distinct_card[OF a(2)] by (simp add: card_Un_disjoint)
  moreover have "remove_file max_depth ?i c = Inr c1" using c1(1) by simp
  then have "ec_remove i c = Inr (OK, c1)" using i(1) by (simp add: ec_defs es_defs id_inum_small del: remove_file.simps)
  ultimately show thesis using that dir1 c1(3,4) by (simp add: zero_inode_def)
qed

text \<open>
  C10: In a directory of at most 100 entries, \<open>unlink\<close> of the name of an inode of at most 100 blocks, all different,
  in use and none of them the directory's, removes the name, and no other name, and frees the inode, its
  blocks and the block of the entry. The inode may be that of a file, a link or a directory, for unlink does not ask.
\<close>

theorem unlink_removes:
  assumes "dir_of c p es" "distinct (map snd es)" "distinct (map fst es)" "find_name name es = Some i"
    and "small_inode c i" "apart c (ucast i) (ucast p)"
  shows "\<exists>c'. unlink p name c = Inr (OK, c') \<and> lookup p name c' = Inr (OK, None)
    \<and> (\<forall>n. n \<noteq> name \<longrightarrow> lookup p n c' = lookup p n c) \<and> itype (inode_at c' (ucast i)) = 0
    \<and> card (free_blocks c') = card (free_blocks c) + length (file_ptrs c (ucast i)) + 1"
proof -
  obtain c1 where c1: "ec_remove i c = Inr (OK, c1)" "dir_of c1 p es" "itype (inode_at c1 (ucast i)) = 0"
    "card (free_blocks c1) = card (free_blocks c) + length (file_ptrs c (ucast i))"
    using assms(1,5,6) by (rule remove_keeps_dir) (rule that)
  have i: "i \<le> 1024" "inum_ok (ucast i)" using assms(5) by (auto simp: small_inode_def)
  obtain c2 fs where c2: "ec_remove_from_dir p i c1 = Inr (OK, c2)" "dir_of c2 p fs"
    "card (free_blocks c2) = Suc (card (free_blocks c1))"
    "find_name name fs = None" "\<forall>n. n \<noteq> name \<longrightarrow> find_name n fs = find_name n es"
    using c1(2) i(1) assms(2-4) ucast_small[OF i(1)] by (rule ns.del_then_find) (rule that)
  have "i \<in> fst ` set es" using find_name_in[OF assms(4)] by force
  then obtain c3 where "ec_remove_from_dir p i c1 = Inr (OK, c3)"
    "\<forall>j. inum_ok j \<and> j \<noteq> ucast p \<longrightarrow> inode_at c3 j = inode_at c1 j"
    by (rule dir_of_del[OF c1(2) i(1)]) (rule that)
  moreover have "(ucast i :: u32) \<noteq> ucast p" using assms(6) by (simp add: apart_def)
  ultimately have "itype (inode_at c2 (ucast i)) = 0" using c2(1) c1(3) i(2) by simp
  moreover have "unlink p name c = Inr (OK, c2)"
    using assms(4) c1(1) c2(1) by (simp add: unlink_def readdir_def ns.list_eq[OF assms(1)])
  ultimately show ?thesis
    using c2(3-5) c1(4) by (simp add: lookup_dir[OF c2(2)] lookup_dir[OF assms(1)])
qed

theorem unlink_removes_witness:
  "\<exists>c ino c'. lookup 1 [97] c = Inr (OK, Some ino) \<and> unlink 1 [97] c = Inr (OK, c') \<and> lookup 1 [97] c' = Inr (OK, None)"
proof -
  obtain c ino where c: "dir_of c 1 [(ino, [97])]" "ino \<le> 1024" "inum_ok (ucast ino)" "ino \<noteq> 1"
    "\<exists>now. inode_at c (ucast ino) = new_inode 2 now" by (rule example_named) (rule that)
  have "file_ptrs c (ucast ino) = []" using c(5) by (auto simp: file_ptrs_def new_inode_def)
  moreover have "(ucast ino :: u32) \<noteq> ucast (1 :: u64)" using c(2,4) ucast_id_inject[of ino 1] by simp
  ultimately have "apart c (ucast ino) (ucast (1 :: u64))" by (simp add: apart_def)
  moreover have "small_inode c ino" using c(2,3,5) by (auto simp: small_inode_def new_inode_def)
  ultimately have "\<exists>c'. unlink 1 [97] c = Inr (OK, c') \<and> lookup 1 [97] c' = Inr (OK, None)
    \<and> (\<forall>n. n \<noteq> [97] \<longrightarrow> lookup 1 n c' = lookup 1 n c) \<and> itype (inode_at c' (ucast ino)) = 0
    \<and> card (free_blocks c') = card (free_blocks c) + length (file_ptrs c (ucast ino)) + 1"
    using c(1) by (intro unlink_removes[where es = "[(ino, [97])]"]) simp_all
  moreover have "lookup 1 [97] c = Inr (OK, Some ino)" using lookup_dir[OF c(1)] by simp
  ultimately show ?thesis by blast
qed

text \<open>\<open>unlink\<close> of a name that the directory does not have reports success and changes nothing.\<close>

lemma unlink_absent:
  assumes "dir_of c p es" "name \<notin> snd ` set es"
  shows "unlink p name c = Inr (OK, c)"
proof -
  have "find_name name es = None" using assms(2) by (simp add: find_name_None)
  then show ?thesis by (simp add: unlink_def readdir_def ns.list_eq[OF assms(1)])
qed

end
