(* ===== verification/Chfs_Files.thy ===== *)
theory Chfs_Files imports Chfs_Dirs begin

text \<open>
  Reading and writing at offsets through \<open>chfs_client\<close>, for files of at most 51200 bytes, and the decimal
  names of numbers. The facts about the store underneath come from the locale \<open>extent_store\<close>.
\<close>

subsection \<open>Numbers as text\<close>

lemma digits_snoc: "digits_value (ds @ [d]) = 10 * digits_value ds + (unat d - 48)"
  by (simp add: digits_value_def)

lemma unat_digit: "k < 10 \<Longrightarrow> unat (of_nat (48 + k) :: u8) = 48 + k"
  by (simp add: unat_of_nat del: of_nat_add)

lemma is_digit_of: "k < 10 \<Longrightarrow> is_digit (of_nat (48 + k))"
  using unat_digit[of k] by (simp add: is_digit_def word_le_nat_alt)

lemma dec_digits_ne: "dec_digits n \<noteq> []"
  by (simp add: dec_digits.simps[of n])

lemma dec_digits_digit: "d \<in> set (dec_digits n) \<Longrightarrow> is_digit d"
proof (induction n rule: dec_digits.induct)
  case (1 n)
  then show ?case
    by (cases "n < 10") (auto simp: dec_digits.simps[of n] is_digit_of simp del: of_nat_add)
qed

lemma digits_value_dec: "digits_value (dec_digits n) = n"
proof (induction n rule: dec_digits.induct)
  case (1 n)
  show ?case
  proof (cases "n < 10")
    case True
    then show ?thesis by (simp add: dec_digits.simps[of n] digits_value_def unat_digit del: of_nat_add)
  next
    case False
    then show ?thesis using 1[OF False]
      by (simp add: dec_digits.simps[of n] digits_snoc unat_digit del: of_nat_add)
  qed
qed

text \<open>
  \<open>n2i\<close> reads back every number that \<open>filename\<close> prints.
\<close>

lemma n2i_filename: "n2i (filename inum) = Some inum"
proof -
  let ?s = "dec_digits (unat inum)"
  have digit: "is_digit (hd ?s)" using dec_digits_digit dec_digits_ne by (metis hd_in_set)
  then have "dropWhile is_space ?s = ?s"
    by (cases ?s) (auto simp: is_digit_def is_space_def word_le_nat_alt)
  moreover have "hd ?s \<noteq> 45" "hd ?s \<noteq> 43" using digit by (auto simp: is_digit_def word_le_nat_alt)
  moreover have "takeWhile is_digit ?s = ?s" using dec_digits_digit by (intro takeWhile_eq_all_conv[THEN iffD2]) blast
  moreover have "\<not> 2 ^ 64 \<le> unat inum" using unsigned_less[of inum] by (simp add: not_le)
  moreover have "?s \<noteq> []" by (rule dec_digits_ne)
  ultimately show ?thesis by (simp add: n2i_def filename_def Let_def digits_value_dec del: power.simps takeWhile_eq_all_conv)
qed

subsection \<open>Reading\<close>

lemma small_file_length: "small_file c ino v \<Longrightarrow> length v \<le> 51200"
proof -
  assume f: "small_file c ino v"
  have "length (concat (map (data c) bs)) = 512 * length bs" if "\<forall>b \<in> set bs. length (data c b) = 512" for bs
    using that by (induction bs) auto
  then have "length (concat (map (data c) (dir_blocks c (ucast ino)))) = 512 * length (dir_blocks c (ucast ino))"
    using f by (simp add: small_file_def)
  moreover have "length (dir_blocks c (ucast ino)) \<le> 100" using f by (simp add: small_file_def word_le_nat_alt)
  ultimately have "length (concat (map (data c) (dir_blocks c (ucast ino)))) \<le> 51200" by linarith
  then show ?thesis using f strip0_length[of "concat (map (data c) (dir_blocks c (ucast ino)))"]
    by (simp add: small_file_def)
qed

lemma sint_small: "unat (w :: u64) < 2 ^ 63 \<Longrightarrow> sint w = int (unat w)"
proof -
  assume "unat w < 2 ^ 63"
  then have "int (unat w) < int (2 ^ 63)" by (simp only: of_nat_less_iff)
  then have lt: "uint w < 2 ^ 63" by simp
  have "0 \<le> uint w" by simp
  moreover have "- (2 ^ 63) \<le> (0 :: int)" by simp
  ultimately have "- (2 ^ 63) \<le> uint w" by (rule order_trans[rotated])
  then have "signed_take_bit 63 (uint w) = uint w" using lt by (rule signed_take_bit_int_eq_self)
  then show ?thesis by (simp add: sint_uint)
qed

lemma read_slice:
  assumes get: "ec_get ino c = Inr (OK, v)" and len: "length v < 2 ^ 31" and "unat off + unat sz < 2 ^ 63"
  shows "chfs_read ino sz off c = Inr (OK, take (unat sz) (drop (unat off) v))"
proof -
  have "unat (of_nat (length v) :: u32) = length v" using len by (simp add: unat_of_nat take_bit_nat_eq_self)
  then have n: "unat (ucast (of_nat (length v) :: u32) :: u64) = length v" by (simp only: unat_size)
  have sum: "unat (off + sz) = unat off + unat sz" using assms(3) by (simp add: unat_add_lem[symmetric])
  have "sint off = int (unat off)" using assms(3) by (intro sint_small) simp
  moreover have "sint (ucast (of_nat (length v) :: u32) :: u64) = int (length v)"
    using len sint_small[of "ucast (of_nat (length v) :: u32)"] unfolding n by simp
  ultimately have signed: "sint (ucast (of_nat (length v) :: u32) :: u64) < sint off \<longleftrightarrow> length v < unat off"
    by (simp only: of_nat_less_iff)
  have unsigned: "ucast (of_nat (length v) :: u32) < off + sz \<longleftrightarrow> length v < unat off + unat sz"
    by (simp only: word_less_nat_alt n sum)
  show ?thesis
    unfolding chfs_read_def get bindF_Inr case_prod_conv Let_def signed unsigned substr_def
    by (cases "length v < unat off"; cases "length v < unat off + unat sz") simp_all
qed

lemma read_small:
  "small_file c ino v \<Longrightarrow> unat off + unat sz < 2 ^ 63 \<Longrightarrow> chfs_read ino sz off c = Inr (OK, take (unat sz) (drop (unat off) v))"
  using xs.get_small small_file_length[of c ino v] by (intro read_slice) simp_all


subsection \<open>Writing\<close>

text \<open>The content \<open>v\<close> with \<open>d\<close> written at offset \<open>off\<close>, a hole before it filled with zero bytes.\<close>

definition write_at :: "nat \<Rightarrow> bytes \<Rightarrow> bytes \<Rightarrow> bytes" where
  "write_at off d v = take off v @ replicate (off - length v) 0 @ d @ drop (off + length d) v"

lemma write_at_length: "length (write_at off d v) = max (length v) (off + length d)"
  by (simp add: write_at_def)

lemma next_index: "i \<noteq> - 1 \<Longrightarrow> unat (i + 1 :: u32) = unat i + 1"
  by (metis Suc_eq_plus1 add.commute add_eq_0_iff unatSuc)

text \<open>The copying loop, once the string is long enough: it overwrites the bytes from \<open>i\<close> to the end.\<close>

lemma copy_bytes_does:
  assumes "unat off \<le> unat i" "unat i \<le> unat ed" "unat ed \<le> length str" "unat ed < 2 ^ 32" "unat ed - unat off \<le> length buf"
  shows "copy_bytes i off ed buf str
    = Inr (take (unat i) str @ take (unat ed - unat i) (drop (unat i - unat off) buf) @ drop (unat ed) str)"
  using assms
proof (induction "unat ed - unat i" arbitrary: i str)
  case 0
  then have "unat i = unat ed" by simp
  moreover have "\<not> ucast i < ed" using 0 by (simp add: word_less_nat_alt)
  ultimately show ?case by (simp add: copy_bytes.simps[of i])
next
  case (Suc n)
  let ?k = "unat i - unat off" and ?str = "str[unat i := buf ! (unat i - unat off)]"
  have lt: "ucast i < ed" "unat i < unat ed" using Suc(2) by (simp_all add: word_less_nat_alt)
  have off: "sint off = int (unat off)" using Suc.prems by (intro sint_small) simp
  have ix: "nat (int (unat i) - int (unat off)) = ?k" by (simp only: nat_minus_as_int)
  have guard: "\<not> (int (unat i) < sint off \<or> int (length buf) \<le> int (unat i) - sint off \<or> length str \<le> unat i)"
    unfolding off using Suc.prems lt(2) by linarith
  show ?case
  proof (cases "i = - 1")
    case True
    moreover have "(- 1 :: u32) = 4294967295" by simp
    ultimately have "i = 4294967295" by (simp only:)
    then have "unat i = 4294967295" by simp
    then show ?thesis using lt(2) Suc.prems(4) by simp
  next
    case False
    note i1 = next_index[OF False]
    have "copy_bytes (i + 1) off ed buf ?str
        = Inr (take (unat i + 1) ?str @ take (unat ed - (unat i + 1)) (drop (unat i + 1 - unat off) buf) @ drop (unat ed) ?str)"
      unfolding i1[symmetric] using Suc(2) Suc.prems lt(2) i1 by (intro Suc(1)) simp_all
    moreover have "take (unat i + 1) ?str = take (unat i) str @ [buf ! ?k]"
      using Suc.prems lt(2) by (simp add: take_Suc_conv_app_nth)
    moreover have "take (unat ed - unat i) (drop ?k buf)
        = buf ! ?k # take (unat ed - (unat i + 1)) (drop (unat i + 1 - unat off) buf)"
      using Suc.prems lt(2) by (simp add: Cons_nth_drop_Suc[symmetric] Suc_diff_le take_Cons')
    ultimately show ?thesis
      using guard False lt(1) Suc.prems lt(2) unfolding copy_bytes.simps[of i] off ix by simp
  qed
qed

lemma copy_at:
  assumes "unat off + unat sz < 2 ^ 31" "unat sz \<le> length d" "length v < 2 ^ 31"
  shows "bindF (if off + sz > of_nat (length v) then resize (unat (off + sz)) v else Inr v) (copy_bytes (ucast off) off (off + sz) d)
    = Inr (write_at (unat off) (take (unat sz) d) v)"
proof -
  have sum: "unat (off + sz) = unat off + unat sz" using assms(1) by (simp add: unat_add_lem[symmetric])
  have len: "unat (of_nat (length v) :: u64) = length v" using assms(3) by (simp add: unat_of_nat take_bit_nat_eq_self)
  let ?str = "if unat off + unat sz > length v then v @ replicate (unat off + unat sz - length v) 0 else v"
  have str: "(if off + sz > of_nat (length v) then resize (unat (off + sz)) v else Inr v) = Inr ?str"
    using assms(1) by (simp add: word_less_nat_alt len sum resize_def max_size_def)
  have i: "unat (ucast off :: u32) = unat off"
    using assms(1) by (simp add: unsigned_ucast_eq take_bit_nat_eq_self)
  have "unat off + unat sz \<le> length ?str" by simp
  then have "copy_bytes (ucast off) off (off + sz) d ?str
      = Inr (take (unat off) ?str @ take (unat sz) d @ drop (unat off + unat sz) ?str)"
    using copy_bytes_does[of off "ucast off" "off + sz" ?str d] assms unfolding i sum by simp
  also have "take (unat off) ?str @ take (unat sz) d @ drop (unat off + unat sz) ?str = write_at (unat off) (take (unat sz) d) v"
    unfolding write_at_def using assms(2) by (simp add: min_def)
  finally show ?thesis unfolding str by simp
qed

lemma write_small:
  assumes "small_file c ino v" "unat off + unat sz \<le> 51200" "unat sz \<le> length d"
    and "n_blocks (int (length (write_at (unat off) (take (unat sz) d) v))) \<le> card (free_blocks c)"
  obtains c' where "chfs_write ino sz off d c = Inr (OK, sz, c')"
    "small_file c' ino (strip0 (write_at (unat off) (take (unat sz) d) v))"
    "card (free_blocks c') + n_blocks (int (length (write_at (unat off) (take (unat sz) d) v))) = card (free_blocks c)"
    "\<And>j w. small_file c j w \<Longrightarrow> ino \<noteq> j \<Longrightarrow> small_file c' j w"
proof -
  let ?w = "write_at (unat off) (take (unat sz) d) v"
  have v: "length v \<le> 51200" using assms(1) by (rule small_file_length)
  then have w: "length ?w \<le> 51200" using assms(2,3) by (simp add: write_at_length)
  obtain s1 s2 where r: "ec_set_attr ino 0 c = Inr (OK, s1)" "ec_put ino ?w s1 = Inr (OK, s2)" "small_file s2 ino (strip0 ?w)"
    "card (free_blocks s2) + n_blocks (int (length ?w)) = card (free_blocks c)"
    "\<And>j w. small_file c j w \<Longrightarrow> ino \<noteq> j \<Longrightarrow> small_file s2 j w"
    using assms(1) w assms(4) by (rule xs.rewrite) (rule that)
  have bounds: "unat off + unat sz < 2 ^ 31" "length v < 2 ^ 31" using assms(2) v by simp_all
  note copy = copy_at[OF bounds(1) assms(3) bounds(2)]
  have "chfs_write ino sz off d c = Inr (OK, sz, s2)"
    unfolding chfs_write_def xs.get_small[OF assms(1)] setattr_def bindF_Inr case_prod_conv r(1) Let_def
      copy r(2) by simp
  then show thesis using r(3-5) by (rule that)
qed

text \<open>
  C11: For files of at most 51200 bytes, before and after, when enough blocks are free: \<open>write\<close>
  at an offset puts the bytes at that offset, filling a hole with zero bytes, and keeps the rest, and
  reading at any position afterwards gives that content less the zero bytes at its end, so that zero bytes
  written at the end of a file are lost. No other small file changes.
\<close>

theorem write_splices:
  assumes "small_file c ino v" "unat off + unat sz \<le> 51200" "unat sz \<le> length d"
    and "n_blocks (int (length (write_at (unat off) (take (unat sz) d) v))) \<le> card (free_blocks c)"
  shows "\<exists>c'. chfs_write ino sz off d c = Inr (OK, sz, c')
    \<and> (\<forall>pos n. unat pos + unat n < 2 ^ 63 \<longrightarrow> chfs_read ino n pos c'
         = Inr (OK, take (unat n) (drop (unat pos) (strip0 (write_at (unat off) (take (unat sz) d) v)))))
    \<and> (\<forall>j w. small_file c j w \<and> j \<noteq> ino \<longrightarrow> ec_get j c' = Inr (OK, w))"
proof -
  obtain c' where c': "chfs_write ino sz off d c = Inr (OK, sz, c')"
    "small_file c' ino (strip0 (write_at (unat off) (take (unat sz) d) v))"
    "card (free_blocks c') + n_blocks (int (length (write_at (unat off) (take (unat sz) d) v))) = card (free_blocks c)"
    "\<And>j w. small_file c j w \<Longrightarrow> ino \<noteq> j \<Longrightarrow> small_file c' j w"
    using assms by (rule write_small) (rule that)
  then show ?thesis using read_small[OF c'(2)] xs.get_small by blast
qed

text \<open>A file of the three bytes 1, 2, 3, for the witnesses.\<close>

lemma example_file:
  obtains c ino where "small_file c ino [1, 2, 3]" "card (free_blocks c) = 2095610"
proof -
  obtain c ino where c: "dir_of c 1 [(ino, [97])]" "small_file c ino []" "card (free_blocks c) = 2095611"
    by (rule example_named) (rule that)
  have w: "write_at (unat (0 :: u64)) (take (unat (3 :: u64)) [1, 2, 3]) [] = [1, 2, 3]" by (simp add: write_at_def)
  have n: "n_blocks (int (length [1, 2, 3 :: u8])) = 1" by (simp add: n_blocks_def)
  have len: "unat (0 :: u64) + unat (3 :: u64) \<le> 51200" "unat (3 :: u64) \<le> length [1, 2, 3 :: u8]" by simp_all
  have room: "n_blocks (int (length (write_at (unat (0 :: u64)) (take (unat (3 :: u64)) [1, 2, 3]) []))) \<le> card (free_blocks c)"
    unfolding w n c(3) by simp
  obtain c' where "small_file c' ino (strip0 [1, 2, 3])" "card (free_blocks c') + 1 = card (free_blocks c)"
    by (rule write_small[OF c(2) len room, unfolded w n]) (rule that)
  then show thesis using that c(3) by (simp add: strip0_id)
qed

theorem write_splices_witness:
  "\<exists>c ino c'. ec_get ino c = Inr (OK, [1, 2, 3]) \<and> chfs_write ino 1 5 [9] c = Inr (OK, 1, c')
     \<and> chfs_read ino 10 0 c' = Inr (OK, [1, 2, 3, 0, 0, 9])"
proof -
  obtain c ino where c: "small_file c ino [1, 2, 3]" "card (free_blocks c) = 2095610" by (rule example_file) (rule that)
  have w: "write_at (unat (5 :: u64)) (take (unat (1 :: u64)) [9]) [1, 2, 3] = [1, 2, 3, 0, 0, 9]"
  proof -
    have "unat (5 :: u64) = 5" "unat (1 :: u64) = 1" by simp_all
    then show ?thesis by (simp only: write_at_def) (simp add: numeral_2_eq_2)
  qed
  have s: "strip0 [1, 2, 3, 0, 0, 9] = [1, 2, 3, 0, 0, 9 :: u8]" by (rule strip0_id) simp
  have "\<exists>c'. chfs_write ino 1 5 [9] c = Inr (OK, 1, c')
    \<and> (\<forall>pos n. unat pos + unat n < 2 ^ 63 \<longrightarrow> chfs_read ino n pos c'
         = Inr (OK, take (unat n) (drop (unat pos) (strip0 (write_at (unat (5 :: u64)) (take (unat (1 :: u64)) [9]) [1, 2, 3])))))
    \<and> (\<forall>j w. small_file c j w \<and> j \<noteq> ino \<longrightarrow> ec_get j c' = Inr (OK, w))"
    using c(1) by (rule write_splices) (unfold w, simp_all add: c(2) n_blocks_def)
  then obtain c' where c': "chfs_write ino 1 5 [9] c = Inr (OK, 1, c')"
    "\<forall>pos n. unat pos + unat n < 2 ^ 63 \<longrightarrow> chfs_read ino n pos c' = Inr (OK, take (unat n) (drop (unat pos) [1, 2, 3, 0, 0, 9]))"
    unfolding w s by blast
  have "chfs_read ino 10 0 c' = Inr (OK, [1, 2, 3, 0, 0, 9])" using c'(2)[rule_format, of 0 10] by simp
  then show ?thesis using c'(1) xs.get_small[OF c(1)] by blast
qed

lemma write_at_back:
  assumes "d \<noteq> []" "last d \<noteq> 0"
  shows "take (length d) (drop off (strip0 (write_at off d v))) = d"
proof -
  have "strip0 (d @ drop (off + length d) v) = d @ strip0 (drop (off + length d) v)"
  proof (cases "strip0 (drop (off + length d) v) = []")
    case True
    then show ?thesis using strip0_append_empty strip0_id[of d] assms(2) by simp
  qed (rule strip0_append_nonempty)
  moreover have "d @ strip0 (drop (off + length d) v) \<noteq> []" using assms(1) by simp
  ultimately have "strip0 (write_at off d v)
      = (take off v @ replicate (off - length v) 0) @ d @ strip0 (drop (off + length d) v)"
    unfolding write_at_def append_assoc[symmetric] by (metis append_assoc strip0_append_nonempty)
  moreover have "length (take off v @ replicate (off - length v) 0) = off" by simp
  ultimately show ?thesis by (simp only: append_eq_conv_conj[THEN iffD1, OF refl] append_take_drop_id) (simp add: min_def)
qed

text \<open>Bytes that do not end in a zero byte read back from where they were written.\<close>

lemma write_read_back:
  assumes "small_file c ino v" "unat off + unat sz \<le> 51200" "unat sz = length d" "d \<noteq> []" "last d \<noteq> 0"
    and "n_blocks (int (max (length v) (unat off + unat sz))) \<le> card (free_blocks c)"
  shows "\<exists>c'. chfs_write ino sz off d c = Inr (OK, sz, c') \<and> chfs_read ino sz off c' = Inr (OK, d)"
proof -
  have t: "take (unat sz) d = d" "unat sz \<le> length d" using assms(3) by simp_all
  have "n_blocks (int (length (write_at (unat off) (take (unat sz) d) v))) \<le> card (free_blocks c)"
    using assms(3,6) unfolding t(1) by (simp add: write_at_length)
  from write_small[OF assms(1,2) t(2) this] obtain c' where c': "chfs_write ino sz off d c = Inr (OK, sz, c')"
    "small_file c' ino (strip0 (write_at (unat off) d v))" unfolding t(1) by blast
  have "chfs_read ino sz off c' = Inr (OK, take (unat sz) (drop (unat off) (strip0 (write_at (unat off) d v))))"
    using c'(2) assms(2) by (intro read_small) simp_all
  then show ?thesis using c'(1) write_at_back[OF assms(4,5)] unfolding assms(3) by auto
qed

text \<open>
  Every \<open>write\<close> takes as many new blocks as the whole file has afterwards, and gives none of the old
  ones back: overwriting one byte of a file of 100 blocks makes 100 blocks unusable.
\<close>

lemma write_takes_whole_file:
  assumes "small_file c ino v" "unat off + unat sz \<le> 51200" "unat sz \<le> length d"
    and "n_blocks (int (max (length v) (unat off + unat sz))) \<le> card (free_blocks c)"
  shows "\<exists>c'. chfs_write ino sz off d c = Inr (OK, sz, c')
    \<and> card (free_blocks c') + n_blocks (int (max (length v) (unat off + unat sz))) = card (free_blocks c)"
proof -
  have len: "length (write_at (unat off) (take (unat sz) d) v) = max (length v) (unat off + unat sz)"
    using assms(3) by (simp add: write_at_length)
  show ?thesis using assms(1-3) by (rule write_small) (use assms(4) len in auto)
qed

text \<open>
  C32: A \<open>write\<close> at an offset of 4 GB or more never succeeds: it reads in front of the data it was given,
  because the loop counter has 32 bits and starts below the offset, unless the string for the content would be
  longer than a string can be, which is an exception before the loop.
\<close>

theorem write_far_fails:
  assumes "small_file c ino v" "2 ^ 32 \<le> unat off" "unat off < 2 ^ 63" "0 < sz" "unat off + unat sz < 2 ^ 64"
  shows "chfs_write ino sz off d c = Inl (if unat off + unat sz \<le> max_size then Out_of_bounds else Length_error)"
proof -
  have sum: "unat (off + sz) = unat off + unat sz" using assms(5) by (simp add: unat_add_lem[symmetric])
  have v: "length v \<le> 51200" using assms(1) by (rule small_file_length)
  then have len: "unat (of_nat (length v) :: u64) = length v" by (simp add: unat_of_nat take_bit_nat_eq_self)
  have grows: "of_nat (length v) < off + sz"
  proof -
    have "51200 < unat off" using assms(2) by simp
    then show ?thesis unfolding word_less_nat_alt len sum using v by linarith
  qed
  have "unat (ucast off :: u32) < 2 ^ 32" using unsigned_less[of "ucast off :: u32"] by simp
  then have lt: "unat (ucast off :: u32) < unat off" using assms(2) by linarith
  have "sint off = int (unat off)" using assms(3) by (rule sint_small)
  then have "int (unat (ucast off :: u32)) < sint off" using lt by (simp only: of_nat_less_iff)
  moreover have "ucast (ucast off :: u32) < off + sz"
    unfolding word_less_nat_alt unat_size sum using lt by linarith
  ultimately have "copy_bytes (ucast off) off (off + sz) d str = Inl Out_of_bounds" for str
    by (subst copy_bytes.simps) simp
  moreover obtain s1 where "ec_set_attr ino 0 c = Inr (OK, s1)" using xs.clear_small[OF assms(1)] by blast
  ultimately show ?thesis
    unfolding chfs_write_def xs.get_small[OF assms(1)] using grows by (simp add: setattr_def Let_def resize_def sum)
qed

theorem write_far_fails_witness:
  "\<exists>c ino. ec_get ino c = Inr (OK, [1, 2, 3]) \<and> chfs_write ino 1 4294967296 [7] c = Inl Out_of_bounds
     \<and> chfs_write ino 1 0x7FFFFFFFFFFFFFFF [7] c = Inl Length_error"
proof -
  obtain c ino where c: "small_file c ino [1, 2, 3]" by (rule example_file) (rule that)
  have "chfs_write ino 1 4294967296 [7] c = Inl Out_of_bounds" "chfs_write ino 1 0x7FFFFFFFFFFFFFFF [7] c = Inl Length_error"
    using write_far_fails[OF c, where off = 4294967296 and sz = 1 and d = "[7]"]
      write_far_fails[OF c, where off = "0x7FFFFFFFFFFFFFFF" and sz = 1 and d = "[7]"]
    by (simp_all add: max_size_def)
  then show ?thesis using xs.get_small[OF c] by blast
qed

text \<open>
  \<open>read\<close> of a file returns at most the bytes asked for from the offset on: fewer at the end of the file,
  none behind it.
\<close>

lemma read_slices:
  assumes "small_file c ino v" "unat off + unat sz < 2 ^ 63"
  shows "chfs_read ino sz off c = Inr (OK, take (unat sz) (drop (unat off) v))"
  using assms by (rule read_small)

end
