(* ===== verification/Fuse_Server.thy ===== *)
theory Fuse_Server imports Chfs_Files begin

text \<open>
  \<open>fuse.cc\<close>: the handlers that libfuse calls, one per kind of request. The global \<open>chfs\<close> is the state. A
  handler returns the answer it passes to a \<open>fuse_reply_\<close> function, if it passes one, and the new state.
  Printing is left out. Of libfuse the handlers use the bit of \<open>to_set\<close> that asks for a size and the
  encoding of directory entries, which are arguments here.
\<close>

subsection \<open>Answers\<close>

datatype errno = E0 | ENOENT | EEXIST | ENOSYS | ENOTDIR | ENOTEMPTY

record stat =
  st_ino :: u64
  st_mode :: u32
  st_nlink :: u64
  st_size :: u64
  st_atime :: u64
  st_mtime :: u64
  st_ctime :: u64

definition zero_stat :: stat where
  "zero_stat = \<lparr>st_ino = 0, st_mode = 0, st_nlink = 0, st_size = 0, st_atime = 0, st_mtime = 0, st_ctime = 0\<rparr>"

text \<open>The timeouts are doubles that are always 0.0.\<close>

record entry_param =
  e_ino :: u64
  e_attr :: stat
  e_generation :: u64
  e_attr_timeout :: int
  e_entry_timeout :: int

record statvfs =
  f_bsize :: u64
  f_namemax :: u64

datatype reply =
    Reply_err errno
  | Reply_attr stat
  | Reply_entry entry_param
  | Reply_create entry_param
  | Reply_open
  | Reply_buf bytes
  | Reply_write u64
  | Reply_statfs statvfs

type_synonym handled = "fault + reply option \<times> chfs_client"

abbreviation answer :: "reply \<Rightarrow> chfs_client \<Rightarrow> handled" where
  "answer r c \<equiv> Inr (Some r, c)"

subsection \<open>Attributes\<close>

abbreviation (input) S_IFREG :: u32 where "S_IFREG \<equiv> 0x8000"
abbreviation (input) S_IFDIR :: u32 where "S_IFDIR \<equiv> 0x4000"
abbreviation (input) S_IFLNK :: u32 where "S_IFLNK \<equiv> 0xA000"

text \<open>The attributes that \<open>getattr\<close> leaves in \<open>st\<close>, also when it returns an error.\<close>

definition getattr :: "u64 \<Rightarrow> chfs_client \<Rightarrow> fault + status \<times> stat" where
  "getattr inum c =
     (let st = zero_stat\<lparr>st_ino := inum\<rparr>
      in bindF (isfile inum c) (\<lambda>file.
         if file then bindF (getfile inum c) (\<lambda>(ret, info). case info of
             None \<Rightarrow> Inr (ret, st)
           | Some i \<Rightarrow> Inr (OK, st\<lparr>st_mode := S_IFREG OR 0x1B6, st_nlink := 1, st_atime := i_atime i,
                             st_mtime := i_mtime i, st_ctime := i_ctime i, st_size := i_size i\<rparr>))
         else bindF (isdir inum c) (\<lambda>dir.
         if dir then bindF (getdir inum c) (\<lambda>(ret, info). case info of
             None \<Rightarrow> Inr (ret, st)
           | Some i \<Rightarrow> Inr (OK, st\<lparr>st_mode := S_IFDIR OR 0x1FF, st_nlink := 2, st_atime := i_atime i,
                             st_mtime := i_mtime i, st_ctime := i_ctime i\<rparr>))
         else bindF (getfile inum c) (\<lambda>(ret, info). case info of
             None \<Rightarrow> Inr (ret, st)
           | Some i \<Rightarrow> Inr (OK, st\<lparr>st_mode := S_IFLNK OR 0x1FF, st_nlink := 1, st_size := i_size i\<rparr>)))))"

definition fuseserver_getattr :: "u64 \<Rightarrow> chfs_client \<Rightarrow> handled" where
  "fuseserver_getattr ino c = bindF (getattr ino c) (\<lambda>(ret, st).
     if ret \<noteq> OK then answer (Reply_err ENOENT) c else answer (Reply_attr st) c)"

definition fuseserver_setattr :: "u32 \<Rightarrow> u64 \<Rightarrow> stat \<Rightarrow> u32 \<Rightarrow> chfs_client \<Rightarrow> handled" where
  "fuseserver_setattr size_bit ino attr to_set c =
     (if size_bit AND to_set \<noteq> 0
      then bindF (setattr ino (st_size attr) c) (\<lambda>(_, c1).
           bindF (getattr ino c1) (\<lambda>(_, st). answer (Reply_attr st) c1))
      else answer (Reply_err ENOSYS) c)"

subsection \<open>Contents\<close>

definition fuseserver_read :: "u64 \<Rightarrow> u64 \<Rightarrow> u64 \<Rightarrow> chfs_client \<Rightarrow> handled" where
  "fuseserver_read ino sz off c = bindF (chfs_read ino sz off c) (\<lambda>(_, read_str). answer (Reply_buf read_str) c)"

definition fuseserver_write :: "u64 \<Rightarrow> bytes \<Rightarrow> u64 \<Rightarrow> u64 \<Rightarrow> chfs_client \<Rightarrow> handled" where
  "fuseserver_write ino buf sz off c = bindF (chfs_write ino sz off buf c) (\<lambda>(_, write_bytes, c1).
     answer (Reply_write write_bytes) c1)"

definition fuseserver_open :: "u64 \<Rightarrow> chfs_client \<Rightarrow> handled" where
  "fuseserver_open ino c = answer Reply_open c"

subsection \<open>Making and finding\<close>

definition entry_of :: "u64 \<Rightarrow> stat \<Rightarrow> entry_param" where
  "entry_of ino st = \<lparr>e_ino = ino, e_attr = st, e_generation = 0, e_attr_timeout = 0, e_entry_timeout = 0\<rparr>"

text \<open>
  The number that the code passes uninitialised is only left as it is when the name exists, and not used
  then. The callers use the entry only after OK.
\<close>

definition fuseserver_createhelper :: "u64 \<Rightarrow> bytes \<Rightarrow> u32 \<Rightarrow> chfs_client \<Rightarrow> fault + (status \<times> entry_param option) \<times> chfs_client" where
  "fuseserver_createhelper parent name type c =
     bindF (if type = T_FILE then create parent name 0 c
            else if type = T_DIR then mkdir parent name 0 c
            else ln parent name 0 c) (\<lambda>(ret, inum, c1).
     if ret \<noteq> OK then Inr ((ret, None), c1)
     else bindF (getattr inum c1) (\<lambda>(ret, st). Inr ((ret, Some (entry_of inum st)), c1)))"

definition fuseserver_create :: "u64 \<Rightarrow> bytes \<Rightarrow> chfs_client \<Rightarrow> handled" where
  "fuseserver_create parent name c = bindF (fuseserver_createhelper parent name T_FILE c) (\<lambda>((ret, e), c1).
     if ret = OK then answer (Reply_create (the e)) c1
     else if ret = EXIST then answer (Reply_err EEXIST) c1
     else answer (Reply_err ENOENT) c1)"

definition fuseserver_mknod :: "u64 \<Rightarrow> bytes \<Rightarrow> chfs_client \<Rightarrow> handled" where
  "fuseserver_mknod parent name c = bindF (fuseserver_createhelper parent name T_FILE c) (\<lambda>((ret, e), c1).
     if ret = OK then answer (Reply_entry (the e)) c1
     else if ret = EXIST then answer (Reply_err EEXIST) c1
     else answer (Reply_err ENOENT) c1)"

definition fuseserver_lookup :: "u64 \<Rightarrow> bytes \<Rightarrow> chfs_client \<Rightarrow> handled" where
  "fuseserver_lookup parent name c = bindF (lookup parent name c) (\<lambda>(_, found). case found of
       Some ino \<Rightarrow> bindF (getattr ino c) (\<lambda>(_, st). answer (Reply_entry (entry_of ino st)) c)
     | None \<Rightarrow> answer (Reply_err ENOENT) c)"

text \<open>Any other error than EEXIST gets no answer.\<close>

definition fuseserver_mkdir :: "u64 \<Rightarrow> bytes \<Rightarrow> chfs_client \<Rightarrow> handled" where
  "fuseserver_mkdir parent name c = bindF (fuseserver_createhelper parent name T_DIR c) (\<lambda>((ret, e), c1).
     if ret = OK then answer (Reply_entry (the e)) c1
     else if ret = EXIST then answer (Reply_err EEXIST) c1
     else Inr (None, c1))"

definition fuseserver_unlink :: "u64 \<Rightarrow> bytes \<Rightarrow> chfs_client \<Rightarrow> handled" where
  "fuseserver_unlink parent name c = bindF (unlink parent name c) (\<lambda>(r, c1).
     if r = OK then answer (Reply_err E0) c1
     else if r = NOENT then answer (Reply_err ENOENT) c1
     else answer (Reply_err ENOTEMPTY) c1)"

definition fuseserver_statfs :: "chfs_client \<Rightarrow> handled" where
  "fuseserver_statfs c = answer (Reply_statfs \<lparr>f_bsize = 512, f_namemax = 255\<rparr>) c"

subsection \<open>Symbolic links\<close>

text \<open>\<open>strlen\<close> of a C string, given by its bytes before the zero byte.\<close>

definition fuseserver_symlink :: "bytes \<Rightarrow> u64 \<Rightarrow> bytes \<Rightarrow> chfs_client \<Rightarrow> handled" where
  "fuseserver_symlink link parent name c = bindF (fuseserver_createhelper parent name T_LNK c) (\<lambda>((ret, e), c1).
     if ret = OK
     then bindF (chfs_write (e_ino (the e)) (of_nat (length link)) 0 link c1) (\<lambda>(_, _, c2).
       answer (Reply_entry (the e)) c2)
     else answer (Reply_err EEXIST) c1)"

definition fuseserver_readlink :: "u64 \<Rightarrow> chfs_client \<Rightarrow> handled" where
  "fuseserver_readlink ino c = bindF (chfs_read ino 0xFFFFFFFF 0 c) (\<lambda>(_, read_str). answer (Reply_buf read_str) c)"

subsection \<open>Listings\<close>

text \<open>
  \<open>dirent name st end\<close> stands for the bytes that \<open>fuse_add_dirent\<close> stores, which are as many as
  \<open>fuse_dirent_size\<close> says. The buffer is the bytes of \<open>p\<close>.
\<close>

definition dirbuf_add :: "(bytes \<Rightarrow> stat \<Rightarrow> u64 \<Rightarrow> bytes) \<Rightarrow> (nat \<Rightarrow> nat) \<Rightarrow> bytes \<Rightarrow> u64 \<Rightarrow> bytes \<Rightarrow> bytes" where
  "dirbuf_add dirent dirent_size name ino b =
     (let size = length b + dirent_size (length name) in b @ dirent name (zero_stat\<lparr>st_ino := ino\<rparr>) (of_nat size))"

text \<open>\<open>fuse_reply_buf\<close> reads as many bytes as it is told from where it is told, which must be in the buffer.\<close>

definition reply_buf :: "bytes \<Rightarrow> nat \<Rightarrow> nat \<Rightarrow> fault + reply" where
  "reply_buf buf off n =
     (if off + n \<le> length buf then Inr (Reply_buf (take n (drop off buf))) else Inl Out_of_bounds)"

definition reply_buf_limited :: "bytes \<Rightarrow> u64 \<Rightarrow> u64 \<Rightarrow> fault + reply" where
  "reply_buf_limited buf off maxsize =
     (if unat off < length buf
      then reply_buf buf (unat off) (min (length buf - unat off) (unat maxsize))
      else reply_buf [] 0 0)"

fun dirbuf_all :: "(bytes \<Rightarrow> stat \<Rightarrow> u64 \<Rightarrow> bytes) \<Rightarrow> (nat \<Rightarrow> nat) \<Rightarrow> dir_entries \<Rightarrow> bytes \<Rightarrow> bytes" where
  "dirbuf_all dirent dirent_size [] b = b"
| "dirbuf_all dirent dirent_size ((inum, name) # es) b =
     dirbuf_all dirent dirent_size es (dirbuf_add dirent dirent_size (takeWhile (\<lambda>ch. ch \<noteq> 0) name) inum b)"

definition fuseserver_readdir :: "(bytes \<Rightarrow> stat \<Rightarrow> u64 \<Rightarrow> bytes) \<Rightarrow> (nat \<Rightarrow> nat) \<Rightarrow> u64 \<Rightarrow> u64 \<Rightarrow> u64 \<Rightarrow> chfs_client \<Rightarrow> handled" where
  "fuseserver_readdir dirent dirent_size ino sz off c = bindF (isdir ino c) (\<lambda>dir.
     if \<not> dir then answer (Reply_err ENOTDIR) c
     else bindF (readdir ino c) (\<lambda>(_, entries).
       bindF (reply_buf_limited (dirbuf_all dirent dirent_size entries []) off sz) (\<lambda>r. answer r c)))"

subsection \<open>The table of operations\<close>

text \<open>The requests for which \<open>main\<close> registers a handler.\<close>

datatype request =
    Getattr u64 | Statfs | Readdir u64 u64 u64 | Lookup u64 bytes | Create u64 bytes | Mknod u64 bytes
  | Open u64 | Read u64 u64 u64 | Write u64 bytes u64 u64 | Setattr u64 stat u32 | Unlink u64 bytes
  | Mkdir u64 bytes | Symlink bytes u64 bytes | Readlink u64

fun fuseserver_oper :: "u32 \<Rightarrow> (bytes \<Rightarrow> stat \<Rightarrow> u64 \<Rightarrow> bytes) \<Rightarrow> (nat \<Rightarrow> nat) \<Rightarrow> request \<Rightarrow> chfs_client \<Rightarrow> handled" where
  "fuseserver_oper bt de ds (Getattr ino) = fuseserver_getattr ino"
| "fuseserver_oper bt de ds Statfs = fuseserver_statfs"
| "fuseserver_oper bt de ds (Readdir ino sz off) = fuseserver_readdir de ds ino sz off"
| "fuseserver_oper bt de ds (Lookup parent name) = fuseserver_lookup parent name"
| "fuseserver_oper bt de ds (Create parent name) = fuseserver_create parent name"
| "fuseserver_oper bt de ds (Mknod parent name) = fuseserver_mknod parent name"
| "fuseserver_oper bt de ds (Open ino) = fuseserver_open ino"
| "fuseserver_oper bt de ds (Read ino sz off) = fuseserver_read ino sz off"
| "fuseserver_oper bt de ds (Write ino buf sz off) = fuseserver_write ino buf sz off"
| "fuseserver_oper bt de ds (Setattr ino attr to_set) = fuseserver_setattr bt ino attr to_set"
| "fuseserver_oper bt de ds (Unlink parent name) = fuseserver_unlink parent name"
| "fuseserver_oper bt de ds (Mkdir parent name) = fuseserver_mkdir parent name"
| "fuseserver_oper bt de ds (Symlink link parent name) = fuseserver_symlink link parent name"
| "fuseserver_oper bt de ds (Readlink ino) = fuseserver_readlink ino"

end
