(* ===== verification/Fuse_Properties.thy ===== *)
theory Fuse_Properties imports Fuse_Server begin

text \<open>The properties of the handlers: what a client of the mounted file system sees of a sequence of requests.\<close>

subsection \<open>Attributes\<close>

definition stat_of :: "u64 \<Rightarrow> attr \<Rightarrow> stat" where
  "stat_of i a =
     (if a_type a = 2 then \<lparr>st_ino = i, st_mode = 0x81B6, st_nlink = 1, st_size = ucast (a_size a),
         st_atime = ucast (a_atime a), st_mtime = ucast (a_mtime a), st_ctime = ucast (a_ctime a)\<rparr>
      else if a_type a = 1 then \<lparr>st_ino = i, st_mode = 0x41FF, st_nlink = 2, st_size = 0,
         st_atime = ucast (a_atime a), st_mtime = ucast (a_mtime a), st_ctime = ucast (a_ctime a)\<rparr>
      else \<lparr>st_ino = i, st_mode = 0xA1FF, st_nlink = 1, st_size = ucast (a_size a), st_atime = 0, st_mtime = 0, st_ctime = 0\<rparr>)"

lemma getattr_eq: "ec_getattr i c = Inr (OK, a) \<Longrightarrow> getattr i c = Inr (OK, stat_of i a)"
  by (simp add: getattr_def isfile_def isdir_def getfile_def getdir_def stat_of_def zero_stat_def Let_def)

text \<open>
  The answer to GETATTR is a function of the attributes of the inode: regular files report their size
  and times, directories report their times and size 0, everything else is a link, with its size and no times.
\<close>

lemma getattr_reports:
  assumes "ec_getattr i c = Inr (OK, a)"
  shows "fuseserver_getattr i c = answer (Reply_attr (stat_of i a)) c"
  by (simp add: fuseserver_getattr_def getattr_eq[OF assms])

lemma stat_of_new: "stat_of i \<lparr>a_type = 2, a_atime = now, a_mtime = now, a_ctime = now, a_size = 0\<rparr>
    = \<lparr>st_ino = i, st_mode = 0x81B6, st_nlink = 1, st_size = 0, st_atime = ucast now, st_mtime = ucast now, st_ctime = ucast now\<rparr>"
  by (simp add: stat_of_def)

lemma helper_create: "fuseserver_createhelper p name T_FILE c
    = bindF (create p name 0 c) (\<lambda>(ret, inum, c1).
        if ret \<noteq> OK then Inr ((ret, None), c1)
        else bindF (getattr inum c1) (\<lambda>(ret, st). Inr ((ret, Some (entry_of inum st)), c1)))"
  by (simp add: fuseserver_createhelper_def)

lemma helper_ln: "fuseserver_createhelper p name T_LNK c
    = bindF (ln p name 0 c) (\<lambda>(ret, inum, c1).
        if ret \<noteq> OK then Inr ((ret, None), c1)
        else bindF (getattr inum c1) (\<lambda>(ret, st). Inr ((ret, Some (entry_of inum st)), c1)))"
  by (simp add: fuseserver_createhelper_def)

subsection \<open>Making\<close>

text \<open>
  CREATE of a new name answers with an entry for an empty regular file, and LOOKUP of the name
  answers with the same entry afterwards.
\<close>

lemma create_then_lookup:
  assumes "dir_of c p es" "length es < 100" "name_ok name" "free_blocks c \<noteq> {}" "free_inodes c \<noteq> {}"
    and "name \<notin> snd ` set es"
  shows "\<exists>e c'. fuseserver_create p name c = answer (Reply_create e) c' \<and> fuseserver_lookup p name c' = answer (Reply_entry e) c'
    \<and> st_mode (e_attr e) = S_IFREG OR 0x1B6 \<and> st_size (e_attr e) = 0 \<and> st_ino (e_attr e) = e_ino e
    \<and> fuseserver_read (e_ino e) sz 0 c' = answer (Reply_buf []) c'"
proof -
  have new: "find_name name es = None" using assms(6) by (simp add: find_name_None)
  obtain ino c1 c2 now where m: "ec_create 2 c = Inr (OK, ino, c1)" "ec_add_to_dir p ino name c1 = Inr (OK, c2)"
    "dir_of c2 p (es @ [(ino, name)])" "ino \<le> 1024" "inum_ok (ucast ino)" "inode_at c2 (ucast ino) = new_inode 2 now"
    "lookup p name c2 = Inr (OK, Some ino)"
    by (rule make_does[OF assms(1-5) _ new, of 2]) (use that in auto)
  have ok2: "ok c2" using m(3) by (simp add: dir_of_def)
  let ?st = "\<lparr>st_ino = ino, st_mode = 0x81B6, st_nlink = 1, st_size = 0, st_atime = ucast now, st_mtime = ucast now, st_ctime = ucast now\<rparr>"
  have ga: "getattr ino c2 = Inr (OK, ?st)"
    using getattr_eq[OF attr_of_new[OF ok2 m(4-6)]] by (simp add: stat_of_new)
  have cr: "create p name 0 c = Inr (OK, ino, c2)" using m(1,2) new by (simp add: create_def lookup_dir[OF assms(1)])
  have "fuseserver_create p name c = answer (Reply_create (entry_of ino ?st)) c2"
    unfolding fuseserver_create_def helper_create cr by (simp add: ga)
  moreover have "fuseserver_lookup p name c2 = answer (Reply_entry (entry_of ino ?st)) c2"
    unfolding fuseserver_lookup_def m(7) by (simp add: ga)
  moreover have "small_file c2 ino []" using ok2 m(4-6) by (simp add: small_file_def new_inode_def)
  then have "chfs_read ino sz 0 c2 = Inr (OK, [])" by (simp add: chfs_read_def xs.get_small substr_def Let_def)
  then have "fuseserver_read ino sz 0 c2 = answer (Reply_buf []) c2" by (simp add: fuseserver_read_def)
  ultimately show ?thesis by (intro exI[of _ "entry_of ino ?st"] exI[of _ c2]) (simp add: entry_of_def)
qed

text \<open>
  C15: SYMLINK and then READLINK of the new entry gives the target back, for targets of at most 51200 bytes
  that do not end in a zero byte. The entry in the answer to SYMLINK still reports size 0: its attributes
  are from before the target was written.
\<close>

theorem symlink_then_readlink:
  assumes "dir_of c p es" "length es < 100" "name_ok name" "free_inodes c \<noteq> {}" "name \<notin> snd ` set es"
    and "link \<noteq> []" "last link \<noteq> 0" "length link \<le> 51200" "n_blocks (int (length link)) < card (free_blocks c)"
  shows "\<exists>e c'. fuseserver_symlink link p name c = answer (Reply_entry e) c'
    \<and> fuseserver_readlink (e_ino e) c' = answer (Reply_buf link) c'
    \<and> st_mode (e_attr e) = S_IFLNK OR 0x1FF \<and> st_size (e_attr e) = 0"
proof -
  have new: "find_name name es = None" using assms(5) by (simp add: find_name_None)
  have free: "free_blocks c \<noteq> {}" using assms(9) by auto
  obtain ino c1 c2 now where m: "ec_create 3 c = Inr (OK, ino, c1)" "ec_add_to_dir p ino name c1 = Inr (OK, c2)"
    "dir_of c2 p (es @ [(ino, name)])" "ino \<le> 1024" "inum_ok (ucast ino)" "inode_at c2 (ucast ino) = new_inode 3 now"
    "card (free_blocks c) = Suc (card (free_blocks c2))"
    by (rule make_does[OF assms(1-3) free assms(4) _ new, of 3]) (use that in auto)
  have ok2: "ok c2" using m(3) by (simp add: dir_of_def)
  let ?st = "\<lparr>st_ino = ino, st_mode = 0xA1FF, st_nlink = 1, st_size = 0, st_atime = 0, st_mtime = 0, st_ctime = 0\<rparr>"
  have ga: "getattr ino c2 = Inr (OK, ?st)"
    using getattr_eq[OF attr_of_new[OF ok2 m(4-6)]] by (simp add: stat_of_def)
  have cr: "ln p name 0 c = Inr (OK, ino, c2)" using m(1,2) new by (simp add: ln_def lookup_dir[OF assms(1)])
  have f: "small_file c2 ino []" using ok2 m(4-6) by (simp add: small_file_def new_inode_def)
  have len: "unat (of_nat (length link) :: u64) = length link" using assms(8) by (simp add: unat_of_nat)
  have w: "write_at (unat (0 :: u64)) (take (unat (of_nat (length link) :: u64)) link) [] = link"
    unfolding len by (simp add: write_at_def)
  have bounds: "unat (0 :: u64) + unat (of_nat (length link) :: u64) \<le> 51200" "unat (of_nat (length link) :: u64) \<le> length link"
    "n_blocks (int (length (write_at (unat (0 :: u64)) (take (unat (of_nat (length link) :: u64)) link) []))) \<le> card (free_blocks c2)"
    unfolding w using assms(8,9) len m(7) by simp_all
  obtain c3 where c3: "chfs_write ino (of_nat (length link)) 0 link c2 = Inr (OK, of_nat (length link), c3)"
    "small_file c3 ino (strip0 link)"
    by (rule write_small[OF f bounds, unfolded w]) (rule that)
  have "strip0 link = link" using assms(7) by (simp add: strip0_id)
  then have "chfs_read ino 0xFFFFFFFF 0 c3 = Inr (OK, take (unat (0xFFFFFFFF :: u64)) link)"
    using c3(2) read_small[of c3 ino link 0 "0xFFFFFFFF"] by simp
  then have "fuseserver_readlink ino c3 = answer (Reply_buf link) c3" using assms(8) by (simp add: fuseserver_readlink_def)
  moreover have "fuseserver_symlink link p name c = answer (Reply_entry (entry_of ino ?st)) c3"
    unfolding fuseserver_symlink_def helper_ln cr by (simp add: ga c3(1) entry_of_def)
  ultimately show ?thesis by (intro exI[of _ "entry_of ino ?st"] exI[of _ c3]) (simp add: entry_of_def)
qed

theorem symlink_then_readlink_witness:
  "\<exists>c e c'. chfs_init (\<lambda>n. 0) = Inr (Some c) \<and> fuseserver_symlink [116, 111] 1 [97] c = answer (Reply_entry e) c'
     \<and> fuseserver_readlink (e_ino e) c' = answer (Reply_buf [116, 111]) c'"
proof -
  obtain c where c: "chfs_init (\<lambda>n. 0) = Inr (Some c)" "dir_of c 1 []" "free_inodes c \<noteq> {}" "card (free_blocks c) = 2095612"
    by (rule example_root) (rule that)
  have "\<exists>e c'. fuseserver_symlink [116, 111] 1 [97] c = answer (Reply_entry e) c'
    \<and> fuseserver_readlink (e_ino e) c' = answer (Reply_buf [116, 111]) c'
    \<and> st_mode (e_attr e) = S_IFLNK OR 0x1FF \<and> st_size (e_attr e) = 0"
    using c(2) _ _ c(3) by (rule symlink_then_readlink) (simp_all add: name_ok_def c(4) n_blocks_def)
  then show ?thesis using c(1) by blast
qed

subsection \<open>Removing\<close>

text \<open>
  UNLINK never answers with an error: whenever \<open>unlink\<close> returns, whether the name was there or
  not and whatever it named, the answer is 0.
\<close>

lemma unlink_never_fails:
  "fuseserver_unlink p name c = bindF (unlink p name c) (\<lambda>(_, c1). answer (Reply_err E0) c1)"
proof (cases "unlink p name c")
  case (Inr x)
  obtain r c1 where x: "x = (r, c1)" by (cases x)
  have "r = OK" using Inr x by (auto simp: unlink_def bindF_eq_Inr split: option.splits prod.splits)
  then show ?thesis by (simp add: fuseserver_unlink_def Inr x)
qed (simp add: fuseserver_unlink_def)

text \<open>
  A name that the directory has is answered with EEXIST by all the requests that make one, and
  nothing changes.
\<close>

lemma existing_is_eexist:
  assumes "dir_of c p es" "name \<in> snd ` set es"
  shows "fuseserver_create p name c = answer (Reply_err EEXIST) c \<and> fuseserver_mknod p name c = answer (Reply_err EEXIST) c
    \<and> fuseserver_mkdir p name c = answer (Reply_err EEXIST) c \<and> fuseserver_symlink link p name c = answer (Reply_err EEXIST) c"
proof -
  have "find_name name es \<noteq> None" using assms(2) by (simp add: find_name_None)
  then have "fuseserver_createhelper p name type c = Inr ((EXIST, None), c)" for type
    by (simp add: fuseserver_createhelper_def create_def mkdir_def ln_def lookup_dir[OF assms(1)])
  then show ?thesis by (simp add: fuseserver_create_def fuseserver_mknod_def fuseserver_mkdir_def fuseserver_symlink_def)
qed

subsection \<open>The life of a name\<close>

fun makes :: "u64 \<Rightarrow> bytes \<Rightarrow> request \<Rightarrow> (u32 \<times> (entry_param \<Rightarrow> reply)) option" where
  "makes p name (Create q n) = (if p = q \<and> name = n then Some (2, Reply_create) else None)"
| "makes p name (Mknod q n) = (if p = q \<and> name = n then Some (2, Reply_entry) else None)"
| "makes p name (Mkdir q n) = (if p = q \<and> name = n then Some (1, Reply_entry) else None)"
| "makes p name q = None"

lemma make_helper:
  assumes "dir_of c p es" "length es < 100" "name_ok name" "free_blocks c \<noteq> {}" "free_inodes c \<noteq> {}"
    and "find_name name es = None" "t = 1 \<or> t = 2"
  obtains ino st c1 now where "fuseserver_createhelper p name t c = Inr ((OK, Some (entry_of ino st)), c1)"
    "fuseserver_lookup p name c1 = answer (Reply_entry (entry_of ino st)) c1" "dir_of c1 p (es @ [(ino, name)])"
    "ino \<le> 1024" "inum_ok (ucast ino)" "inode_at c1 (ucast ino) = new_inode t now" "ino \<noteq> p"
    "card (free_blocks c) = Suc (card (free_blocks c1))" "itype (inode_at c (ucast ino)) = 0"
proof -
  obtain ino c0 c1 now where m: "ec_create t c = Inr (OK, ino, c0)" "ec_add_to_dir p ino name c0 = Inr (OK, c1)"
    "dir_of c1 p (es @ [(ino, name)])" "ino \<le> 1024" "inum_ok (ucast ino)" "inode_at c1 (ucast ino) = new_inode t now"
    "card (free_blocks c) = Suc (card (free_blocks c1))" "ino \<noteq> p" "lookup p name c1 = Inr (OK, Some ino)"
    "itype (inode_at c (ucast ino)) = 0"
    by (rule make_does[OF assms(1-5) _ assms(6), of t]) (use assms(7) that in auto)
  have ok: "ok c1" using m(3) by (simp add: dir_of_def)
  have "t \<in> {1, 2, 3}" using assms(7) by blast
  from getattr_eq[OF attr_of_new[OF ok m(4-6) this]] obtain st where ga: "getattr ino c1 = Inr (OK, st)" by blast
  have "fuseserver_createhelper p name t c = Inr ((OK, Some (entry_of ino st)), c1)"
    using assms(7) m(1,2) ga by (auto simp: fuseserver_createhelper_def create_def mkdir_def lookup_dir[OF assms(1)] assms(6))
  moreover have "fuseserver_lookup p name c1 = answer (Reply_entry (entry_of ino st)) c1"
    by (simp add: fuseserver_lookup_def m(9) ga)
  ultimately show thesis using that m(3-8,10) by blast
qed

lemma unlink_new:
  assumes "dir_of c p (es @ [(i, name)])" "distinct (map fst (es @ [(i, name)]))" "distinct (map snd (es @ [(i, name)]))"
    and "i \<le> 1024" "inum_ok (ucast i)" "inode_at c (ucast i) = new_inode t now" "t = 1 \<or> t = 2" "i \<noteq> p"
  obtains c' where "fuseserver_unlink p name c = answer (Reply_err E0) c'" "fuseserver_lookup p name c' = answer (Reply_err ENOENT) c'"
    "card (free_blocks c') = Suc (card (free_blocks c))"
proof -
  let ?es = "es @ [(i, name)]"
  have name: "find_name name ?es = Some i" using assms(3) find_name_None[of name es] by (simp add: find_name_append)
  have none: "file_ptrs c (ucast i) = []" using assms(6) by (auto simp: file_ptrs_def new_inode_def)
  have "(ucast i :: u32) \<noteq> ucast p" using assms(1,4,8) ucast_id_inject[of i p] by (simp add: dir_of_def)
  then have "apart c (ucast i) (ucast p)" using none by (simp add: apart_def)
  moreover have "small_inode c i" using assms(1,4-7) by (auto simp: small_inode_def new_inode_def none dir_of_def)
  ultimately obtain c1 where c1: "ec_remove i c = Inr (OK, c1)" "dir_of c1 p ?es" "card (free_blocks c1) = card (free_blocks c)"
    using remove_keeps_dir[OF assms(1)] none by (metis add_0_right list.size(3))
  obtain c2 fs where c2: "ec_remove_from_dir p i c1 = Inr (OK, c2)" "dir_of c2 p fs"
    "card (free_blocks c2) = Suc (card (free_blocks c1))" "find_name name fs = None"
    using c1(2) assms(4) assms(3,2) name ucast_small[OF assms(4)] by (rule ns.del_then_find) (rule that)
  have "unlink p name c = Inr (OK, c2)" using name c1(1) c2(1) by (simp add: unlink_def readdir_def ns.list_eq[OF assms(1)])
  then show thesis using that[of c2] c1(3) c2(3,4) by (simp add: fuseserver_unlink_def fuseserver_lookup_def lookup_dir[OF c2(2)])
qed

text \<open>
  C13: In a directory of less than 100 different names and inodes in use, and with room for one more, a new
  name is answered with ENOENT by LOOKUP until CREATE, MKNOD or MKDIR makes it, with its entry from then on,
  while all requests that make names answer EEXIST and change nothing, and with ENOENT again once UNLINK has
  removed it, be it that of a file or of a directory; all blocks are back then.
\<close>

theorem name_made_once:
  assumes "dir_of c p es" "distinct (map fst es)" "distinct (map snd es)" "length es < 100" "name_ok name"
    and "free_blocks c \<noteq> {}" "free_inodes c \<noteq> {}" "name \<notin> snd ` set es" "makes p name q = Some (t, r)"
    and "\<forall>i \<in> fst ` set es. itype (inode_at c (ucast i)) \<noteq> 0"
  shows "\<exists>e c1 c2. fuseserver_lookup p name c = answer (Reply_err ENOENT) c
    \<and> fuseserver_oper bt de ds q c = answer (r e) c1
    \<and> fuseserver_lookup p name c1 = answer (Reply_entry e) c1
    \<and> (\<forall>q' \<in> {Create p name, Mknod p name, Mkdir p name, Symlink l p name}. fuseserver_oper bt de ds q' c1 = answer (Reply_err EEXIST) c1)
    \<and> fuseserver_unlink p name c1 = answer (Reply_err E0) c2
    \<and> fuseserver_lookup p name c2 = answer (Reply_err ENOENT) c2 \<and> card (free_blocks c2) = card (free_blocks c)"
proof -
  have new: "find_name name es = None" using assms(8) by (simp add: find_name_None)
  have t: "t = 1 \<or> t = 2" using assms(9) by (cases q) (auto split: if_splits)
  obtain ino st c1 now where m: "fuseserver_createhelper p name t c = Inr ((OK, Some (entry_of ino st)), c1)"
    "fuseserver_lookup p name c1 = answer (Reply_entry (entry_of ino st)) c1" "dir_of c1 p (es @ [(ino, name)])"
    "ino \<le> 1024" "inum_ok (ucast ino)" "inode_at c1 (ucast ino) = new_inode t now" "ino \<noteq> p"
    "card (free_blocks c) = Suc (card (free_blocks c1))" "itype (inode_at c (ucast ino)) = 0"
    using assms(1,4-7) new t by (rule make_helper)
  have made: "fuseserver_oper bt de ds q c = answer (r (entry_of ino st)) c1"
    using assms(9) m(1) by (cases q) (auto simp: fuseserver_create_def fuseserver_mknod_def fuseserver_mkdir_def split: if_splits)
  have "name \<in> snd ` set (es @ [(ino, name)])" by simp
  note exists = existing_is_eexist[OF m(3) this]
  have d: "distinct (map fst (es @ [(ino, name)]))" "distinct (map snd (es @ [(ino, name)]))"
    using assms(2,3,8,10) m(9) by auto
  obtain c2 where u: "fuseserver_unlink p name c1 = answer (Reply_err E0) c2" "fuseserver_lookup p name c2 = answer (Reply_err ENOENT) c2"
    "card (free_blocks c2) = Suc (card (free_blocks c1))"
    using m(3) d m(4-6) t m(7) by (rule unlink_new)
  have "fuseserver_lookup p name c = answer (Reply_err ENOENT) c"
    by (simp add: fuseserver_lookup_def lookup_dir[OF assms(1)] new)
  then show ?thesis using made m(2,8) u exists by auto
qed

theorem name_made_once_witness:
  "\<exists>c e c1 c2. chfs_init (\<lambda>n. 0) = Inr (Some c) \<and> fuseserver_oper 8 (\<lambda>n st e. n) id (Mkdir 1 [97]) c = answer (Reply_entry e) c1
     \<and> fuseserver_oper 8 (\<lambda>n st e. n) id (Create 1 [97]) c1 = answer (Reply_err EEXIST) c1
     \<and> fuseserver_unlink 1 [97] c1 = answer (Reply_err E0) c2 \<and> fuseserver_lookup 1 [97] c2 = answer (Reply_err ENOENT) c2"
proof -
  obtain c where c: "chfs_init (\<lambda>n. 0) = Inr (Some c)" "dir_of c 1 []" "free_blocks c \<noteq> {}" "free_inodes c \<noteq> {}"
    by (rule example_root) (rule that)
  have h: "distinct (map fst ([] :: dir_entries))" "distinct (map snd ([] :: dir_entries))" "length ([] :: dir_entries) < 100"
    "name_ok [97]" "[97] \<notin> snd ` set ([] :: dir_entries)" "makes 1 [97] (Mkdir 1 [97]) = Some (1, Reply_entry)"
    "\<forall>i \<in> fst ` set ([] :: dir_entries). itype (inode_at c (ucast i)) \<noteq> 0" by (simp_all add: name_ok_def)
  from name_made_once[OF c(2) h(1-4) c(3,4) h(5-7), of 8 "\<lambda>n st e. n" id "[98]"] c(1) show ?thesis by blast
qed

subsection \<open>Setting the size\<close>

lemma small_getattr: "small_file c i v \<Longrightarrow> \<exists>a. ec_getattr i c = Inr (OK, a)"
proof -
  assume f: "small_file c i v"
  let ?i = "ucast i :: u32" and ?n = "unat (isize (inode_at c (ucast i)))"
  have g: "ok c" "inum_ok ?i" "i \<le> 1024" "isize (inode_at c ?i) = of_nat ?n" "?n \<le> 100"
    "\<forall>b \<in> set (dir_blocks c ?i). data_block b" using f by (auto simp: small_file_def word_le_nat_alt)
  have last: "0 < ?n \<Longrightarrow> data_block (iblocks (inode_at c ?i) ! (?n - 1))" using last_pointer[OF _ g(5,6)] by simp
  obtain s where "get_file_size (Suc 1024) ?i c = Inr s" using get_file_size_direct[OF g(1,2,4,5) data_block_lt[OF last], of 1024] by metis
  then have "get_file_size max_depth ?i c = Inr s" by simp
  then show ?thesis using g(1-3) by (simp add: ec_defs es_defs id_inum_small get_attr_def get_inode_ok del: get_file_size.simps)
qed

text \<open>
  SETATTR with size 0 empties a small file: it is answered with the attributes, reading the file gives
  nothing then, and every other small file reads as before.
\<close>

lemma setattr_empties:
  assumes "small_file c i v" "size_bit AND to_set \<noteq> 0" "st_size attr = 0"
  shows "\<exists>st c'. fuseserver_setattr size_bit i attr to_set c = answer (Reply_attr st) c'
    \<and> fuseserver_read i sz 0 c' = answer (Reply_buf []) c'
    \<and> (\<forall>j w. small_file c j w \<and> j \<noteq> i \<longrightarrow> ec_get j c' = Inr (OK, w))"
proof -
  obtain c' where c': "ec_set_attr i 0 c = Inr (OK, c')" "small_file c' i []" using xs.clear_small[OF assms(1)] by blast
  obtain a where a: "ec_getattr i c' = Inr (OK, a)" using small_getattr[OF c'(2)] ..
  have "fuseserver_setattr size_bit i attr to_set c = answer (Reply_attr (stat_of i a)) c'"
    using assms(2,3) c'(1) by (simp add: fuseserver_setattr_def setattr_def getattr_eq[OF a])
  moreover have "chfs_read i sz 0 c' = Inr (OK, [])" by (simp add: chfs_read_def xs.get_small[OF c'(2)] substr_def Let_def)
  then have "fuseserver_read i sz 0 c' = answer (Reply_buf []) c'" by (simp add: fuseserver_read_def)
  moreover have "ec_get j c' = Inr (OK, w)" if "small_file c j w" "j \<noteq> i" for j w
    using xs.clear_keeps[OF assms(1) that(1) _ c'(1)] that(2) xs.get_small by blast
  ultimately show ?thesis by blast
qed

subsection \<open>Listing\<close>

lemma isdir_small: "dir_of c p es \<Longrightarrow> isdir p c = Inr True"
proof -
  assume d: "dir_of c p es"
  then have g: "ok c" "p \<le> 1024" "inum_ok (ucast p)" "itype (inode_at c (ucast p)) = 1" by (auto simp: dir_of_def dir_at_def)
  then have f: "small_file c p (strip0 (concat (map (data c) (dir_blocks c (ucast p)))))"
    using d by (simp add: small_file_def dir_of_def dir_at_def)
  obtain a where a: "ec_getattr p c = Inr (OK, a)" using small_getattr[OF f] ..
  then have "a_type a = 1" using g by (auto simp: ec_defs es_defs id_inum_small get_attr_def get_inode_ok bindF_eq_Inr)
  then show ?thesis by (simp add: isdir_def a)
qed

lemma reply_buf_limited_eq: "reply_buf_limited buf off sz = Inr (Reply_buf (take (unat sz) (drop (unat off) buf)))"
  by (auto simp: reply_buf_limited_def reply_buf_def min_def)

text \<open>
  The encoding of a listing from a position on: each entry is stored with the position of the next one. A name
  ends at its first zero byte.
\<close>

abbreviation c_str :: "bytes \<Rightarrow> bytes" where "c_str name \<equiv> takeWhile (\<lambda>ch. ch \<noteq> 0) name"

fun listing :: "(bytes \<Rightarrow> stat \<Rightarrow> u64 \<Rightarrow> bytes) \<Rightarrow> (nat \<Rightarrow> nat) \<Rightarrow> nat \<Rightarrow> dir_entries \<Rightarrow> bytes" where
  "listing de ds pos [] = []"
| "listing de ds pos ((i, name) # es) =
     de (c_str name) (zero_stat\<lparr>st_ino := i\<rparr>) (of_nat (pos + ds (length (c_str name))))
       @ listing de ds (pos + ds (length (c_str name))) es"

definition position :: "(nat \<Rightarrow> nat) \<Rightarrow> dir_entries \<Rightarrow> nat" where
  "position ds es = sum_list (map (\<lambda>(i, name). ds (length (c_str name))) es)"

text \<open>What libfuse says of its encoding: it takes as many bytes as \<open>fuse_dirent_size\<close> says for the name.\<close>

definition dirent_sized :: "(bytes \<Rightarrow> stat \<Rightarrow> u64 \<Rightarrow> bytes) \<Rightarrow> (nat \<Rightarrow> nat) \<Rightarrow> bool" where
  "dirent_sized de ds \<longleftrightarrow> (\<forall>name st e. length (de name st e) = ds (length name))"

lemma dirbuf_listing: "dirent_sized de ds \<Longrightarrow> dirbuf_all de ds es b = b @ listing de ds (length b) es"
proof (induction es arbitrary: b)
  case (Cons e es)
  obtain i name where e: "e = (i, name)" by (cases e)
  have "length (de (c_str name) st p) = ds (length (c_str name))" for st p using Cons.prems by (simp add: dirent_sized_def)
  then show ?case using Cons.IH[OF Cons.prems] by (simp add: e dirbuf_add_def Let_def)
qed simp

lemma listing_rest: "dirent_sized de ds \<Longrightarrow> drop (position ds es) (listing de ds pos (es @ fs)) = listing de ds (pos + position ds es) fs"
proof (induction es arbitrary: pos)
  case (Cons e es)
  obtain i name where e: "e = (i, name)" by (cases e)
  have "length (de (c_str name) st p) = ds (length (c_str name))" for st p using Cons.prems by (simp add: dirent_sized_def)
  then show ?case using Cons.IH[OF Cons.prems] by (simp add: e position_def add.assoc)
qed (simp add: position_def)

text \<open>
  C16: With an encoding of entries that is as long as libfuse says (\<open>dirent_sized\<close>), READDIR at
  the position that an entry was listed with goes on with the next entry: it answers the encoding of the
  entries that are left, cut to the size asked for, in which every entry carries the position of the one
  behind it. At the first position that is the whole listing, and at the last one nothing.
\<close>

theorem readdir_goes_on:
  assumes "dir_of c p (es @ fs)" "dirent_sized de ds" "position ds es < 2 ^ 64"
  shows "fuseserver_readdir de ds p sz (of_nat (position ds es)) c
    = answer (Reply_buf (take (unat sz) (listing de ds (position ds es) fs))) c"
proof -
  have "unat (of_nat (position ds es) :: u64) = position ds es" using assms(3) by (simp add: unat_of_nat take_bit_nat_eq_self)
  moreover have "dirbuf_all de ds (es @ fs) [] = listing de ds 0 (es @ fs)" using dirbuf_listing[OF assms(2), of _ "[]"] by simp
  ultimately show ?thesis
    using listing_rest[OF assms(2), of es 0 fs]
    by (simp add: fuseserver_readdir_def isdir_small[OF assms(1)] readdir_def ns.list_eq[OF assms(1)] reply_buf_limited_eq)
qed

theorem readdir_goes_on_witness:
  "\<exists>c ino. fuseserver_readdir (\<lambda>name st e. ucast e # name) Suc 1 10 0 c = answer (Reply_buf [2, 97]) c
     \<and> fuseserver_readdir (\<lambda>name st e. ucast e # name) Suc 1 10 2 c = answer (Reply_buf []) c \<and> dir_of c 1 [(ino, [97])]"
proof -
  obtain c ino where c: "dir_of c 1 [(ino, [97])]" by (rule example_named) (rule that)
  let ?de = "\<lambda>name (st :: stat) (e :: u64). (ucast e :: u8) # name"
  have d: "dirent_sized ?de Suc" by (simp add: dirent_sized_def)
  have "fuseserver_readdir ?de Suc 1 10 (of_nat (position Suc [])) c
      = answer (Reply_buf (take (unat (10 :: u64)) (listing ?de Suc (position Suc []) [(ino, [97])]))) c"
    using c d by (intro readdir_goes_on) (simp_all add: position_def)
  moreover have "fuseserver_readdir ?de Suc 1 10 (of_nat (position Suc [(ino, [97])])) c
      = answer (Reply_buf (take (unat (10 :: u64)) (listing ?de Suc (position Suc [(ino, [97])]) []))) c"
    using c d by (intro readdir_goes_on) (simp_all add: position_def)
  ultimately show ?thesis using c by (auto simp: position_def)
qed

end
