(* ===== verification/Fs_Spec.thy ===== *)
theory Fs_Spec imports Fuse_Properties begin

text \<open>
  What the file system promises, without disk, inode table and pointers: numbered nodes, each a
  directory with its entries or a sequence of bytes, and a count of the blocks left. \<open>fs_step\<close> answers
  one FUSE request. It is a partial function: \<open>None\<close> says that the promise does not cover the request,
  because a resource has run out or a limit of the implementation would be passed.
\<close>

subsection \<open>Nodes\<close>

text \<open>
  A file is the list of blocks it holds and a number of blocks that count. The blocks beyond those stay
  with the file, with their bytes, until a write replaces them or the file is removed; when more count
  than the file holds, the others read as zero bytes. A large file has 100 blocks of its own and
  further pieces, each under a number like a file, with the blocks it holds.
\<close>

datatype kind = Regular | Symbolic

datatype node = Directory dir_entries | Bytes kind nat "bytes list" | Large kind "bytes list" "(u64 \<times> bytes list) list"

text \<open>The numbers in \<open>hidden\<close> are those of pieces, of large files that are there or of what they once were.\<close>

record fs =
  nodes :: "u64 \<Rightarrow> node option"
  room :: nat
  hidden :: "u64 set"

definition content :: "nat \<Rightarrow> bytes list \<Rightarrow> bytes" where
  "content n bs = strip0 (concat (take n bs))"

text \<open>
  The size is not stored: it is found in the last block that counts, and is at least one byte into it.
\<close>

definition size_of :: "nat \<Rightarrow> bytes list \<Rightarrow> nat" where
  "size_of n bs = (if n = 0 then 0
     else 512 * (n - 1) + (if n \<le> length bs then max 1 (length (strip0 (bs ! (n - 1)))) else 1))"

definition pieces_size :: "(u64 \<times> bytes list) list \<Rightarrow> nat" where
  "pieces_size ps = sum_list (map (\<lambda>(i, b). size_of (length b) b) ps)"

definition file_stat :: "u64 \<Rightarrow> kind \<Rightarrow> nat \<Rightarrow> stat" where
  "file_stat i k s = zero_stat\<lparr>st_ino := i, st_mode := (case k of Regular \<Rightarrow> 0x81B6 | Symbolic \<Rightarrow> 0xA1FF),
     st_nlink := 1, st_size := of_nat s\<rparr>"

definition node_stat :: "u64 \<Rightarrow> node \<Rightarrow> stat" where
  "node_stat i n = (case n of
       Directory es \<Rightarrow> zero_stat\<lparr>st_ino := i, st_mode := 0x41FF, st_nlink := 2\<rparr>
     | Bytes k c bs \<Rightarrow> file_stat i k (size_of c bs)
     | Large k bs ps \<Rightarrow> file_stat i k (51200 + pieces_size ps))"

text \<open>The blocks that come back when a node is removed. The block of a table does not.\<close>

fun held :: "node \<Rightarrow> nat" where
  "held (Directory es) = length es"
| "held (Bytes k n bs) = length bs"
| "held (Large k bs ps) = length bs + sum_list (map (\<lambda>(i, b). length b) ps)"

fun pieces :: "node \<Rightarrow> (u64 \<times> bytes list) list" where
  "pieces (Large k bs ps) = ps"
| "pieces n = []"

text \<open>What a file reads as. Each piece loses the zero bytes at its end.\<close>

fun bytes_of :: "node \<Rightarrow> bytes option" where
  "bytes_of (Directory es) = None"
| "bytes_of (Bytes k n bs) = Some (content n bs)"
| "bytes_of (Large k bs ps) = Some (strip0 (concat bs @ concat (map (\<lambda>(i, b). content (length b) b) ps)))"

definition blocks_for :: "bytes \<Rightarrow> nat" where
  "blocks_for w = n_blocks (int (length w))"

definition chunks :: "bytes \<Rightarrow> bytes list" where
  "chunks w = map (nth_block w) [0..<blocks_for w]"

text \<open>The blocks of the pieces behind the first 51200 bytes.\<close>

definition tail_chunks :: "bytes \<Rightarrow> bytes list list" where
  "tail_chunks w = map (\<lambda>l. chunks (chunk w l)) [0..<(length w - 1) div 51200]"

subsection \<open>Steps\<close>

definition fs_init :: fs where
  "fs_init = \<lparr>nodes = [1 \<mapsto> Directory []], room = 2095612, hidden = {}\<rparr>"

text \<open>The lowest number without a node.\<close>

definition fresh :: "fs \<Rightarrow> u64 option" where
  "fresh A = find (\<lambda>i. nodes A i = None) (map of_nat [1..<1025])"

text \<open>A new node under a name: \<open>None\<close> as the number when the name is taken.\<close>

definition fs_make :: "node \<Rightarrow> u64 \<Rightarrow> bytes \<Rightarrow> fs \<Rightarrow> (u64 option \<times> fs) option" where
  "fs_make n p name A = (case nodes A p of
       Some (Directory es) \<Rightarrow>
         if find_name name es \<noteq> None then Some (None, A)
         else (case fresh A of
             Some i \<Rightarrow> if length es < 100 \<and> name_ok name \<and> 0 < room A
               then Some (Some i, A\<lparr>nodes := (nodes A)(i \<mapsto> n, p \<mapsto> Directory (es @ [(i, name)])), room := room A - 1\<rparr>)
               else None
           | None \<Rightarrow> None)
     | _ \<Rightarrow> None)"

text \<open>Each piece takes the lowest number there is, and its blocks.\<close>

fun add_pieces :: "bytes list list \<Rightarrow> fs \<Rightarrow> ((u64 \<times> bytes list) list \<times> fs) option" where
  "add_pieces [] A = Some ([], A)"
| "add_pieces (b # bs) A = Option.bind (fresh A) (\<lambda>i.
     map_option (\<lambda>(ps, B). ((i, b) # ps, B))
       (add_pieces bs (A\<lparr>nodes := (nodes A)(i \<mapsto> Bytes Regular (length b) b), room := room A - length b, hidden := insert i (hidden A)\<rparr>)))"

fun file_of :: "node \<Rightarrow> (kind \<times> bytes list) option" where
  "file_of (Directory es) = None"
| "file_of (Bytes k n bs) = Some (k, bs)"
| "file_of (Large k bs ps) = Some (k, bs)"

text \<open>
  New content takes new blocks for all of it. Those that they replace are lost, and so are the pieces of
  what was there. More than 51200 bytes take pieces, and a block for their table.
\<close>

definition fs_put :: "u64 \<Rightarrow> kind \<Rightarrow> bytes list \<Rightarrow> bytes \<Rightarrow> fs \<Rightarrow> fs option" where
  "fs_put i k bs w A =
     (if length w \<le> 51200
      then if blocks_for w \<le> room A
        then Some (A\<lparr>nodes := (nodes A)(i \<mapsto> Bytes k (blocks_for w) (chunks w @ drop (blocks_for w) bs)), room := room A - blocks_for w\<rparr>)
        else None
      else if length w \<le> 6502400 \<and> blocks_for w < room A
        then map_option (\<lambda>(ps, B). B\<lparr>nodes := (nodes B)(i \<mapsto> Large k (take 100 (chunks w)) ps), room := room B - 101\<rparr>)
          (add_pieces (tail_chunks w) A)
        else None)"

definition fs_write :: "u64 \<Rightarrow> nat \<Rightarrow> bytes \<Rightarrow> fs \<Rightarrow> fs option" where
  "fs_write i off d A = (if i \<in> hidden A then None else Option.bind (nodes A i) (\<lambda>n.
     Option.bind (bytes_of n) (\<lambda>v. Option.bind (file_of n) (\<lambda>(k, bs). fs_put i k bs (write_at off d v) A))))"

text \<open>Only the count of blocks changes, and whether there are pieces.\<close>

definition fs_resize :: "u64 \<Rightarrow> nat \<Rightarrow> fs \<Rightarrow> (node \<times> fs) option" where
  "fs_resize i s A = (if i \<in> hidden A \<or> 51200 < s then None else Option.bind (nodes A i) (\<lambda>n.
     map_option (\<lambda>(k, bs). (Bytes k (n_blocks (int s)) bs, A\<lparr>nodes := (nodes A)(i \<mapsto> Bytes k (n_blocks (int s)) bs)\<rparr>)) (file_of n)))"

definition fs_read :: "u64 \<Rightarrow> nat \<Rightarrow> nat \<Rightarrow> fs \<Rightarrow> bytes option" where
  "fs_read i off sz A = (if off + sz < 2 ^ 63
     then map_option (\<lambda>v. take sz (drop off v)) (Option.bind (nodes A i) bytes_of) else None)"

text \<open>A node goes with its pieces.\<close>

definition fs_remove :: "u64 \<Rightarrow> node \<Rightarrow> fs \<Rightarrow> fs" where
  "fs_remove i n A = (let gone = insert i (fst ` set (pieces n))
     in A\<lparr>nodes := (\<lambda>j. if j \<in> gone then None else nodes A j), room := room A + held n, hidden := hidden A - gone\<rparr>)"

definition fs_unlink :: "u64 \<Rightarrow> bytes \<Rightarrow> fs \<Rightarrow> fs option" where
  "fs_unlink p name A = (case nodes A p of
       Some (Directory es) \<Rightarrow> (case find_name name es of
           None \<Rightarrow> Some A
         | Some i \<Rightarrow> map_option (\<lambda>n. let B = fs_remove i n A
             in B\<lparr>nodes := (nodes B)(p \<mapsto> Directory (swap_out (entry_index (ucast i) es) es)), room := room B + 1\<rparr>) (nodes A i))
     | _ \<Rightarrow> None)"

definition fs_lookup :: "u64 \<Rightarrow> bytes \<Rightarrow> fs \<Rightarrow> reply option" where
  "fs_lookup p name A = (case nodes A p of
       Some (Directory es) \<Rightarrow> (case find_name name es of
           None \<Rightarrow> Some (Reply_err ENOENT)
         | Some i \<Rightarrow> map_option (\<lambda>n. Reply_entry (entry_of i (node_stat i n))) (nodes A i))
     | _ \<Rightarrow> None)"

definition made :: "(entry_param \<Rightarrow> reply) \<Rightarrow> node \<Rightarrow> u64 option \<Rightarrow> reply" where
  "made r n i = (case i of None \<Rightarrow> Reply_err EEXIST | Some i \<Rightarrow> r (entry_of i (node_stat i n)))"

text \<open>The entry of a new link is answered with the size it had before its text was written.\<close>

fun fs_step :: "u32 \<Rightarrow> (bytes \<Rightarrow> stat \<Rightarrow> u64 \<Rightarrow> bytes) \<Rightarrow> (nat \<Rightarrow> nat) \<Rightarrow> request \<Rightarrow> fs \<Rightarrow> (reply \<times> fs) option" where
  "fs_step bt de ds (Getattr i) A = map_option (\<lambda>n. (Reply_attr (node_stat i n), A)) (nodes A i)"
| "fs_step bt de ds Statfs A = Some (Reply_statfs \<lparr>f_bsize = 512, f_namemax = 255\<rparr>, A)"
| "fs_step bt de ds (Readdir i sz off) A = map_option (\<lambda>n. (case n of
       Directory es \<Rightarrow> Reply_buf (take (unat sz) (drop (unat off) (dirbuf_all de ds es [])))
     | _ \<Rightarrow> Reply_err ENOTDIR, A)) (nodes A i)"
| "fs_step bt de ds (Lookup p name) A = map_option (\<lambda>r. (r, A)) (fs_lookup p name A)"
| "fs_step bt de ds (Create p name) A =
     map_option (\<lambda>(i, B). (made Reply_create (Bytes Regular 0 []) i, B)) (fs_make (Bytes Regular 0 []) p name A)"
| "fs_step bt de ds (Mknod p name) A =
     map_option (\<lambda>(i, B). (made Reply_entry (Bytes Regular 0 []) i, B)) (fs_make (Bytes Regular 0 []) p name A)"
| "fs_step bt de ds (Open i) A = Some (Reply_open, A)"
| "fs_step bt de ds (Read i sz off) A = map_option (\<lambda>d. (Reply_buf d, A)) (fs_read i (unat off) (unat sz) A)"
| "fs_step bt de ds (Write i buf sz off) A =
     (if unat sz \<le> length buf
      then map_option (\<lambda>B. (Reply_write sz, B)) (fs_write i (unat off) (take (unat sz) buf) A) else None)"
| "fs_step bt de ds (Setattr i attr to_set) A =
     (if bt AND to_set = 0 then Some (Reply_err ENOSYS, A)
      else map_option (\<lambda>(n, B). (Reply_attr (node_stat i n), B)) (fs_resize i (unat (st_size attr)) A))"
| "fs_step bt de ds (Unlink p name) A = map_option (\<lambda>B. (Reply_err E0, B)) (fs_unlink p name A)"
| "fs_step bt de ds (Mkdir p name) A =
     map_option (\<lambda>(i, B). (made Reply_entry (Directory []) i, B)) (fs_make (Directory []) p name A)"
| "fs_step bt de ds (Symlink target p name) A = Option.bind (fs_make (Bytes Symbolic 0 []) p name A) (\<lambda>(i, B).
     map_option (\<lambda>C. (made Reply_entry (Bytes Symbolic 0 []) i, C))
       (case i of None \<Rightarrow> Some B | Some i \<Rightarrow> fs_write i 0 target B))"
| "fs_step bt de ds (Readlink i) A = map_option (\<lambda>d. (Reply_buf d, A)) (fs_read i 0 0xFFFFFFFF A)"

subsection \<open>Its invariant\<close>

text \<open>
  The names and the numbers of a directory are distinct, a number is in one directory at most, and never in
  its own; every number that an entry has is that of a node.
\<close>

definition dirs_ok :: "fs \<Rightarrow> bool" where
  "dirs_ok A \<longleftrightarrow> (\<forall>i. nodes A i \<noteq> None \<longrightarrow> i \<noteq> 0 \<and> i \<le> 1024)
     \<and> (\<forall>p es. nodes A p = Some (Directory es) \<longrightarrow> distinct (map fst es) \<and> distinct (map snd es)
          \<and> (\<forall>i \<in> fst ` set es. i \<noteq> p \<and> nodes A i \<noteq> None))
     \<and> (\<forall>p q es fs. nodes A p = Some (Directory es) \<and> nodes A q = Some (Directory fs) \<and> p \<noteq> q
          \<longrightarrow> fst ` set es \<inter> fst ` set fs = {})"

text \<open>
  A piece is a file that holds all of its blocks, has no name and is in one large file at most, which has
  its blocks.
\<close>

definition pieces_ok :: "fs \<Rightarrow> bool" where
  "pieces_ok A \<longleftrightarrow> (\<forall>j \<in> hidden A. \<exists>b. nodes A j = Some (Bytes Regular (length b) b))
     \<and> (\<forall>i n. nodes A i = Some n \<longrightarrow> distinct (map fst (pieces n))
          \<and> (\<forall>(j, b) \<in> set (pieces n). j \<in> hidden A \<and> nodes A j = Some (Bytes Regular (length b) b)))
     \<and> (\<forall>i l n x. nodes A i = Some n \<and> nodes A l = Some x \<and> i \<noteq> l
          \<longrightarrow> fst ` set (pieces n) \<inter> fst ` set (pieces x) = {})
     \<and> (\<forall>p es. nodes A p = Some (Directory es) \<longrightarrow> fst ` set es \<inter> hidden A = {})"

definition fs_ok :: "fs \<Rightarrow> bool" where
  "fs_ok A \<longleftrightarrow> dirs_ok A \<and> pieces_ok A"

lemma dirs_okI:
  assumes "\<And>i n. nodes A i = Some n \<Longrightarrow> i \<noteq> 0 \<and> i \<le> 1024"
    and "\<And>p es. nodes A p = Some (Directory es) \<Longrightarrow> distinct (map fst es) \<and> distinct (map snd es)"
    and "\<And>p es i. nodes A p = Some (Directory es) \<Longrightarrow> i \<in> fst ` set es \<Longrightarrow> i \<noteq> p \<and> nodes A i \<noteq> None"
    and "\<And>p q es fs i. nodes A p = Some (Directory es) \<Longrightarrow> nodes A q = Some (Directory fs) \<Longrightarrow>
      i \<in> fst ` set es \<Longrightarrow> i \<in> fst ` set fs \<Longrightarrow> p = q"
  shows "dirs_ok A"
  unfolding dirs_ok_def using assms by blast

lemma pieces_okI:
  assumes "\<And>j. j \<in> hidden A \<Longrightarrow> \<exists>b. nodes A j = Some (Bytes Regular (length b) b)"
    and "\<And>i n. nodes A i = Some n \<Longrightarrow> distinct (map fst (pieces n))"
    and "\<And>i n j b. nodes A i = Some n \<Longrightarrow> (j, b) \<in> set (pieces n) \<Longrightarrow> j \<in> hidden A \<and> nodes A j = Some (Bytes Regular (length b) b)"
    and "\<And>i l n x j. nodes A i = Some n \<Longrightarrow> nodes A l = Some x \<Longrightarrow> j \<in> fst ` set (pieces n) \<Longrightarrow> j \<in> fst ` set (pieces x) \<Longrightarrow> i = l"
    and "\<And>p es j. nodes A p = Some (Directory es) \<Longrightarrow> j \<in> fst ` set es \<Longrightarrow> j \<notin> hidden A"
  shows "pieces_ok A"
  unfolding pieces_ok_def
proof (intro conjI ballI allI impI)
  fix i n x assume n: "nodes A i = Some n" and x: "x \<in> set (pieces n)"
  then show "case x of (j, b) \<Rightarrow> j \<in> hidden A \<and> nodes A j = Some (Bytes Regular (length b) b)"
    using assms(3)[OF n, of "fst x" "snd x"] by (cases x) simp
qed (use assms(1,2,4,5) in blast)+

lemma fs_okD:
  assumes "fs_ok A"
  shows "nodes A i = Some n \<Longrightarrow> i \<noteq> 0 \<and> i \<le> 1024"
    and "nodes A p = Some (Directory es) \<Longrightarrow> distinct (map fst es) \<and> distinct (map snd es)"
    and "nodes A p = Some (Directory es) \<Longrightarrow> i \<in> fst ` set es \<Longrightarrow> i \<noteq> p \<and> nodes A i \<noteq> None"
    and "nodes A p = Some (Directory es) \<Longrightarrow> nodes A q = Some (Directory fs) \<Longrightarrow>
      i \<in> fst ` set es \<Longrightarrow> i \<in> fst ` set fs \<Longrightarrow> p = q"
proof -
  note A = assms[unfolded fs_ok_def dirs_ok_def, THEN conjunct1]
  show "nodes A i = Some n \<Longrightarrow> i \<noteq> 0 \<and> i \<le> 1024" using A[THEN conjunct1] by simp
  show "nodes A p = Some (Directory es) \<Longrightarrow> distinct (map fst es) \<and> distinct (map snd es)"
    using A[THEN conjunct2, THEN conjunct1] by simp
  show "nodes A p = Some (Directory es) \<Longrightarrow> i \<in> fst ` set es \<Longrightarrow> i \<noteq> p \<and> nodes A i \<noteq> None"
    using A[THEN conjunct2, THEN conjunct1] by blast
  show "nodes A p = Some (Directory es) \<Longrightarrow> nodes A q = Some (Directory fs) \<Longrightarrow>
      i \<in> fst ` set es \<Longrightarrow> i \<in> fst ` set fs \<Longrightarrow> p = q"
    using A[THEN conjunct2, THEN conjunct2] by blast
qed

lemma fs_pieces:
  assumes "fs_ok A"
  shows "j \<in> hidden A \<Longrightarrow> \<exists>b. nodes A j = Some (Bytes Regular (length b) b)"
    and "nodes A i = Some n \<Longrightarrow> distinct (map fst (pieces n))"
    and "nodes A i = Some n \<Longrightarrow> (j, b) \<in> set (pieces n) \<Longrightarrow> j \<in> hidden A \<and> nodes A j = Some (Bytes Regular (length b) b)"
    and "nodes A i = Some n \<Longrightarrow> nodes A l = Some x \<Longrightarrow> j \<in> fst ` set (pieces n) \<Longrightarrow> j \<in> fst ` set (pieces x) \<Longrightarrow> i = l"
    and "nodes A p = Some (Directory es) \<Longrightarrow> j \<in> fst ` set es \<Longrightarrow> j \<notin> hidden A"
proof -
  note A = assms[unfolded fs_ok_def pieces_ok_def, THEN conjunct2]
  show "j \<in> hidden A \<Longrightarrow> \<exists>b. nodes A j = Some (Bytes Regular (length b) b)" using A[THEN conjunct1] by blast
  show "nodes A i = Some n \<Longrightarrow> distinct (map fst (pieces n))" using A[THEN conjunct2, THEN conjunct1] by blast
  show "nodes A i = Some n \<Longrightarrow> (j, b) \<in> set (pieces n) \<Longrightarrow> j \<in> hidden A \<and> nodes A j = Some (Bytes Regular (length b) b)"
    using A[THEN conjunct2, THEN conjunct1] by fastforce
  show "nodes A i = Some n \<Longrightarrow> nodes A l = Some x \<Longrightarrow> j \<in> fst ` set (pieces n) \<Longrightarrow> j \<in> fst ` set (pieces x) \<Longrightarrow> i = l"
    using A[THEN conjunct2, THEN conjunct2, THEN conjunct1] by blast
  show "nodes A p = Some (Directory es) \<Longrightarrow> j \<in> fst ` set es \<Longrightarrow> j \<notin> hidden A"
    using A[THEN conjunct2, THEN conjunct2, THEN conjunct2] by blast
qed

lemma fs_ok_init: "fs_ok fs_init"
  unfolding fs_ok_def
  by (intro conjI dirs_okI pieces_okI) (auto simp: fs_init_def split: if_splits)

lemma fresh_Some:
  assumes "fresh A = Some i"
  shows "nodes A i = None" "i \<noteq> 0" "i \<le> 1024" "\<forall>j. j \<noteq> 0 \<and> j < i \<longrightarrow> nodes A j \<noteq> None"
proof -
  obtain k where k: "k < 1024" "i = of_nat (Suc k)" "nodes A i = None" "\<forall>l < k. nodes A (of_nat (Suc l)) \<noteq> None"
    using assms unfolding fresh_def find_Some_iff by (auto simp del: of_nat_Suc simp flip: upt_Suc)
  have i: "unat i = Suc k" using k(1,2) by (simp only: unat_of_nat take_bit_nat_eq_self) (simp add: take_bit_nat_eq_self)
  show "nodes A i = None" "i \<noteq> 0" "i \<le> 1024" using k i by (auto simp: word_le_nat_alt)
  show "\<forall>j. j \<noteq> 0 \<and> j < i \<longrightarrow> nodes A j \<noteq> None"
  proof (intro allI impI)
    fix j assume "j \<noteq> 0 \<and> j < i"
    then have "unat j < Suc k" "0 < unat j" using i by (auto simp: word_less_nat_alt unat_gt_0)
    then have "unat j - 1 < k" "of_nat (Suc (unat j - 1)) = j" by simp_all
    then show "nodes A j \<noteq> None" using k(4) by metis
  qed
qed

text \<open>Changes that leave the directories alone.\<close>

lemma dirs_ok_files:
  assumes "dirs_ok A" "\<And>p es. nodes B p = Some (Directory es) \<longleftrightarrow> nodes A p = Some (Directory es)"
    and "\<And>j. nodes A j \<noteq> None \<Longrightarrow> nodes B j \<noteq> None" "\<And>j. nodes B j \<noteq> None \<Longrightarrow> nodes A j = None \<Longrightarrow> j \<noteq> 0 \<and> j \<le> 1024"
  shows "dirs_ok B"
proof -
  note A = assms(1)[unfolded dirs_ok_def]
  show ?thesis
  proof (rule dirs_okI)
    show "j \<noteq> 0 \<and> j \<le> 1024" if "nodes B j = Some x" for j x
      using A[THEN conjunct1] assms(4)[of j] that by (cases "nodes A j") simp_all
    show "distinct (map fst es) \<and> distinct (map snd es)" if "nodes B p = Some (Directory es)" for p es
      using A[THEN conjunct2, THEN conjunct1] that unfolding assms(2) by blast
    show "j \<noteq> p \<and> nodes B j \<noteq> None" if "nodes B p = Some (Directory es)" "j \<in> fst ` set es" for p es j
      using A[THEN conjunct2, THEN conjunct1] that assms(3)[of j] unfolding assms(2) by blast
    show "p = q" if "nodes B p = Some (Directory es)" "nodes B q = Some (Directory fs)" "j \<in> fst ` set es" "j \<in> fst ` set fs" for p q es fs j
      using A[THEN conjunct2, THEN conjunct2] that unfolding assms(2) by blast
  qed
qed

text \<open>A file under a number that is not hidden gets other content, without pieces.\<close>

lemma fs_set_bytes_ok:
  assumes "fs_ok A" "nodes A i = Some n" "file_of n \<noteq> None" "i \<notin> hidden A"
    and "nodes B = (nodes A)(i \<mapsto> Bytes k' n' bs')" "hidden B = hidden A"
  shows "fs_ok B"
proof -
  have not_dir: "n \<noteq> Directory es" for es using assms(3) by auto
  have "dirs_ok B"
    using assms(1) unfolding fs_ok_def
    by (elim conjE dirs_ok_files) (use assms(2,5) not_dir in \<open>auto split: if_splits\<close>)
  moreover have "pieces_ok B"
  proof (rule pieces_okI)
    have old: "pieces x = [] \<or> nodes A l = Some x" if "nodes B l = Some x" for l x
      using that assms(5) by (auto split: if_splits)
    have keep: "nodes B j = nodes A j" if "j \<in> hidden A" for j using that assms(4,5) by auto
    show "\<exists>b. nodes B j = Some (Bytes Regular (length b) b)" if "j \<in> hidden B" for j
      using fs_pieces(1)[OF assms(1)] keep that assms(6) by simp
    show "distinct (map fst (pieces x))" if "nodes B l = Some x" for l x
      using old[OF that] fs_pieces(2)[OF assms(1)] by auto
    show "j \<in> hidden B \<and> nodes B j = Some (Bytes Regular (length b) b)" if "nodes B l = Some x" "(j, b) \<in> set (pieces x)" for l x j b
      using old[OF that(1)] that(2) fs_pieces(3)[OF assms(1)] keep assms(6) by fastforce
    show "l = l'" if "nodes B l = Some x" "nodes B l' = Some x'" "j \<in> fst ` set (pieces x)" "j \<in> fst ` set (pieces x')" for l l' x x' j
    proof -
      have "pieces x \<noteq> []" "pieces x' \<noteq> []" using that(3,4) by auto
      then show ?thesis using old[OF that(1)] old[OF that(2)] fs_pieces(4)[OF assms(1) _ _ that(3,4)] by blast
    qed
    show "j \<notin> hidden B" if "nodes B p = Some (Directory es)" "j \<in> fst ` set es" for p es j
      using that assms(5,6) fs_pieces(5)[OF assms(1)] by (auto split: if_splits)
  qed
  ultimately show ?thesis by (simp add: fs_ok_def)
qed

text \<open>
  Changes of names: some nodes are gone, those that stay have the pieces they had, and no entry leads to a
  piece.
\<close>

lemma pieces_ok_fewer:
  assumes "fs_ok A" "hidden B = hidden A - G"
    and keep: "\<And>j. j \<in> hidden A \<Longrightarrow> j \<notin> G \<Longrightarrow> nodes B j = nodes A j"
    and large: "\<And>l x. nodes B l = Some x \<Longrightarrow> pieces x \<noteq> [] \<Longrightarrow> nodes A l = Some x \<and> fst ` set (pieces x) \<inter> G = {}"
    and entries: "\<And>q gs j. nodes B q = Some (Directory gs) \<Longrightarrow> j \<in> fst ` set gs \<Longrightarrow> j \<notin> hidden B"
  shows "pieces_ok B"
proof (rule pieces_okI)
  note P = fs_pieces[OF assms(1)]
  show "\<exists>b. nodes B j = Some (Bytes Regular (length b) b)" if "j \<in> hidden B" for j
    using that P(1)[of j] keep[of j] by (simp add: assms(2))
  show "distinct (map fst (pieces x))" if "nodes B l = Some x" for l x
    using large[OF that] P(2)[of l x] by (cases "pieces x = []") auto
  show "j \<in> hidden B \<and> nodes B j = Some (Bytes Regular (length b) b)" if x: "nodes B l = Some x" "(j, b) \<in> set (pieces x)" for l x j b
  proof -
    have "pieces x \<noteq> []" using x(2) by auto
    then have l: "nodes A l = Some x" "fst ` set (pieces x) \<inter> G = {}" using large[OF x(1)] by blast+
    have "j \<notin> G" using l(2) x(2) by force
    then show ?thesis using P(3)[OF l(1) x(2)] keep[of j] by (simp add: assms(2))
  qed
  show "l = l'" if a: "nodes B l = Some x" "nodes B l' = Some x'" "j \<in> fst ` set (pieces x)" "j \<in> fst ` set (pieces x')" for l l' x x' j
  proof -
    have "pieces x \<noteq> []" "pieces x' \<noteq> []" using a(3,4) by auto
    then show ?thesis using large[OF a(1)] large[OF a(2)] P(4)[OF _ _ a(3,4)] by blast
  qed
  show "j \<notin> hidden B" if "nodes B q = Some (Directory gs)" "j \<in> fst ` set gs" for q gs j
    using that by (rule entries)
qed

lemma fs_make_cases:
  assumes "fs_make n p name A = Some (i, B)"
  obtains (taken) "i = None" "B = A"
    | (new) es j where "nodes A p = Some (Directory es)" "i = Some j" "fresh A = Some j" "name \<notin> snd ` set es" "j \<noteq> p"
      "B = A\<lparr>nodes := (nodes A)(j \<mapsto> n, p \<mapsto> Directory (es @ [(j, name)])), room := room A - 1\<rparr>"
proof -
  obtain es where es: "nodes A p = Some (Directory es)" using assms by (auto simp: fs_make_def split: option.splits node.splits)
  show thesis
  proof (cases i)
    case None
    then show thesis using taken assms es by (auto simp: fs_make_def split: if_splits option.splits)
  next
    case (Some j)
    then have B: "fresh A = Some j" "find_name name es = None"
      "B = A\<lparr>nodes := (nodes A)(j \<mapsto> n, p \<mapsto> Directory (es @ [(j, name)])), room := room A - 1\<rparr>"
      using assms es by (auto simp: fs_make_def split: if_splits option.splits)
    moreover have "name \<notin> snd ` set es" using B(2) by (simp add: find_name_None)
    moreover have "j \<noteq> p" using fresh_Some(1)[OF B(1)] es by auto
    ultimately show thesis using new[OF es] Some by blast
  qed
qed

lemma fs_make_ok:
  assumes "fs_ok A" "fs_make n p name A = Some (i, B)" "held n = 0" "pieces n = []"
  shows "fs_ok B"
  using assms(2)
proof (cases rule: fs_make_cases)
  case taken
  then show ?thesis using assms(1) by simp
next
  case (new es j)
  note A = fs_okD[OF assms(1)] and P = fs_pieces[OF assms(1)] and j = fresh_Some[OF new(3)]
  have nr: "nodes B q = (if q = p then Some (Directory (es @ [(j, name)])) else if q = j then Some n else nodes A q)" for q
    using new(6) by simp
  have no_entry: "j \<notin> fst ` set gs" if "nodes A q = Some (Directory gs)" for q gs
    using A(3)[OF that] j(1) by blast
  have old: "nodes A q = Some (Directory gs) \<or> gs = []" if "nodes B q = Some (Directory gs)" "q \<noteq> p" for q gs
    using assms(3) that by (auto simp: nr split: if_splits)
  have entries: "q = p \<and> k = j \<or> (\<exists>hs. nodes A q = Some (Directory hs) \<and> k \<in> fst ` set hs)"
    if "nodes B q = Some (Directory gs)" "k \<in> fst ` set gs" for q gs k
  proof (cases "q = p")
    case True
    then have "gs = es @ [(j, name)]" using that(1) by (simp add: nr)
    then show ?thesis using True that(2) new(1) by auto
  qed (use old[OF that(1)] that(2) in auto)
  have "dirs_ok B"
  proof (rule dirs_okI)
    show "q \<noteq> 0 \<and> q \<le> 1024" if "nodes B q = Some x" for q x
      using that A(1)[OF new(1)] A(1)[of q x] j by (auto simp: nr split: if_splits)
    show "distinct (map fst gs) \<and> distinct (map snd gs)" if q: "nodes B q = Some (Directory gs)" for q gs
    proof (cases "q = p")
      case True
      then have "gs = es @ [(j, name)]" using q by (simp add: nr)
      then show ?thesis using A(2)[OF new(1)] no_entry[OF new(1)] new(4) by simp
    qed (use old[OF q] A(2) in fastforce)
    show "k \<noteq> q \<and> nodes B k \<noteq> None" if "nodes B q = Some (Directory gs)" "k \<in> fst ` set gs" for q gs k
      using entries[OF that]
    proof (elim disjE conjE exE)
      fix hs assume "nodes A q = Some (Directory hs)" "k \<in> fst ` set hs"
      then show ?thesis using A(3) by (auto simp: nr simp del: split_paired_Ex image_iff)
    qed (use new(5) in \<open>simp add: nr\<close>)
    show "q = r" if "nodes B q = Some (Directory gs)" "nodes B r = Some (Directory hs)" "k \<in> fst ` set gs" "k \<in> fst ` set hs"
      for q r gs hs k
      using entries[OF that(1,3)] entries[OF that(2,4)] no_entry A(4) by blast
  qed
  moreover have "pieces_ok B"
  proof (rule pieces_ok_fewer[OF assms(1), of B "{}"])
    have h: "j \<notin> hidden A" "p \<notin> hidden A" using P(1) j(1) new(1) by force+
    show "hidden B = hidden A - {}" using new(6) by simp
    show "nodes B k = nodes A k" if "k \<in> hidden A" for k using that h nr by auto
    show "nodes A l = Some x \<and> fst ` set (pieces x) \<inter> {} = {}" if "nodes B l = Some x" "pieces x \<noteq> []" for l x
      using that assms(4) by (auto simp: nr split: if_splits)
    show "k \<notin> hidden B" if "nodes B q = Some (Directory gs)" "k \<in> fst ` set gs" for q gs k
      using entries[OF that] h(1) P(5) new(6) by auto
  qed
  ultimately show ?thesis by (simp add: fs_ok_def)
qed

lemma set_swap_out_eq: "distinct xs \<Longrightarrow> k < length xs \<Longrightarrow> set (swap_out k xs) = set xs - {xs ! k}"
proof -
  assume d: "distinct xs" "k < length xs"
  have "mset xs = add_mset (xs ! k) (mset (swap_out k xs))" using d(2) by (simp add: mset_swap_out)
  then have "set xs = insert (xs ! k) (set (swap_out k xs))" by (metis set_mset_add_mset_insert set_mset_mset)
  then show ?thesis using swap_out_removes[OF d] by blast
qed

text \<open>Pieces.\<close>

lemma add_piece_ok:
  assumes "fs_ok A" "fresh A = Some i"
  shows "fs_ok (A\<lparr>nodes := (nodes A)(i \<mapsto> Bytes Regular (length b) b), room := r, hidden := insert i (hidden A)\<rparr>)"
    (is "fs_ok ?B")
proof -
  note i = fresh_Some[OF assms(2)]
  have "dirs_ok ?B"
    using assms(1) unfolding fs_ok_def by (elim conjE dirs_ok_files) (use i in \<open>auto split: if_splits\<close>)
  moreover have "pieces_ok ?B"
  proof (rule pieces_okI)
    have old: "pieces x = [] \<or> nodes A l = Some x" if "nodes ?B l = Some x" for l x
      using that by (auto split: if_splits)
    have keep: "nodes ?B j = nodes A j" if "j \<in> hidden A" for j using fs_pieces(1)[OF assms(1) that] i(1) by auto
    show "\<exists>b. nodes ?B j = Some (Bytes Regular (length b) b)" if "j \<in> hidden ?B" for j
      using fs_pieces(1)[OF assms(1)] keep that by (cases "j = i") simp_all
    show "distinct (map fst (pieces x))" if "nodes ?B l = Some x" for l x
      using old[OF that] fs_pieces(2)[OF assms(1)] by auto
    show "j \<in> hidden ?B \<and> nodes ?B j = Some (Bytes Regular (length c) c)" if "nodes ?B l = Some x" "(j, c) \<in> set (pieces x)" for l x j c
    proof -
      have "pieces x \<noteq> []" using that(2) by auto
      then have "j \<in> hidden A \<and> nodes A j = Some (Bytes Regular (length c) c)"
        using old[OF that(1)] fs_pieces(3)[OF assms(1) _ that(2)] by blast
      then show ?thesis using keep[of j] by simp
    qed
    show "l = l'" if "nodes ?B l = Some x" "nodes ?B l' = Some x'" "j \<in> fst ` set (pieces x)" "j \<in> fst ` set (pieces x')" for l l' x x' j
    proof -
      have "pieces x \<noteq> []" "pieces x' \<noteq> []" using that(3,4) by auto
      then show ?thesis using old[OF that(1)] old[OF that(2)] fs_pieces(4)[OF assms(1) _ _ that(3,4)] by blast
    qed
    show "j \<notin> hidden ?B" if "nodes ?B p = Some (Directory es)" "j \<in> fst ` set es" for p es j
    proof -
      have p: "nodes A p = Some (Directory es)" using that(1) by (simp split: if_splits)
      then show ?thesis using fs_okD(3)[OF assms(1) p that(2)] fs_pieces(5)[OF assms(1) p that(2)] i(1) by auto
    qed
  qed
  ultimately show ?thesis by (simp add: fs_ok_def)
qed

lemma add_pieces_does:
  assumes "add_pieces bss A = Some (ps, B)" "fs_ok A"
  shows "fs_ok B \<and> map snd ps = bss \<and> distinct (map fst ps) \<and> (\<forall>j \<in> fst ` set ps. nodes A j = None)
    \<and> (\<forall>j. nodes B j = (case map_of ps j of None \<Rightarrow> nodes A j | Some b \<Rightarrow> Some (Bytes Regular (length b) b)))
    \<and> hidden B = hidden A \<union> fst ` set ps"
  using assms
proof (induction bss arbitrary: A ps)
  case Nil
  then show ?case by simp
next
  case (Cons b bss)
  obtain i qs where i: "fresh A = Some i" "ps = (i, b) # qs"
    "add_pieces bss (A\<lparr>nodes := (nodes A)(i \<mapsto> Bytes Regular (length b) b), room := room A - length b, hidden := insert i (hidden A)\<rparr>) = Some (qs, B)"
    using Cons.prems(1) by (auto simp: Option.bind_eq_Some_conv)
  let ?A = "A\<lparr>nodes := (nodes A)(i \<mapsto> Bytes Regular (length b) b), room := room A - length b, hidden := insert i (hidden A)\<rparr>"
  note h = Cons.IH[OF i(3) add_piece_ok[OF Cons.prems(2) i(1)]]
  note ih = h[THEN conjunct1] h[THEN conjunct2, THEN conjunct1] h[THEN conjunct2, THEN conjunct2, THEN conjunct1]
    h[THEN conjunct2, THEN conjunct2, THEN conjunct2, THEN conjunct1]
    h[THEN conjunct2, THEN conjunct2, THEN conjunct2, THEN conjunct2, THEN conjunct1, rule_format]
    h[THEN conjunct2, THEN conjunct2, THEN conjunct2, THEN conjunct2, THEN conjunct2]
  have new: "i \<notin> fst ` set qs" using ih(4) by auto
  then have "map_of qs i = None" by (simp add: map_of_eq_None_iff)
  then have "nodes B j = (case map_of ps j of None \<Rightarrow> nodes A j | Some b \<Rightarrow> Some (Bytes Regular (length b) b))" for j
    using ih(5)[of j] unfolding i(2) by (simp split: option.splits)
  moreover have "\<forall>j \<in> fst ` set ps. nodes A j = None" using ih(4) new fresh_Some(1)[OF i(1)] unfolding i(2) by (auto split: if_splits)
  ultimately show ?case using ih(1-3,6) new unfolding i(2) by simp
qed

lemma add_piecesD:
  assumes "add_pieces bss A = Some (ps, B)" "fs_ok A"
  shows "fs_ok B" "map snd ps = bss" "distinct (map fst ps)" "\<forall>j \<in> fst ` set ps. nodes A j = None"
    "nodes B j = (case map_of ps j of None \<Rightarrow> nodes A j | Some b \<Rightarrow> Some (Bytes Regular (length b) b))"
    "hidden B = hidden A \<union> fst ` set ps"
proof -
  note h = add_pieces_does[OF assms]
  show "fs_ok B" "map snd ps = bss" "distinct (map fst ps)" "\<forall>j \<in> fst ` set ps. nodes A j = None" using h by simp_all
  show "nodes B j = (case map_of ps j of None \<Rightarrow> nodes A j | Some b \<Rightarrow> Some (Bytes Regular (length b) b))"
    using h[THEN conjunct2, THEN conjunct2, THEN conjunct2, THEN conjunct2, THEN conjunct1] by (rule spec)
  show "hidden B = hidden A \<union> fst ` set ps" using h by simp
qed

lemma add_pieces_keeps:
  assumes "add_pieces bss A = Some (ps, B)" "fs_ok A" "nodes A j = Some n"
  shows "nodes B j = Some n" "j \<notin> fst ` set ps"
proof -
  show n: "j \<notin> fst ` set ps" using add_piecesD(4)[OF assms(1,2)] assms(3) by force
  then have "map_of ps j = None" by (simp add: map_of_eq_None_iff)
  then show "nodes B j = Some n" using add_piecesD(5)[OF assms(1,2), of j] assms(3) by simp
qed

lemma fs_set_large_ok:
  assumes "fs_ok A" "nodes A i = Some n" "file_of n \<noteq> None" "i \<notin> hidden A" "add_pieces bss A = Some (ps, B)"
  shows "fs_ok (B\<lparr>nodes := (nodes B)(i \<mapsto> Large k bs ps), room := r\<rparr>)" (is "fs_ok ?C")
proof -
  note B = add_piecesD(1,3,4,6,5)[OF assms(5,1)]
  have i: "nodes B i = Some n" "i \<notin> hidden B" using add_pieces_keeps[OF assms(5,1,2)] assms(4) B(4) by simp_all
  have not_dir: "n \<noteq> Directory es" for es using assms(3) by auto
  have "dirs_ok ?C"
    using B(1) unfolding fs_ok_def by (elim conjE dirs_ok_files) (use i(1) not_dir in \<open>auto split: if_splits\<close>)
  moreover have "pieces_ok ?C"
  proof (rule pieces_okI)
    have keep: "nodes ?C j = nodes B j" if "j \<in> hidden B" for j using that i(2) by auto
    have old: "nodes A l = Some x \<and> nodes B l = Some x" if "nodes ?C l = Some x" "l \<noteq> i" "pieces x \<noteq> []" for l x
      using that B(5)[of l] by (auto split: option.splits)
    have mine: "j \<in> hidden B \<and> nodes B j = Some (Bytes Regular (length b) b)" if "(j, b) \<in> set ps" for j b
      using that B(2,4) B(5)[of j] map_of_is_SomeI[OF B(2) that] by force
    have not_mine: "j \<notin> fst ` set ps" if "nodes A l = Some x" "j \<in> fst ` set (pieces x)" for l x j
      using fs_pieces(3)[OF assms(1) that(1)] that(2) B(3) by force
    show "\<exists>b. nodes ?C j = Some (Bytes Regular (length b) b)" if "j \<in> hidden ?C" for j
      using fs_pieces(1)[OF B(1)] keep that by simp
    show "distinct (map fst (pieces x))" if "nodes ?C l = Some x" for l x
      using that B(2) fs_pieces(2)[OF B(1)] by (auto split: if_splits)
    show "j \<in> hidden ?C \<and> nodes ?C j = Some (Bytes Regular (length b) b)" if "nodes ?C l = Some x" "(j, b) \<in> set (pieces x)" for l x j b
    proof -
      have "j \<in> hidden B \<and> nodes B j = Some (Bytes Regular (length b) b)"
      proof (cases "l = i")
        case True
        then have "x = Large k bs ps" using that(1) by simp
        then show ?thesis using that(2) mine by simp
      next
        case False
        have "pieces x \<noteq> []" using that(2) by auto
        then have "nodes B l = Some x" using old[OF that(1) False] by blast
        then show ?thesis using fs_pieces(3)[OF B(1) _ that(2)] by blast
      qed
      then show ?thesis using keep[of j] by simp
    qed
    show "l = l'" if a: "nodes ?C l = Some x" "nodes ?C l' = Some x'" "j \<in> fst ` set (pieces x)" "j \<in> fst ` set (pieces x')" for l l' x x' j
    proof -
      have ne: "pieces x \<noteq> []" "pieces x' \<noteq> []" using a(3,4) by auto
      show ?thesis
      proof (cases "l = i"; cases "l' = i")
        assume "l = i" "l' \<noteq> i"
        then show ?thesis using a(1,3) not_mine[OF old[OF a(2) _ ne(2), THEN conjunct1] a(4)] by auto
      next
        assume "l \<noteq> i" "l' = i"
        then show ?thesis using a(2,4) not_mine[OF old[OF a(1) _ ne(1), THEN conjunct1] a(3)] by auto
      next
        assume "l \<noteq> i" "l' \<noteq> i"
        then show ?thesis using old[OF a(1) _ ne(1)] old[OF a(2) _ ne(2)] fs_pieces(4)[OF assms(1) _ _ a(3,4)] by blast
      qed simp
    qed
    show "j \<notin> hidden ?C" if "nodes ?C p = Some (Directory es)" "j \<in> fst ` set es" for p es j
    proof -
      have "nodes B p = Some (Directory es)" using that(1) by (simp split: if_splits)
      then show ?thesis using fs_pieces(5)[OF B(1) _ that(2)] by simp
    qed
  qed
  ultimately show ?thesis by (simp add: fs_ok_def)
qed

lemma fs_put_ok:
  assumes "fs_ok A" "nodes A i = Some n" "file_of n \<noteq> None" "i \<notin> hidden A" "fs_put i k bs w A = Some B"
  shows "fs_ok B"
proof (cases "length w \<le> 51200")
  case True
  then show ?thesis using assms(5) fs_set_bytes_ok[OF assms(1-4)] by (auto simp: fs_put_def split: if_splits)
next
  case False
  then obtain ps C where "add_pieces (tail_chunks w) A = Some (ps, C)"
    "B = C\<lparr>nodes := (nodes C)(i \<mapsto> Large k (take 100 (chunks w)) ps), room := room C - 101\<rparr>"
    using assms(5) by (auto simp: fs_put_def split: if_splits)
  then show ?thesis using fs_set_large_ok[OF assms(1-4)] by blast
qed

lemma fs_write_ok: "fs_ok A \<Longrightarrow> fs_write i off d A = Some B \<Longrightarrow> fs_ok B"
  by (auto simp: fs_write_def Option.bind_eq_Some_conv intro: fs_put_ok split: if_splits)

lemma fs_resize_ok: "fs_ok A \<Longrightarrow> fs_resize i s A = Some (n, B) \<Longrightarrow> fs_ok B"
  by (auto simp: fs_resize_def Option.bind_eq_Some_conv intro: fs_set_bytes_ok split: if_splits)

text \<open>An entry goes, with its node and the pieces of that.\<close>

lemma fs_unlink_cases:
  assumes "fs_unlink p name A = Some B"
  obtains (none) es where "nodes A p = Some (Directory es)" "find_name name es = None" "B = A"
    | (gone) es i n where "nodes A p = Some (Directory es)" "find_name name es = Some i" "nodes A i = Some n"
      "B = (fs_remove i n A)\<lparr>nodes := (nodes (fs_remove i n A))(p \<mapsto> Directory (swap_out (entry_index (ucast i) es) es)),
         room := room (fs_remove i n A) + 1\<rparr>"
proof -
  obtain es where es: "nodes A p = Some (Directory es)" using assms by (cases "nodes A p") (auto simp: fs_unlink_def split: node.splits)
  show thesis
  proof (cases "find_name name es")
    case None
    then show thesis using none[OF es] assms es by (simp add: fs_unlink_def)
  next
    case (Some i)
    then obtain n where "nodes A i = Some n" using assms es by (cases "nodes A i") (simp_all add: fs_unlink_def)
    then show thesis using gone[OF es Some] assms es Some by (simp add: fs_unlink_def Let_def)
  qed
qed

lemma dirs_ok_fewer:
  assumes "fs_ok A"
    and node: "\<And>q x. nodes B q = Some x \<Longrightarrow> nodes A q \<noteq> None"
    and dir: "\<And>q gs. nodes B q = Some (Directory gs) \<Longrightarrow> distinct (map fst gs) \<and> distinct (map snd gs)"
    and entry: "\<And>q gs l. nodes B q = Some (Directory gs) \<Longrightarrow> l \<in> fst ` set gs \<Longrightarrow>
      nodes B l \<noteq> None \<and> (\<exists>hs. nodes A q = Some (Directory hs) \<and> l \<in> fst ` set hs)"
  shows "dirs_ok B"
proof (rule dirs_okI)
  note A = fs_okD[OF assms(1)]
  show "q \<noteq> 0 \<and> q \<le> 1024" if "nodes B q = Some x" for q x using node[OF that] A(1) by blast
  show "distinct (map fst gs) \<and> distinct (map snd gs)" if "nodes B q = Some (Directory gs)" for q gs
    using that by (rule dir)
  show "l \<noteq> q \<and> nodes B l \<noteq> None" if "nodes B q = Some (Directory gs)" "l \<in> fst ` set gs" for q gs l
    using entry[OF that] A(3) by blast
  show "q = r" if b: "nodes B q = Some (Directory gs)" "nodes B r = Some (Directory hs)" "l \<in> fst ` set gs" "l \<in> fst ` set hs"
    for q r gs hs l
    using entry[OF b(1,3)] entry[OF b(2,4)] A(4) by blast
qed

lemma swapped_entries:
  assumes "distinct (map fst es)" "distinct (map snd es)" "i \<in> fst ` set es" "i \<le> 1024"
  defines "fs \<equiv> swap_out (entry_index (ucast i) es) es"
  shows "set fs \<subseteq> set es" "distinct (map fst fs)" "distinct (map snd fs)" "i \<notin> fst ` set fs"
proof -
  let ?k = "entry_index (ucast i) es"
  have k: "?k < length es" "fst (es ! ?k) = i" using entry_index_nth[of "ucast i" es] assms(3,4) by simp_all
  show "set fs \<subseteq> set es" "distinct (map fst fs)" "distinct (map snd fs)"
    using set_swap_out[of ?k es] assms(1,2) by (simp_all add: fs_def map_swap_out distinct_swap_out)
  show "i \<notin> fst ` set fs"
  proof
    assume "i \<in> fst ` set fs"
    then have "i \<in> set (swap_out ?k (map fst es))" by (simp add: fs_def flip: map_swap_out)
    moreover have "map fst es ! ?k = i" using k by simp
    ultimately show False using swap_out_removes[OF assms(1), of ?k] k(1) by simp
  qed
qed

lemma fs_unlink_ok:
  assumes "fs_ok A" "fs_unlink p name A = Some B"
  shows "fs_ok B"
  using assms(2)
proof (cases rule: fs_unlink_cases)
  case none
  then show ?thesis using assms(1) by simp
next
  case (gone es i n)
  note A = fs_okD[OF assms(1)] and P = fs_pieces[OF assms(1)]
  define fs where "fs = swap_out (entry_index (ucast i) es) es"
  define G where "G = insert i (fst ` set (pieces n))"
  have "i \<in> fst ` set es" using find_name_in[OF gone(2)] by force
  then have d: "distinct (map fst es)" "distinct (map snd es)" "i \<in> fst ` set es" "i \<noteq> p" "i \<le> 1024" "i \<notin> hidden A"
    using A(2)[OF gone(1)] A(3)[OF gone(1)] A(1)[OF gone(3)] P(5)[OF gone(1)] by auto
  note fs = swapped_entries[OF d(1,2,3,5), folded fs_def]
  have G: "G \<subseteq> insert i (hidden A)" unfolding G_def using P(3)[OF gone(3)] by auto
  have "p \<notin> hidden A" using P(1)[of p] gone(1) by auto
  then have p: "p \<notin> G" using G d(4) by blast
  have nr: "nodes B q = (if q = p then Some (Directory fs) else if q \<in> G then None else nodes A q)" for q
    using gone(4) by (simp add: fs_remove_def Let_def G_def fs_def)
  have hid: "hidden B = hidden A - G" using gone(4) by (simp add: fs_remove_def Let_def G_def)
  have entry: "l \<notin> G \<and> (\<exists>hs. nodes A q = Some (Directory hs) \<and> l \<in> fst ` set hs)"
    if q: "nodes B q = Some (Directory gs)" and l: "l \<in> fst ` set gs" for q gs l
  proof -
    obtain hs where hs: "nodes A q = Some (Directory hs)" "l \<in> fst ` set hs"
      using q l gone(1) fs(1) by (auto simp: nr split: if_splits)
    have "l \<noteq> i"
    proof (cases "q = p")
      case True
      then show ?thesis using q fs(4) l by (auto simp: nr)
    qed (use A(4)[OF gone(1) hs(1)] d(3) hs(2) in blast)
    then show ?thesis using hs P(5)[OF hs] G by blast
  qed
  have "dirs_ok B"
  proof (rule dirs_ok_fewer[OF assms(1)])
    show "nodes A q \<noteq> None" if "nodes B q = Some x" for q x using that gone(1) by (auto simp: nr split: if_splits)
    show "distinct (map fst gs) \<and> distinct (map snd gs)" if "nodes B q = Some (Directory gs)" for q gs
      using that A(2)[of q gs] fs(2,3) by (auto simp: nr split: if_splits)
    show "nodes B l \<noteq> None \<and> (\<exists>hs. nodes A q = Some (Directory hs) \<and> l \<in> fst ` set hs)"
      if e: "nodes B q = Some (Directory gs)" "l \<in> fst ` set gs" for q gs l
    proof -
      obtain hs where "l \<notin> G" "nodes A q = Some (Directory hs)" "l \<in> fst ` set hs" using entry[OF e] by blast
      then show ?thesis using A(3)[of q hs l] nr[of l] by simp
    qed
  qed
  moreover have "pieces_ok B"
  proof (rule pieces_ok_fewer[OF assms(1) hid])
    show "nodes B j = nodes A j" if "j \<in> hidden A" "j \<notin> G" for j
      using that P(1)[OF that(1)] gone(1) by (auto simp: nr)
    show "nodes A l = Some x \<and> fst ` set (pieces x) \<inter> G = {}" if "nodes B l = Some x" "pieces x \<noteq> []" for l x
    proof -
      have l: "nodes A l = Some x" "l \<notin> G" using that by (auto simp: nr split: if_splits)
      have "fst ` set (pieces x) \<subseteq> hidden A" using P(3)[OF l(1)] by auto
      then show ?thesis using l P(4)[OF l(1) gone(3)] d(6) by (auto simp: G_def)
    qed
    show "j \<notin> hidden B" if "nodes B q = Some (Directory gs)" "j \<in> fst ` set gs" for q gs j
      using entry[OF that] P(5) by (auto simp: hid)
  qed
  ultimately show ?thesis by (simp add: fs_ok_def)
qed

lemma fs_step_ok:
  assumes "fs_ok A" "fs_step bt de ds q A = Some (r, B)"
  shows "fs_ok B"
proof (cases q)
  case (Symlink target p name)
  then obtain i C where C: "fs_make (Bytes Symbolic 0 []) p name A = Some (i, C)"
    "B = C \<or> (\<exists>j. fs_write j 0 target C = Some B)"
    using assms(2) by (auto simp: Option.bind_eq_Some_conv split: option.splits if_splits)
  then show ?thesis using fs_make_ok[OF assms(1) C(1)] fs_write_ok by auto
next
  case (Setattr i attr to_set)
  then show ?thesis using assms by (auto simp: fs_resize_ok split: if_splits)
next
  case (Create p name)
  then show ?thesis using assms fs_make_ok[of A "Bytes Regular 0 []"] by auto
next
  case (Mknod p name)
  then show ?thesis using assms fs_make_ok[of A "Bytes Regular 0 []"] by auto
next
  case (Mkdir p name)
  then show ?thesis using assms fs_make_ok[of A "Directory []"] by auto
next
  case (Write i buf sz off)
  then show ?thesis using assms by (auto dest: fs_write_ok split: if_splits)
next
  case (Unlink p name)
  then show ?thesis using assms by (auto dest: fs_unlink_ok)
qed (use assms in \<open>auto simp: fs_ok_def[symmetric]\<close>)

end
