(* ===== verification/Node_Store.thy ===== *)
theory Node_Store imports Fs_Spec begin

text \<open>
  The nodes of \<open>Fs_Spec\<close> on the disk: the blocks an inode points to hold the entries of a directory or
  the bytes of a file. A file may count more blocks than it has pointers for: the others are block 0, which
  is blank on a disk that no directory has overflowed on. A large file has a table of its pieces in one
  more block.
\<close>

subsection \<open>A node on the disk\<close>

definition holds :: "extent_client \<Rightarrow> u32 \<Rightarrow> u32 list \<Rightarrow> bool" where
  "holds c j ps \<longleftrightarrow> length ps \<le> 100 \<and> take 100 (iblocks (inode_at c j)) = ps @ replicate (100 - length ps) 0
     \<and> distinct ps \<and> (\<forall>b \<in> set ps. data_block b \<and> in_use c b)"

fun kind_type :: "kind \<Rightarrow> u16" where
  "kind_type Regular = 2"
| "kind_type Symbolic = 3"

abbreviation table_block :: "extent_client \<Rightarrow> u32 \<Rightarrow> u32" where "table_block c j \<equiv> iblocks (inode_at c j) ! 100"

definition node_at :: "extent_client \<Rightarrow> u32 \<Rightarrow> node \<Rightarrow> bool" where
  "node_at c j n \<longleftrightarrow> inum_ok j \<and> holds c j (file_ptrs c j) \<and> (case n of
       Directory es \<Rightarrow> itype (inode_at c j) = 1 \<and> unat (isize (inode_at c j)) = length (file_ptrs c j)
         \<and> es = map (\<lambda>b. dir_entry (data c b)) (file_ptrs c j)
     | Bytes k n bs \<Rightarrow> itype (inode_at c j) = kind_type k \<and> unat (isize (inode_at c j)) = n
         \<and> n \<le> 100 \<and> bs = map (data c) (file_ptrs c j)
     | Large k bs ps \<Rightarrow> itype (inode_at c j) = kind_type k \<and> isize (inode_at c j) = 101
         \<and> length (file_ptrs c j) = 100 \<and> bs = map (data c) (file_ptrs c j)
         \<and> data_block (table_block c j) \<and> in_use c (table_block c j) \<and> table_block c j \<notin> set (file_ptrs c j)
         \<and> takeWhile (\<lambda>x. x \<noteq> 0) (u32s_of_block (data c (table_block c j))) = map (\<lambda>(i, b). ucast i) ps
         \<and> 0 < pieces_size ps)"

text \<open>The blocks that are its own, with that of the table.\<close>

definition own :: "extent_client \<Rightarrow> u32 \<Rightarrow> u32 set" where
  "own c j = set (file_ptrs c j) \<union> (if isize (inode_at c j) = 101 then {table_block c j} else {})"

definition blank :: "extent_client \<Rightarrow> bool" where
  "blank c \<longleftrightarrow> data c 0 = replicate 512 0"

lemma holds_ptrs: "holds c j ps \<Longrightarrow> file_ptrs c j = ps"
  unfolding file_ptrs_def holds_def using vol.zero_invalid by (metis takeWhile_zeros)

lemma holds_take:
  assumes "holds c j ps" "n \<le> 100"
  shows "take n (iblocks (inode_at c j)) = take n ps @ replicate (n - length ps) 0"
proof -
  have h: "take 100 (iblocks (inode_at c j)) = ps @ replicate (100 - length ps) 0" using assms by (auto simp: holds_def)
  have "take n (iblocks (inode_at c j)) = take n (take 100 (iblocks (inode_at c j)))"
    unfolding take_take using min_absorb1[OF assms(2)] by (simp only:)
  also have "\<dots> = take n ps @ replicate (n - length ps) 0" using assms(2) unfolding h by simp
  finally show ?thesis .
qed

lemma holds_frame:
  assumes "holds c j ps" "iblocks (inode_at c' j) = iblocks (inode_at c j)" "\<forall>b \<in> set ps. in_use c' b"
  shows "holds c' j ps"
  using assms by (simp add: holds_def)

lemma node_holds: "node_at c j n \<Longrightarrow> holds c j (file_ptrs c j)"
  by (simp only: node_at_def)

lemma node_cases:
  assumes "node_at c j n"
  obtains (dir) es where "n = Directory es" "itype (inode_at c j) = 1" "dir_blocks c j = file_ptrs c j"
      "es = map (\<lambda>b. dir_entry (data c b)) (file_ptrs c j)" "length es \<le> 100"
    | (bytes) k m bs where "n = Bytes k m bs" "itype (inode_at c j) = kind_type k" "unat (isize (inode_at c j)) = m"
      "dir_blocks c j = take m (file_ptrs c j) @ replicate (m - length bs) 0" "bs = map (data c) (file_ptrs c j)"
      "m \<le> 100" "length bs \<le> 100"
    | (large) k bs ps where "n = Large k bs ps" "itype (inode_at c j) = kind_type k" "isize (inode_at c j) = 101"
      "length (file_ptrs c j) = 100" "take 100 (iblocks (inode_at c j)) = file_ptrs c j" "bs = map (data c) (file_ptrs c j)"
      "data_block (table_block c j)" "in_use c (table_block c j)" "table_block c j \<notin> set (file_ptrs c j)"
      "takeWhile (\<lambda>x. x \<noteq> 0) (u32s_of_block (data c (table_block c j))) = map (\<lambda>(i, b). ucast i) ps" "0 < pieces_size ps"
proof (cases n)
  case (Directory es)
  then have "holds c j (file_ptrs c j)" "unat (isize (inode_at c j)) = length (file_ptrs c j)" using assms by (simp_all add: node_at_def)
  then show thesis using dir Directory assms holds_take[of c j "file_ptrs c j" "length (file_ptrs c j)"]
    by (simp add: node_at_def holds_def)
next
  case (Bytes k m bs)
  then have h: "holds c j (file_ptrs c j)" "m \<le> 100" using assms by (auto simp: node_at_def)
  then show thesis using bytes Bytes assms holds_take[OF h] by (simp add: node_at_def holds_def)
next
  case (Large k bs ps)
  then have h: "holds c j (file_ptrs c j)" "length (file_ptrs c j) = 100" using assms by (auto simp: node_at_def)
  then have "take 100 (iblocks (inode_at c j)) = file_ptrs c j" by (simp add: holds_def)
  then show thesis using large Large assms h(2) by (simp add: node_at_def)
qed

lemma no_pieces: "0 < pieces_size ps \<Longrightarrow> ps \<noteq> []"
  by (auto simp: pieces_size_def)

lemma node_at_inode:
  assumes "node_at c j n"
  shows "inum_ok j" "itype (inode_at c j) \<noteq> 0" "pieces n = [] \<Longrightarrow> isize (inode_at c j) \<le> 100"
    "pieces n = [] \<Longrightarrow> length (file_ptrs c j) = held n"
    "\<forall>b \<in> own c j. data_block b \<and> in_use c b"
    "pieces n = [] \<Longrightarrow> \<forall>b \<in> set (dir_blocks c j). b < 2097152"
    "distinct (file_ptrs c j)" "pieces n = [] \<Longrightarrow> own c j = set (file_ptrs c j)"
proof -
  have h: "inum_ok j" "holds c j (file_ptrs c j)" using assms by (simp_all add: node_at_def)
  then show "inum_ok j" "distinct (file_ptrs c j)" by (simp_all add: holds_def)
  have ptrs: "\<forall>b \<in> set (file_ptrs c j). data_block b \<and> in_use c b" using h(2) by (simp add: holds_def)
  show "itype (inode_at c j) \<noteq> 0" using assms
  proof (cases rule: node_cases)
    case (bytes k m bs)
    then show ?thesis by (cases k) simp_all
  next
    case (large k bs ps)
    then show ?thesis by (cases k) simp_all
  qed simp
  show "length (file_ptrs c j) = held n" if "pieces n = []" using assms that
    by (cases rule: node_cases) (simp_all add: no_pieces)
  have "length (file_ptrs c j) \<le> 100" using h(2) by (simp add: holds_def)
  then have "unat (isize (inode_at c j)) \<le> 100" if "pieces n = []" using assms that
    by (auto simp: node_at_def no_pieces split: node.splits)
  then show size: "isize (inode_at c j) \<le> 100" if "pieces n = []" using that by (simp add: word_le_nat_alt)
  then have "isize (inode_at c j) \<noteq> 101" if "pieces n = []" using that by fastforce
  then show "own c j = set (file_ptrs c j)" if "pieces n = []" using that by (simp add: own_def)
  show "\<forall>b \<in> own c j. data_block b \<and> in_use c b"
  proof (cases "isize (inode_at c j) = 101")
    case True
    from assms have "data_block (table_block c j) \<and> in_use c (table_block c j)"
    proof (cases rule: node_cases)
      case (dir es)
      then show ?thesis using size True by auto
    next
      case (bytes k m bs)
      then show ?thesis using True by simp
    qed simp
    then show ?thesis using ptrs by (simp add: own_def)
  qed (use ptrs in \<open>simp add: own_def\<close>)
  have ptr: "b < 2097152" if "b \<in> set (file_ptrs c j)" for b
    using that h(2) data_block_lt unfolding holds_def by blast
  show "\<forall>b \<in> set (dir_blocks c j). b < 2097152" if small: "pieces n = []"
    using assms
  proof (cases rule: node_cases)
    case (dir es)
    show ?thesis using ptr unfolding dir(3) by blast
  next
    case (bytes k m bs)
    show ?thesis using ptr unfolding bytes(4) by (auto dest: in_set_takeD)
  next
    case (large k bs ps)
    then show ?thesis using small by (simp add: no_pieces)
  qed
qed

lemma node_ptrs: "node_at c j n \<Longrightarrow> b \<in> set (file_ptrs c j) \<Longrightarrow> data_block b \<and> in_use c b"
  using node_at_inode(5)[of c j n] by (simp add: own_def)

lemma node_at_frame:
  assumes "node_at c j n" "inode_at c' j = inode_at c j" "\<forall>b \<in> own c j. in_use c' b \<and> data c' b = data c b"
  shows "node_at c' j n"
proof -
  have p: "file_ptrs c' j = file_ptrs c j" using assms(2) by (simp add: file_ptrs_def)
  have ptrs: "\<forall>b \<in> set (file_ptrs c j). in_use c' b \<and> data c' b = data c b" using assms(3) by (simp add: own_def)
  have tab: "isize (inode_at c j) = 101 \<Longrightarrow> in_use c' (table_block c j) \<and> data c' (table_block c j) = data c (table_block c j)"
    using assms(3) by (simp add: own_def)
  have "holds c' j (file_ptrs c j)"
    using assms(2) ptrs by (intro holds_frame[OF node_holds[OF assms(1)]]) simp_all
  moreover have "map (data c') (file_ptrs c j) = map (data c) (file_ptrs c j)" using ptrs by simp
  moreover have "map (\<lambda>b. dir_entry (data c' b)) (file_ptrs c j) = map (\<lambda>b. dir_entry (data c b)) (file_ptrs c j)"
    using ptrs by simp
  ultimately show ?thesis using assms(1,2) tab unfolding node_at_def p by (cases n) simp_all
qed

text \<open>As the interfaces of directories and files see it.\<close>

lemma node_dir:
  assumes "ok c" "p \<le> 1024" "node_at c (ucast p) (Directory es)"
  shows "dir_of c p es"
  using assms(3)
proof (cases rule: node_cases)
  case (dir fs)
  then have es: "es = fs" by (simp only: node.inject)
  note at = node_at_inode[OF assms(3), simplified]
  have "\<forall>b \<in> set (file_ptrs c (ucast p)). data_block b \<and> in_use c b" using node_ptrs[OF assms(3)] by blast
  then show ?thesis using assms(1,2) at(1,3,7) dir(2,4) unfolding dir_of_def dir_at_def dir(3) es by blast
qed simp_all

lemma node_read:
  assumes "ok c" "blank c" "node_at c j (Bytes k n bs)"
  shows "read_file (Suc f) j c = Inr (content n bs)" and "length (content n bs) \<le> 51200"
proof -
  note at = node_at_inode[OF assms(3), simplified]
  have n: "dir_blocks c j = take n (file_ptrs c j) @ replicate (n - length bs) 0" "bs = map (data c) (file_ptrs c j)"
    "n \<le> 100" using assms(3) by (cases rule: node_cases; simp)+
  have "concat (replicate l (replicate 512 (0 :: u8))) = replicate (512 * l) 0" for l
    by (induction l) (simp_all add: replicate_add)
  then have "concat (map (data c) (dir_blocks c j)) = concat (take n bs) @ replicate (512 * (n - length bs)) 0"
    unfolding n(1) using n(2) assms(2) by (simp add: blank_def take_map)
  then show "read_file (Suc f) j c = Inr (content n bs)"
    using read_direct[OF assms(1) at(1,3,6), of f] by (simp only: content_def strip0_append_zeros)
  have "length (concat (map (data c) ps)) = 512 * length ps" for ps using assms(1) by (induction ps) simp_all
  from this[of "take n (file_ptrs c j)"] have "length (concat (take n bs)) \<le> 512 * n" unfolding n(2) take_map by simp
  then show "length (content n bs) \<le> 51200"
    using strip0_length[of "concat (take n bs)"] n(3) unfolding content_def by linarith
qed

text \<open>A large file is read through its table.\<close>

definition pieces_at :: "extent_client \<Rightarrow> (u64 \<times> bytes list) list \<Rightarrow> bool" where
  "pieces_at c ps \<longleftrightarrow> (\<forall>(i, b) \<in> set ps. node_at c (ucast i) (Bytes Regular (length b) b))"

lemma pieces_atD: "pieces_at c ps \<Longrightarrow> (i, b) \<in> set ps \<Longrightarrow> node_at c (ucast i) (Bytes Regular (length b) b)"
  by (auto simp: pieces_at_def)

lemma each_piece:
  assumes "\<And>i b. (i, b) \<in> set ps \<Longrightarrow> (ucast i :: u32) \<noteq> 0 \<and> g (ucast i) = Inr (h b)"
  shows "each_sub g (map (\<lambda>(i, b). ucast i) ps) = Inr (map (\<lambda>(i, b). h b) ps)"
proof (rule each_sub_nth)
  let ?ns = "map (\<lambda>(i, b). ucast i :: u32) ps"
  show "?ns ! l \<noteq> 0 \<and> g (?ns ! l) = Inr (map (\<lambda>(i, b). h b) ps ! l)" if l: "l < length ?ns" for l
    using l assms[of "fst (ps ! l)" "snd (ps ! l)"] by (simp add: case_prod_beta)
qed simp

lemma inum_nonzero: "inum_ok j \<Longrightarrow> j \<noteq> 0"
  by (auto simp: inum_ok_def)

lemma large_read:
  assumes "ok c" "blank c" "node_at c j (Large k bs ps)" "pieces_at c ps"
  shows "read_file (Suc (Suc f)) j c = Inr (strip0 (concat bs @ concat (map (\<lambda>(i, b). content (length b) b) ps)))"
  using assms(3)
proof (cases rule: node_cases)
  case (large k' bs' ps')
  then have eq: "bs' = bs" "ps' = ps" by simp_all
  note at = node_at_inode(1,2)[OF assms(3)]
  have "each_sub (\<lambda>i. read_file (Suc f) i c) (map (\<lambda>(i, b). ucast i) ps) = Inr (map (\<lambda>(i, b). content (length b) b) ps)"
    using node_read(1)[OF assms(1,2) pieces_atD[OF assms(4)]] node_at_inode(1)[OF pieces_atD[OF assms(4)]] inum_nonzero
    by (intro each_piece) blast
  then have subs: "each_sub (\<lambda>i. read_file (Suc f) i c) (u32s_of_block (data c (table_block c j))) = Inr (map (\<lambda>(i, b). content (length b) b) ps)"
    using large(10) each_sub_takeWhile[of _ "u32s_of_block (data c (table_block c j))"] unfolding eq by metis
  have direct: "mapF (\<lambda>b. bm_read b c) (file_ptrs c j) = Inr bs"
    using large(6) read_list[OF assms(1)] node_ptrs[OF assms(3)] unfolding eq by blast
  have "bm_read (table_block c j) c = Inr (data c (table_block c j))" using assms(1) large(7) by (simp add: bm_read_ok data_block_lt)
  then show ?thesis
    unfolding read_file.simps(2)[of "Suc f"] using get_inode_ok[OF assms(1)] at large(3,5) direct subs
    by (simp del: read_file.simps)
qed simp_all

lemma table_length:
  assumes "node_at c j (Large k bs ps)"
  shows "length ps \<le> 128"
  using assms
proof (cases rule: node_cases)
  case (large k' bs' ps')
  have "length (takeWhile (\<lambda>x. x \<noteq> 0) (u32s_of_block (data c (table_block c j)))) \<le> length (u32s_of_block (data c (table_block c j)))"
    by (rule length_takeWhile_le)
  then show ?thesis using large(1) unfolding large(10) by simp
qed simp_all

lemma length_concat_le: "(\<And>x. x \<in> set xs \<Longrightarrow> length (f x) \<le> n) \<Longrightarrow> length (concat (map f xs)) \<le> n * length xs"
  by (induction xs) fastforce+

lemma node_get:
  assumes "ok c" "blank c" "i \<le> 1024" "node_at c (ucast i) n" "pieces_at c (pieces n)" "bytes_of n = Some v"
  shows "ec_get i c = Inr (OK, v)" and "length v < 2 ^ 31"
proof -
  have get: "read_file max_depth (ucast i) c = Inr v \<Longrightarrow> ec_get i c = Inr (OK, v)"
    using assms(3) by (simp add: ec_defs es_defs id_inum_small del: read_file.simps)
  have "read_file max_depth (ucast i) c = Inr v \<and> length v < 2 ^ 31"
  proof (cases n)
    case (Bytes k m bs)
    then have n: "node_at c (ucast i) (Bytes k m bs)" "v = content m bs" using assms(4,6) by simp_all
    show ?thesis using node_read(1)[OF assms(1,2) n(1), of 1024] node_read(2)[OF assms(1,2) n(1)] n(2)
      by (simp del: read_file.simps)
  next
    case (Large k bs ps)
    then have n: "node_at c (ucast i) (Large k bs ps)" "pieces_at c ps"
      and v: "v = strip0 (concat bs @ concat (map (\<lambda>(i, b). content (length b) b) ps))" using assms(4-6) by simp_all
    have "bs = map (data c) (file_ptrs c (ucast i))" "length (file_ptrs c (ucast i)) = 100"
      using n(1) by (cases rule: node_cases; simp)+
    moreover have "length (concat (map (data c) (file_ptrs c (ucast i)))) \<le> 512 * length (file_ptrs c (ucast i))"
      using assms(1) by (intro length_concat_le) simp
    moreover have "length (concat (map (\<lambda>(i, b). content (length b) b) ps)) \<le> 51200 * length ps"
    proof (rule length_concat_le)
      fix x assume "x \<in> set ps"
      then have "(fst x, snd x) \<in> set ps" by simp
      from node_read(2)[OF assms(1,2) pieces_atD[OF n(2) this]]
      show "length (case x of (i, b) \<Rightarrow> content (length b) b) \<le> 51200" by (simp add: case_prod_beta)
    qed
    ultimately have "length v < 2 ^ 31"
      using strip0_length[of "concat bs @ concat (map (\<lambda>(i, b). content (length b) b) ps)"] table_length[OF n(1)] unfolding v by simp
    then show ?thesis using large_read[OF assms(1,2) n, of 1023] v by (simp del: read_file.simps)
  qed (use assms(6) in simp)
  then show "ec_get i c = Inr (OK, v)" "length v < 2 ^ 31" using get by blast+
qed

subsection \<open>Attributes of a node\<close>

definition untimed :: "stat \<Rightarrow> stat" where
  "untimed st = st\<lparr>st_atime := 0, st_mtime := 0, st_ctime := 0\<rparr>"

lemma ucast_of_small: "k < 2 ^ 32 \<Longrightarrow> (ucast (of_nat k :: u32) :: u64) = of_nat k"
  by (simp add: word_unat_eq_iff unat_of_nat take_bit_nat_eq_self)

lemma size_of_le: "\<forall>b \<in> set bs. length b = 512 \<Longrightarrow> size_of n bs \<le> 512 * n"
proof -
  assume a: "\<forall>b \<in> set bs. length b = 512"
  have "length (strip0 (bs ! k)) \<le> 512" if "k < length bs" for k
    using a that strip0_length[of "bs ! k"] by simp
  then show ?thesis by (cases n) (simp_all add: size_of_def)
qed

lemma node_size:
  assumes "ok c" "blank c" "node_at c j (Bytes k n bs)"
  shows "get_file_size (Suc f) j c = Inr (of_nat (size_of n bs))" and "size_of n bs \<le> 512 * n"
proof -
  note i = node_at_inode[OF assms(3), simplified]
  have n: "unat (isize (inode_at c j)) = n" "n \<le> 100" "bs = map (data c) (file_ptrs c j)"
    "dir_blocks c j = take n (file_ptrs c j) @ replicate (n - length bs) 0"
    using assms(3) by (cases rule: node_cases; simp)+
  have sz: "isize (inode_at c j) = of_nat n" using n(1) by (simp flip: n(1))
  have len: "length (file_ptrs c j) = length bs" using n(3) by simp
  have ix: "iblocks (inode_at c j) ! (n - 1) = (if n \<le> length bs then file_ptrs c j ! (n - 1) else 0)" if "0 < n"
  proof -
    have "take n (iblocks (inode_at c j)) ! (n - 1) = (take n (file_ptrs c j) @ replicate (n - length bs) 0) ! (n - 1)"
      using n(1,4) by simp
    then show ?thesis using that len by (auto simp: nth_append min_def)
  qed
  have last: "0 < n \<Longrightarrow> iblocks (inode_at c j) ! (n - 1) < 2097152" using last_pointer[OF _ n(2) i(6)[unfolded n(1)]] .
  have "strip0 (data c 0) = []" using assms(2) by (simp add: blank_def)
  then have "512 * (n - 1) + max 1 (length (strip0 (data c (iblocks (inode_at c j) ! (n - 1))))) = size_of n bs" if "0 < n"
  proof (cases "n \<le> length bs")
    case True
    then have "data c (file_ptrs c j ! (n - 1)) = bs ! (n - 1)" unfolding n(3) using that by simp
    then show ?thesis using True that ix by (simp only: size_of_def) simp
  qed (use that ix in \<open>simp add: size_of_def\<close>)
  then show "get_file_size (Suc f) j c = Inr (of_nat (size_of n bs))"
    using get_file_size_direct[OF assms(1) i(1) sz n(2) last, of f] by (simp add: size_of_def del: get_file_size.simps)
  show "size_of n bs \<le> 512 * n" using assms(1) unfolding n(3) by (intro size_of_le) simp
qed

lemma dir_size:
  assumes "ok c" "node_at c j (Directory es)"
  shows "\<exists>s. get_file_size max_depth j c = Inr s"
proof -
  note i = node_at_inode[OF assms(2), simplified]
  have n: "unat (isize (inode_at c j)) \<le> 100" using i(3) by (simp add: word_le_nat_alt)
  have "0 < unat (isize (inode_at c j)) \<Longrightarrow> iblocks (inode_at c j) ! (unat (isize (inode_at c j)) - 1) < 2097152"
    using last_pointer[OF _ n] i(6) by blast
  from get_file_size_direct[OF assms(1) i(1) _ n this, of 1024] show ?thesis by (simp del: get_file_size.simps)
qed

lemma sum_of_words: "sum_list (map (\<lambda>(i, b). of_nat (h b)) ps) = (of_nat (sum_list (map (\<lambda>(i, b). h b) ps)) :: u32)"
  by (induction ps) auto

lemma pieces_size_le:
  assumes "ok c" "blank c" "node_at c j (Large k bs ps)" "pieces_at c ps"
  shows "pieces_size ps \<le> 51200 * 128"
proof -
  have "size_of (length b) b \<le> 51200" if "(i, b) \<in> set ps" for i b
  proof -
    note at = pieces_atD[OF assms(4) that]
    have "length b \<le> 100" using at by (cases rule: node_cases) simp_all
    then show ?thesis using node_size(2)[OF assms(1,2) at] by simp
  qed
  then have "sum_list (map (\<lambda>(i, b). size_of (length b) b) ps) \<le> 51200 * length ps"
    by (induction ps) fastforce+
  moreover have "length ps \<le> 128" using table_length[OF assms(3)] .
  ultimately show ?thesis unfolding pieces_size_def by (meson le_trans mult_le_mono2)
qed

lemma large_size:
  assumes "ok c" "blank c" "node_at c j (Large k bs ps)" "pieces_at c ps"
  shows "get_file_size (Suc (Suc f)) j c = Inr (of_nat (51200 + pieces_size ps))"
  using assms(3)
proof (cases rule: node_cases)
  case (large k' bs' ps')
  then have eq: "bs' = bs" "ps' = ps" by simp_all
  note at = node_at_inode(1,2)[OF assms(3)]
  have "each_sub (\<lambda>i. get_file_size (Suc f) i c) (map (\<lambda>(i, b). ucast i) ps) = Inr (map (\<lambda>(i, b). of_nat (size_of (length b) b)) ps)"
    using node_size(1)[OF assms(1,2) pieces_atD[OF assms(4)]] node_at_inode(1)[OF pieces_atD[OF assms(4)]] inum_nonzero
    by (intro each_piece) blast
  then have subs: "each_sub (\<lambda>i. get_file_size (Suc f) i c) (u32s_of_block (data c (table_block c j)))
      = Inr (map (\<lambda>(i, b). of_nat (size_of (length b) b)) ps)"
    using large(10) each_sub_takeWhile[of _ "u32s_of_block (data c (table_block c j))"] unfolding eq by metis
  have "bm_read (table_block c j) c = Inr (data c (table_block c j))" using assms(1) large(7) by (simp add: bm_read_ok data_block_lt)
  then show ?thesis
    unfolding get_file_size.simps(2)[of "Suc f"] pieces_size_def using get_inode_ok[OF assms(1)] at large(3) subs
    by (simp add: sum_of_words del: get_file_size.simps)
qed simp_all

lemma node_getattr:
  assumes "ok c" "blank c" "i \<le> 1024" "node_at c (ucast i) n" "pieces_at c (pieces n)"
  obtains st where "getattr i c = Inr (OK, st)" "untimed st = node_stat i n"
proof -
  note j = node_at_inode(1)[OF assms(4)]
  have attr: "ec_getattr i c = Inr (OK, \<lparr>a_type = scast (itype (inode_at c (ucast i))), a_atime = atime (inode_at c (ucast i)),
      a_mtime = mtime (inode_at c (ucast i)), a_ctime = ctime (inode_at c (ucast i)), a_size = s\<rparr>)"
    if "get_file_size max_depth (ucast i) c = Inr s" for s
    using that assms(1,3) j by (simp add: ec_defs es_defs id_inum_small get_attr_def get_inode_ok)
  have bytes_attr: "\<exists>st. getattr i c = Inr (OK, st) \<and> untimed st = file_stat i k s"
    if "itype (inode_at c (ucast i)) = kind_type k" "get_file_size max_depth (ucast i) c = Inr (of_nat s)" "s < 2 ^ 32" for k s
    using getattr_eq[OF attr[OF that(2)]] that(1)
    by (cases k) (simp_all add: stat_of_def untimed_def file_stat_def zero_stat_def ucast_of_small[OF that(3)])
  from assms(4) show thesis
  proof (cases rule: node_cases)
    case (dir es)
    then obtain s where "get_file_size max_depth (ucast i) c = Inr s" using dir_size[OF assms(1)] assms(4) by blast
    from getattr_eq[OF attr[OF this]] show thesis
      by (rule that) (simp add: dir(1,2) stat_of_def untimed_def node_stat_def zero_stat_def)
  next
    case (bytes k m bs)
    then have "node_at c (ucast i) (Bytes k m bs)" using assms(4) by simp
    note size = node_size(1)[OF assms(1,2) this, of 1024] node_size(2)[OF assms(1,2) this]
    have "size_of m bs < 2 ^ 32" using size(2) bytes(6) by simp
    moreover have "get_file_size max_depth (ucast i) c = Inr (of_nat (size_of m bs))" using size(1) by simp
    ultimately show thesis using bytes_attr[OF bytes(2)] that by (auto simp: bytes(1) node_stat_def)
  next
    case (large k bs ps)
    then have n: "node_at c (ucast i) (Large k bs ps)" "pieces_at c ps" using assms(4,5) by simp_all
    have "51200 + pieces_size ps < 2 ^ 32" using pieces_size_le[OF assms(1,2) n] by simp
    moreover have "get_file_size max_depth (ucast i) c = Inr (of_nat (51200 + pieces_size ps))"
      using large_size[OF assms(1,2) n, of 1023] by simp
    ultimately obtain st where "getattr i c = Inr (OK, st)" "untimed st = file_stat i k (51200 + pieces_size ps)"
      using bytes_attr[OF large(2)] by blast
    then show thesis using that by (simp add: large(1) node_stat_def)
  qed
qed

end
