(* ===== verification/Node_Steps.thy ===== *)
theory Node_Steps imports Node_Store begin

text \<open>
  The relation between a file system on the disk and its specification (\<open>rel\<close>), and what each operation
  of the layers below does to it.
\<close>

subsection \<open>The relation\<close>

definition valid_id :: "u64 \<Rightarrow> bool" where
  "valid_id i \<longleftrightarrow> i \<noteq> 0 \<and> i \<le> 1024"

text \<open>
  In \<open>rel U c A\<close> the blocks in \<open>U\<close> are in use, but not by a node: those of a write that has not reached its
  inode yet.
\<close>

definition rel :: "u32 set \<Rightarrow> extent_client \<Rightarrow> fs \<Rightarrow> bool" where
  "rel U c A \<longleftrightarrow> ok c \<and> blank c \<and> room A = card (free_blocks c)
     \<and> (\<forall>i. valid_id i \<longrightarrow> (case nodes A i of
          None \<Rightarrow> itype (inode_at c (ucast i)) = 0 | Some n \<Rightarrow> node_at c (ucast i) n))
     \<and> (\<forall>i j. valid_id i \<and> valid_id j \<and> nodes A i \<noteq> None \<and> nodes A j \<noteq> None \<and> i \<noteq> j
          \<longrightarrow> own c (ucast i) \<inter> own c (ucast j) = {})
     \<and> (\<forall>b \<in> U. data_block b \<and> in_use c b)
     \<and> (\<forall>i. valid_id i \<and> nodes A i \<noteq> None \<longrightarrow> own c (ucast i) \<inter> U = {})"

lemma relD:
  assumes "rel U c A"
  shows "ok c" "blank c" "room A = card (free_blocks c)"
    and "valid_id i \<Longrightarrow> nodes A i = Some n \<Longrightarrow> node_at c (ucast i) n"
    and "valid_id i \<Longrightarrow> nodes A i = None \<Longrightarrow> itype (inode_at c (ucast i)) = 0"
    and "valid_id i \<Longrightarrow> valid_id j \<Longrightarrow> nodes A i = Some n \<Longrightarrow> nodes A j = Some n' \<Longrightarrow> i \<noteq> j \<Longrightarrow>
      b \<in> own c (ucast i) \<Longrightarrow> b \<notin> own c (ucast j)"
    and "b \<in> U \<Longrightarrow> data_block b \<and> in_use c b"
    and "valid_id i \<Longrightarrow> nodes A i = Some n \<Longrightarrow> b \<in> own c (ucast i) \<Longrightarrow> b \<notin> U"
proof -
  note r = assms[unfolded rel_def]
  show "ok c" "blank c" "room A = card (free_blocks c)" using r by blast+
  show "valid_id i \<Longrightarrow> nodes A i = Some n \<Longrightarrow> node_at c (ucast i) n"
    and "valid_id i \<Longrightarrow> nodes A i = None \<Longrightarrow> itype (inode_at c (ucast i)) = 0"
    using r[THEN conjunct2, THEN conjunct2, THEN conjunct2, THEN conjunct1, rule_format, of i] by simp_all
  show "valid_id i \<Longrightarrow> valid_id j \<Longrightarrow> nodes A i = Some n \<Longrightarrow> nodes A j = Some n' \<Longrightarrow> i \<noteq> j \<Longrightarrow>
      b \<in> own c (ucast i) \<Longrightarrow> b \<notin> own c (ucast j)"
    using r by blast
  show "b \<in> U \<Longrightarrow> data_block b \<and> in_use c b" using r by blast
  show "valid_id i \<Longrightarrow> nodes A i = Some n \<Longrightarrow> b \<in> own c (ucast i) \<Longrightarrow> b \<notin> U" using r by blast
qed

lemma rel_same: "rel U c A \<Longrightarrow> nodes B = nodes A \<Longrightarrow> room B = room A \<Longrightarrow> rel U c B"
  by (simp add: rel_def)

lemma relI:
  assumes "ok c" "blank c" "room A = card (free_blocks c)"
    and "\<And>i n. valid_id i \<Longrightarrow> nodes A i = Some n \<Longrightarrow> node_at c (ucast i) n"
    and "\<And>i. valid_id i \<Longrightarrow> nodes A i = None \<Longrightarrow> itype (inode_at c (ucast i)) = 0"
    and "\<And>i j n n' b. valid_id i \<Longrightarrow> valid_id j \<Longrightarrow> nodes A i = Some n \<Longrightarrow> nodes A j = Some n' \<Longrightarrow> i \<noteq> j \<Longrightarrow>
      b \<in> own c (ucast i) \<Longrightarrow> b \<notin> own c (ucast j)"
    and "\<And>b. b \<in> U \<Longrightarrow> data_block b \<and> in_use c b"
    and "\<And>i n b. valid_id i \<Longrightarrow> nodes A i = Some n \<Longrightarrow> b \<in> own c (ucast i) \<Longrightarrow> b \<notin> U"
  shows "rel U c A"
proof -
  have "case nodes A i of None \<Rightarrow> itype (inode_at c (ucast i)) = 0 | Some n \<Rightarrow> node_at c (ucast i) n" if "valid_id i" for i
    using assms(4,5) that by (cases "nodes A i") simp_all
  then show ?thesis unfolding rel_def using assms(1-3,6-8) by blast
qed

lemma valid_inum: "valid_id i \<Longrightarrow> inum_ok (ucast i)"
  using ucast_id[of i] by (simp add: valid_id_def inum_ok_def word_le_nat_alt word_unat_eq_iff[of i] Suc_le_eq)

lemma valid_of_inum: "inum_ok j \<Longrightarrow> valid_id (ucast j)"
  using ucast_inum_le[of j] unat_size[of j] by (auto simp: valid_id_def inum_ok_def word_unat_eq_iff word_le_nat_alt)

lemma valid_inject: "valid_id i \<Longrightarrow> valid_id j \<Longrightarrow> (ucast i :: u32) = ucast j \<longleftrightarrow> i = j"
  by (simp add: valid_id_def ucast_id_inject)

subsection \<open>Changing one node\<close>

text \<open>
  \<open>touches F c c' j\<close>: only inode \<open>j\<close> and the blocks in \<open>F\<close> are changed, or given back, and \<open>j\<close> takes no other
  blocks than those and free ones.
\<close>

definition touches :: "u32 set \<Rightarrow> extent_client \<Rightarrow> extent_client \<Rightarrow> u32 \<Rightarrow> bool" where
  "touches F c c' j \<longleftrightarrow> ok c' \<and> data c' 0 = data c 0 \<and> (\<forall>i. inum_ok i \<and> i \<noteq> j \<longrightarrow> inode_at c' i = inode_at c i)
     \<and> (\<forall>b. data_block b \<and> in_use c b \<and> b \<notin> F \<longrightarrow> in_use c' b \<and> data c' b = data c b)
     \<and> (\<forall>b \<in> own c' j. b \<in> F \<or> \<not> in_use c b)"

definition owned :: "extent_client \<Rightarrow> fs \<Rightarrow> u64 \<Rightarrow> u32 set" where
  "owned c A i = (if nodes A i = None then {} else own c (ucast i))"

lemma other_inode: "valid_id i \<Longrightarrow> valid_id k \<Longrightarrow> k \<noteq> i \<Longrightarrow> (ucast k :: u32) \<noteq> ucast i"
  using valid_inject by blast

lemma own_cong: "inode_at c' j = inode_at c j \<Longrightarrow> own c' j = own c j"
  by (simp add: own_def file_ptrs_def)

lemma rel_kept: "rel U c A \<Longrightarrow> valid_id k \<Longrightarrow> nodes A k = Some x \<Longrightarrow> b \<in> own c (ucast k) \<Longrightarrow> data_block b \<and> in_use c b"
  using node_at_inode(5)[OF relD(4)] by blast

lemma rel_touch_spare:
  assumes "rel U c A" "valid_id i" "touches (owned c A i \<union> V) c c' (ucast i)" "V \<subseteq> U"
    and "nodes B = (nodes A)(i := n)" "room B = card (free_blocks c')"
    and "case n of None \<Rightarrow> itype (inode_at c' (ucast i)) = 0 | Some x \<Rightarrow> node_at c' (ucast i) x"
  shows "rel (U - V) c' B"
proof -
  note A = relD[OF assms(1)] and kept = rel_kept[OF assms(1)]
  let ?F = "owned c A i \<union> V"
  have t: "ok c'" "data c' 0 = data c 0" "\<And>k. inum_ok k \<Longrightarrow> k \<noteq> ucast i \<Longrightarrow> inode_at c' k = inode_at c k"
    "\<And>b. data_block b \<Longrightarrow> in_use c b \<Longrightarrow> b \<notin> ?F \<Longrightarrow> in_use c' b \<and> data c' b = data c b"
    "\<And>b. b \<in> own c' (ucast i) \<Longrightarrow> b \<in> ?F \<or> \<not> in_use c b"
    using assms(3) unfolding touches_def by blast+
  have other: "inode_at c' (ucast k) = inode_at c (ucast k)" if "valid_id k" "k \<noteq> i" for k
    using t(3)[OF valid_inum[OF that(1)]] other_inode[OF assms(2) that] by simp
  then have owns: "own c' (ucast k) = own c (ucast k)" if "valid_id k" "k \<noteq> i" for k
    using own_cong that by blast
  have mine: "b \<notin> ?F" if "valid_id k" "k \<noteq> i" "nodes A k = Some x" "b \<in> own c (ucast k)" for k x b
    using A(6)[OF that(1) assms(2) that(3) _ that(2,4)] A(8)[OF that(1,3,4)] assms(4) by (auto simp: owned_def)
  have new: "b \<notin> own c' (ucast i)" if "valid_id k" "k \<noteq> i" "nodes A k = Some x" "b \<in> own c (ucast k)" for k x b
    using t(5)[of b] mine[OF that] kept[OF that(1,3,4)] by blast
  have spare: "b \<notin> ?F" if "b \<in> U - V" for b using that A(8)[OF assms(2)] by (auto simp: owned_def split: if_splits)
  show ?thesis
  proof (rule relI[OF t(1) _ assms(6)])
    show "blank c'" using A(2) t(2) by (simp add: blank_def)
    show "node_at c' (ucast k) x" if k: "valid_id k" "nodes B k = Some x" for k x
    proof (cases "k = i")
      case True
      then show ?thesis using k(2) assms(5,7) by simp
    next
      case False
      then have x: "nodes A k = Some x" using k(2) assms(5) by simp
      have "in_use c' b \<and> data c' b = data c b" if b: "b \<in> own c (ucast k)" for b
        using t(4)[of b] kept[OF k(1) x b] mine[OF k(1) False x b] by blast
      then show ?thesis using node_at_frame[OF A(4)[OF k(1) x] other[OF k(1) False]] by blast
    qed
    show "itype (inode_at c' (ucast k)) = 0" if k: "valid_id k" "nodes B k = None" for k
      using k assms(5,7) A(5)[OF k(1)] other[OF k(1)] by (cases "k = i") auto
    show "b \<notin> own c' (ucast l)" if a: "valid_id k" "valid_id l" "nodes B k = Some x" "nodes B l = Some y" "k \<noteq> l"
      "b \<in> own c' (ucast k)" for k l x y b
    proof (cases "k = i \<or> l = i")
      case True
      then show ?thesis
      proof
        assume "k = i"
        then show ?thesis using a assms(5) new[of l y b] owns[of l] by auto
      next
        assume "l = i"
        then show ?thesis using a assms(5) new[of k x b] owns[of k] by auto
      qed
    next
      case False
      then show ?thesis using a assms(5) A(6)[OF a(1,2), of x y b] owns[OF a(1)] owns[OF a(2)] by auto
    qed
    show "data_block b \<and> in_use c' b" if "b \<in> U - V" for b
      using A(7)[of b] t(4)[of b] spare[OF that] that by blast
    show "b \<notin> U - V" if a: "valid_id k" "nodes B k = Some x" "b \<in> own c' (ucast k)" for k x b
    proof (cases "k = i")
      case True
      then show ?thesis using t(5)[of b] a(3) spare[of b] A(7)[of b] by blast
    next
      case False
      then show ?thesis using A(8)[OF a(1), of x b] a assms(5) owns[OF a(1)] by auto
    qed
  qed
qed

lemma rel_touch:
  assumes "rel U c A" "valid_id i" "touches (owned c A i) c c' (ucast i)"
    and "nodes B = (nodes A)(i := n)" "room B = card (free_blocks c')"
    and "case n of None \<Rightarrow> itype (inode_at c' (ucast i)) = 0 | Some x \<Rightarrow> node_at c' (ucast i) x"
  shows "rel U c' B"
  using rel_touch_spare[OF assms(1,2) _ _ assms(4-6), of "{}"] assms(3) by simp

text \<open>Blocks set aside: taken, but not in an inode yet.\<close>

lemma rel_reserve:
  assumes "rel U c A" "vol.ext {} c c'" "\<And>j. inum_ok j \<Longrightarrow> inode_at c' j = inode_at c j"
    and "\<And>b. b \<in> W \<Longrightarrow> data_block b \<and> \<not> in_use c b \<and> in_use c' b"
    and "nodes B = nodes A" "room B = card (free_blocks c')"
  shows "rel (U \<union> W) c' B"
proof -
  note A = relD[OF assms(1)] and kept = rel_kept[OF assms(1)]
  have same: "inode_at c' (ucast k) = inode_at c (ucast k)" "own c' (ucast k) = own c (ucast k)" if "valid_id k" for k
    using assms(3)[OF valid_inum[OF that]] own_cong[OF assms(3)[OF valid_inum[OF that]]] .
  show ?thesis
  proof (rule relI[OF vol.ext_ok[OF assms(2)] _ assms(6)])
    show "blank c'" using A(2) vol.ext_boot[OF assms(2)] by (simp add: blank_def)
    show "node_at c' (ucast k) x" if "valid_id k" "nodes B k = Some x" for k x
    proof -
      have x: "nodes A k = Some x" using that(2) by (simp only: assms(5))
      have "in_use c' b \<and> data c' b = data c b" if "b \<in> own c (ucast k)" for b
        using kept[OF \<open>valid_id k\<close> x that] vol.ext_block[OF assms(2)] by blast
      then show ?thesis using node_at_frame[OF A(4)[OF that(1) x] same(1)[OF that(1)]] by blast
    qed
    show "itype (inode_at c' (ucast k)) = 0" if "valid_id k" "nodes B k = None" for k
      using that A(5)[of k] same(1) unfolding assms(5) by simp
    show "b \<notin> own c' (ucast l)" if "valid_id k" "valid_id l" "nodes B k = Some x" "nodes B l = Some y" "k \<noteq> l"
      "b \<in> own c' (ucast k)" for k l x y b
      using that A(6)[of k l x y b] same(2) unfolding assms(5) by simp
    show "data_block b \<and> in_use c' b" if "b \<in> U \<union> W" for b
      using that A(7)[of b] assms(4)[of b] vol.ext_block[OF assms(2)] by blast
    show "b \<notin> U \<union> W" if "valid_id k" "nodes B k = Some x" "b \<in> own c' (ucast k)" for k x b
      using that A(8)[of k x b] kept[of k x b] assms(4)[of b] same(2) unfolding assms(5) by auto
  qed
qed

subsection \<open>A new inode\<close>

lemma rel_new_inode:
  assumes "rel U c A" "fresh A = Some i" "t \<in> {1, 2, 3}" "held n = 0" "pieces n = []"
    and "\<And>c' now. inode_at c' (ucast i) = new_inode t now \<Longrightarrow> inum_ok (ucast i) \<Longrightarrow> node_at c' (ucast i) n"
  obtains c' where "ec_create t c = Inr (OK, i, c')" "alloc_inode t c = Inr (ucast i, c')"
    "rel U c' (A\<lparr>nodes := (nodes A)(i \<mapsto> n)\<rparr>)"
proof -
  note A = relD[OF assms(1)] and fr = fresh_Some[OF assms(2)]
  have v: "valid_id i" using fr by (simp add: valid_id_def)
  have free: "itype (inode_at c (ucast i)) = 0" using A(5)[OF v fr(1)] .
  have used: "itype (inode_at c j) \<noteq> 0" if j: "inum_ok j" "j < ucast i" for j
  proof -
    have "(ucast j :: u64) < i" using j(2) ucast_id[of i] v by (simp add: word_less_nat_alt valid_id_def unsigned_ucast_eq)
    then obtain x where "nodes A (ucast j) = Some x" using fr(4) valid_of_inum[OF j(1)] by (auto simp: valid_id_def)
    from node_at_inode(2)[OF A(4)[OF valid_of_inum[OF j(1)] this]] show ?thesis by simp
  qed
  have "t \<in> {T_DIR, T_FILE, T_LNK}" using assms(3) by simp
  from A(1) this show thesis
  proof (rule alloc_inode_cases)
    fix k assume k: "inum_ok k" "itype (inode_at c k) = 0" "\<forall>j. inum_ok j \<and> j < k \<longrightarrow> itype (inode_at c j) \<noteq> 0"
      "alloc_inode t c = Inr (k, set_inode k (new_inode t (clock c (ticks c))) (c\<lparr>ticks := Suc (ticks c)\<rparr>))"
    have eq: "k = ucast i" using k(1-3) used[of k] free valid_inum[OF v] by (meson linorder_neqE)
    let ?c = "set_inode k (new_inode t (clock c (ticks c))) (c\<lparr>ticks := Suc (ticks c)\<rparr>)"
    have "ok (c\<lparr>ticks := Suc (ticks c)\<rparr>)" "length (iblocks (new_inode t (clock c (ticks c)))) = 101"
      using A(1) by (simp_all add: new_inode_def)
    note f = set_inode_frame[OF this(1) k(1) this(2)]
    have node: "node_at ?c (ucast i) n" using valid_inum[OF v] f(4)[of "ucast i"] by (intro assms(6)) (simp_all add: eq)
    have "own ?c (ucast i) = {}" using node_at_inode(4,8)[OF node assms(5)] assms(4) by simp
    then have "touches (owned c A i) c ?c (ucast i)" using f eq by (auto simp: touches_def)
    moreover have "free_blocks ?c = free_blocks c" using f(3) by (auto simp: vol.free_set_def)
    ultimately have "rel U ?c (A\<lparr>nodes := (nodes A)(i \<mapsto> n)\<rparr>)"
      using node A(3) by (intro rel_touch[OF assms(1) v, where n = "Some n"]) simp_all
    moreover have "ec_create t c = Inr (OK, i, ?c)" using k(4) v unfolding eq by (simp add: ec_defs es_defs valid_id_def)
    moreover have "alloc_inode t c = Inr (ucast i, ?c)" using k(4) by (simp only: eq)
    ultimately show thesis using that by blast
  next
    assume "\<forall>j. inum_ok j \<longrightarrow> itype (inode_at c j) \<noteq> 0"
    then show thesis using free valid_inum[OF v] by blast
  qed
qed

subsection \<open>Entries\<close>

lemma dir_node: "dir_at c j es \<Longrightarrow> holds c j ps \<Longrightarrow> length ps = length es \<Longrightarrow> node_at c j (Directory es)"
proof -
  assume d: "dir_at c j es" and h: "holds c j ps" and len: "length ps = length es"
  have n: "unat (isize (inode_at c j)) = length ps" using dir_at_length[OF d] len by simp
  have "dir_blocks c j = ps" using holds_take[OF h, of "length ps"] h n by (simp add: holds_def)
  then show ?thesis using d h n holds_ptrs[OF h] unfolding node_at_def dir_at_def by (simp del: take_eq_Nil)
qed

lemma rel_add_entry:
  assumes "rel U c A" "valid_id p" "nodes A p = Some (Directory es)" "length es < 100" "name_ok name" "0 < room A" "i \<le> 1024"
  obtains c' where "ec_add_to_dir p i name c = Inr (OK, c')"
    "rel U c' (A\<lparr>nodes := (nodes A)(p \<mapsto> Directory (es @ [(i, name)])), room := room A - 1\<rparr>)"
proof -
  note A = relD[OF assms(1)]
  let ?p = "ucast p :: u32" and ?ps = "file_ptrs c (ucast p)"
  have node: "node_at c ?p (Directory es)" using A(4)[OF assms(2,3)] .
  have p: "p \<le> 1024" using assms(2) by (simp add: valid_id_def)
  have d: "dir_at c ?p es" using node_dir[OF A(1) p node] by (simp add: dir_of_def)
  have a: "length name \<le> 508" "0 \<notin> set name" "free_blocks c \<noteq> {}" using assms(5,6) A(3) by (auto simp: name_ok_def)
  obtain c' where c': "add_to_dir (Suc 1024) ?p (ucast i) name c = Inr c'" "dir_at c' ?p (es @ [(ucast (ucast i :: u32), name)])"
    "vol.ext {?p} c c'" "card (free_blocks c) = Suc (card (free_blocks c'))"
    "\<forall>j. inum_ok j \<and> j \<noteq> ?p \<longrightarrow> inode_at c' j = inode_at c j"
    "\<exists>b. data_block b \<and> \<not> in_use c b \<and> iblocks (inode_at c' ?p) = (iblocks (inode_at c ?p))[length es := b]"
    by (rule add_small_does[OF d A(1) assms(4) a, of 1024 "ucast i"]) (rule that; blast)
  obtain b where b: "data_block b" "\<not> in_use c b" "iblocks (inode_at c' ?p) = (iblocks (inode_at c ?p))[length es := b]"
    using c'(6) by blast
  note h = node_holds[OF node]
  have len: "length ?ps = length es" using node_at_inode(4)[OF node] by simp
  have "take 100 (iblocks (inode_at c' ?p)) = (?ps @ replicate (100 - length ?ps) 0)[length ?ps := b]"
    using h unfolding b(3) take_update_swap by (simp add: holds_def len)
  moreover have "replicate (100 - length ?ps) 0 = 0 # replicate (99 - length ?ps) (0 :: u32)"
    using assms(4) len by (simp flip: replicate_Suc)
  ultimately have "take 100 (iblocks (inode_at c' ?p)) = (?ps @ [b]) @ replicate (100 - length (?ps @ [b])) 0"
    by simp
  moreover have "in_use c' b"
  proof -
    have n: "unat (isize (inode_at c' ?p)) = Suc (length es)" using dir_at_length[OF c'(2)] by simp
    have "dir_blocks c' ?p ! length es = b" using assms(4) unfolding n b(3) by simp
    moreover have "length es < length (dir_blocks c' ?p)" using assms(4) unfolding n by simp
    ultimately have "b \<in> set (dir_blocks c' ?p)" by (metis nth_mem)
    then show ?thesis using c'(2) unfolding dir_at_def by blast
  qed
  moreover have "\<forall>x \<in> set ?ps. data_block x \<and> in_use c' x \<and> x \<noteq> b"
    using h vol.ext_block[OF c'(3)] b(2) unfolding holds_def by blast
  ultimately have h': "holds c' ?p (?ps @ [b])" using h b(1) assms(4) len by (auto simp: holds_def)
  have node': "node_at c' ?p (Directory (es @ [(i, name)]))"
    using dir_node[OF c'(2) h'] len assms(7) by simp
  have owns: "own c ?p = set ?ps" "own c' ?p = set (?ps @ [b])"
    using node_at_inode(8)[OF node] node_at_inode(8)[OF node'] holds_ptrs[OF h'] by simp_all
  have "touches (owned c A p) c c' ?p"
    using owns c'(5) vol.ext_ok[OF c'(3)] vol.ext_boot[OF c'(3)] vol.ext_block[OF c'(3)] holds_ptrs[OF h'] b(2) assms(3) by (auto simp: touches_def owned_def)
  then have "rel U c' (A\<lparr>nodes := (nodes A)(p \<mapsto> Directory (es @ [(i, name)])), room := room A - 1\<rparr>)"
    using node' c'(4) A(3) by (intro rel_touch[OF assms(1,2), where n = "Some (Directory (es @ [(i, name)]))"]) simp_all
  moreover have "ec_add_to_dir p i name c = Inr (OK, c')" using c'(1) by (simp add: ec_defs es_defs)
  ultimately show thesis using that by blast
qed

lemma swap_out_pointers:
  assumes "take 100 xs = ps @ replicate (100 - length ps) 0" "k < length ps" "length ps \<le> 100"
  shows "take 100 (xs[k := last ps, length ps - 1 := 0]) = swap_out k ps @ replicate (100 - (length ps - 1)) 0"
proof -
  obtain qs q where q: "ps[k := last ps] = qs @ [q]" using assms(2) by (metis length_list_update list.size(3) not_less_zero rev_exhaust)
  then have n: "length ps = Suc (length qs)" by (metis length_append_singleton length_list_update)
  have "take 100 (xs[k := last ps, length ps - 1 := 0]) = ((ps @ replicate (100 - length ps) 0)[k := last ps])[length ps - 1 := 0]"
    unfolding take_update_swap assms(1) ..
  also have "(ps @ replicate (100 - length ps) 0)[k := last ps] = (qs @ [q]) @ replicate (100 - length ps) 0"
    using assms(2) q by (simp add: list_update_append)
  also have "(\<dots>)[length ps - 1 := 0] = qs @ replicate (100 - (length ps - 1)) 0"
    using n assms(3) by (simp flip: replicate_Suc)
  also have "qs = swap_out k ps" using q by (simp add: swap_out_def)
  finally show ?thesis .
qed

lemma rel_del_entry:
  assumes "rel U c A" "valid_id p" "nodes A p = Some (Directory es)" "i \<le> 1024" "i \<in> fst ` set es"
  obtains c' where "ec_remove_from_dir p i c = Inr (OK, c')"
    "rel U c' (A\<lparr>nodes := (nodes A)(p \<mapsto> Directory (swap_out (entry_index (ucast i) es) es)), room := room A + 1\<rparr>)"
proof -
  note A = relD[OF assms(1)]
  let ?p = "ucast p :: u32" and ?ps = "file_ptrs c (ucast p)" and ?k = "entry_index (ucast i) es"
  have node: "node_at c ?p (Directory es)" using A(4)[OF assms(2,3)] .
  have p: "p \<le> 1024" using assms(2) by (simp add: valid_id_def)
  have d: "dir_at c ?p es" using node_dir[OF A(1) p node] by (simp add: dir_of_def)
  note h = node_holds[OF node]
  have len: "length ?ps = length es" using node_at_inode(4)[OF node] by simp
  have k: "?k < length es" using entry_index_nth[of "ucast i" es] assms(4,5) by simp
  have blocks: "dir_blocks c ?p = ?ps" using node by (cases rule: node_cases) simp_all
  have ne: "es \<noteq> []" using k by auto
  obtain c' where c': "remove_from_dir (Suc 1024) ?p (ucast i) c = Inr c'" "ok c'" "data c' 0 = data c 0" "dir_at c' ?p (swap_out ?k es)"
    "\<forall>j. inum_ok j \<and> j \<noteq> ?p \<longrightarrow> inode_at c' j = inode_at c j"
    "\<forall>b. data_block b \<longrightarrow> in_use c' b = (b \<notin> (if ?k < length es then {?ps ! ?k} else {}) \<and> in_use c b)
       \<and> (b \<notin> (if ?k < length es then {?ps ! ?k} else {}) \<longrightarrow> data c' b = data c b)"
    "iblocks (inode_at c' ?p) = (if ?k < length es then (iblocks (inode_at c ?p))[?k := last ?ps] else iblocks (inode_at c ?p))[length es - 1 := 0]"
    by (rule remove_small_does[OF d A(1) ne, of 1024 "ucast i", unfolded blocks]) (rule that)
  have dist: "distinct ?ps" "length ?ps \<le> 100" "\<forall>b \<in> set ?ps. data_block b \<and> in_use c b"
    "take 100 (iblocks (inode_at c ?p)) = ?ps @ replicate (100 - length ?ps) 0" using h unfolding holds_def by blast+
  have kp: "?k < length ?ps" using k len by simp
  have "set (swap_out ?k ?ps) \<subseteq> set ?ps" by (rule set_swap_out)
  then have new: "x \<in> set ?ps" "x \<noteq> ?ps ! ?k" if "x \<in> set (swap_out ?k ?ps)" for x
    using that swap_out_removes[OF dist(1) kp] by (blast, metis)
  have live: "\<forall>x \<in> set (swap_out ?k ?ps). data_block x \<and> in_use c' x"
  proof
    fix x assume "x \<in> set (swap_out ?k ?ps)"
    then have "data_block x" "in_use c x" "x \<noteq> ?ps ! ?k" using new dist(3) by blast+
    then show "data_block x \<and> in_use c' x" using c'(6) k by simp
  qed
  have size: "length (swap_out ?k ?ps) = length es - 1" using len by (simp add: swap_out_def)
  have "take 100 (iblocks (inode_at c' ?p)) = swap_out ?k ?ps @ replicate (100 - (length es - 1)) 0"
    unfolding c'(7) if_P[OF k] using swap_out_pointers[OF dist(4) kp dist(2)] unfolding len .
  then have h': "holds c' ?p (swap_out ?k ?ps)"
    unfolding holds_def size using live dist(2) len distinct_swap_out[OF dist(1), of ?k] by simp
  have node': "node_at c' ?p (Directory (swap_out ?k es))"
    using dir_node[OF c'(4) h'] len by (simp add: swap_out_def)
  have owns: "own c ?p = set ?ps" "own c' ?p = set (swap_out ?k ?ps)"
    using node_at_inode(8)[OF node] node_at_inode(8)[OF node'] holds_ptrs[OF h'] by simp_all
  note node'
  moreover have "touches (owned c A p) c c' ?p"
    unfolding touches_def owned_def using owns c'(2,3,5,6) new(1) kp k assms(3) nth_mem[OF kp] by auto
  moreover have "card (free_blocks c') = Suc (card (free_blocks c))"
  proof -
    have "data_block (?ps ! ?k)" "in_use c (?ps ! ?k)" using dist(3) nth_mem[OF kp] by blast+
    then have "free_blocks c' = insert (?ps ! ?k) (free_blocks c)" "?ps ! ?k \<notin> free_blocks c"
      using c'(6) k by (auto simp: vol.free_set_def)
    then show ?thesis by simp
  qed
  ultimately have "rel U c' (A\<lparr>nodes := (nodes A)(p \<mapsto> Directory (swap_out ?k es)), room := room A + 1\<rparr>)"
    using A(3) by (intro rel_touch[OF assms(1,2), where n = "Some (Directory (swap_out ?k es))"]) simp_all
  moreover have "ec_remove_from_dir p i c = Inr (OK, c')" using c'(1) by (simp add: ec_defs es_defs)
  ultimately show thesis using that by blast
qed

end
