(* ===== verification/Node_Removal.thy ===== *)
theory Node_Removal imports Node_Steps begin

text \<open>
  Removing a node: a file goes with the pieces in its table. Their blocks are given back, that of the table is
  not.
\<close>

subsection \<open>On the disk\<close>

text \<open>The inodes \<open>J\<close> are cleared and the blocks \<open>F\<close> given back, and nothing else is changed.\<close>

definition cleared :: "extent_client \<Rightarrow> extent_client \<Rightarrow> u32 set \<Rightarrow> u32 set \<Rightarrow> bool" where
  "cleared c c' J F \<longleftrightarrow> ok c' \<and> data c' 0 = data c 0
     \<and> (\<forall>j. inum_ok j \<longrightarrow> inode_at c' j = (if j \<in> J then zero_inode else inode_at c j))
     \<and> (\<forall>b. data_block b \<longrightarrow> in_use c' b = (b \<notin> F \<and> in_use c b) \<and> (b \<notin> F \<longrightarrow> data c' b = data c b))"

lemma clearedD:
  assumes "cleared c c' J F"
  shows "ok c'" "data c' 0 = data c 0" "inum_ok j \<Longrightarrow> inode_at c' j = (if j \<in> J then zero_inode else inode_at c j)"
    "data_block b \<Longrightarrow> in_use c' b = (b \<notin> F \<and> in_use c b)" "data_block b \<Longrightarrow> b \<notin> F \<Longrightarrow> data c' b = data c b"
  using assms unfolding cleared_def by blast+

lemma cleared_trans:
  assumes "cleared c c1 J F" "cleared c1 c' K G"
  shows "cleared c c' (J \<union> K) (F \<union> G)"
  using assms unfolding cleared_def by auto

lemma zero_inode_ptrs: "inode_at c j = zero_inode \<Longrightarrow> file_ptrs c j = []"
  by (simp add: file_ptrs_def zero_inode_def)

lemma cleared_ptrs: "cleared c c' J F \<Longrightarrow> inum_ok j \<Longrightarrow> j \<notin> J \<Longrightarrow> file_ptrs c' j = file_ptrs c j"
  by (simp add: cleared_def file_ptrs_def)

lemma free_ptrs:
  assumes "ok c" "distinct (file_ptrs c i)" "\<forall>b \<in> set (file_ptrs c i). data_block b \<and> in_use c b"
  shows "\<exists>c'. each_sub_st bm_free (take 100 (iblocks (inode_at c i))) c = Inr c' \<and> cleared c c' {} (set (file_ptrs c i))"
  using vol.release_all[OF assms] unfolding file_ptrs_def each_sub_st_takeWhile cleared_def by force

lemma freed_inode_cleared:
  assumes "ok c" "inum_ok i" "itype (inode_at c i) \<noteq> 0"
  shows "\<exists>c'. free_inode i c = Inr c' \<and> cleared c c' {i} {}"
proof -
  have z: "length (iblocks zero_inode) = 101" by (simp add: zero_inode_def)
  obtain c' where c': "put_inode i zero_inode c = Inr c'" using vol.save_returns[OF assms(1,2) z] ..
  then show ?thesis using vol.save_does[OF assms(1,2) z c'] assms by (auto simp: free_inode_def get_inode_ok cleared_def)
qed

lemma remove_small:
  assumes "ok c" "inum_ok i" "itype (inode_at c i) \<noteq> 0" "isize (inode_at c i) \<le> 100"
    and "distinct (file_ptrs c i)" "\<forall>b \<in> set (file_ptrs c i). data_block b \<and> in_use c b"
  shows "\<exists>c'. remove_file (Suc f) i c = Inr c' \<and> cleared c c' {i} (set (file_ptrs c i))"
  using remove_direct[OF assms(1-4) file_ptrs_def assms(5,6), of f] unfolding cleared_def by fastforce

lemma remove_each:
  assumes "ok c" "\<forall>j \<in> set js. inum_ok j \<and> itype (inode_at c j) \<noteq> 0 \<and> isize (inode_at c j) \<le> 100" "distinct js"
    and "distinct (concat (map (file_ptrs c) js))" "\<forall>b \<in> set (concat (map (file_ptrs c) js)). data_block b \<and> in_use c b"
  shows "\<exists>c'. each_sub_st (remove_file (Suc f)) js c = Inr c' \<and> cleared c c' (set js) (set (concat (map (file_ptrs c) js)))"
  using assms
proof (induction js arbitrary: c)
  case Nil
  then show ?case by (simp add: cleared_def)
next
  case (Cons j js)
  let ?F = "set (file_ptrs c j)"
  have "\<exists>c1. remove_file (Suc f) j c = Inr c1 \<and> cleared c c1 {j} ?F"
    by (rule remove_small) (use Cons.prems in auto)
  then obtain c1 where c1: "remove_file (Suc f) j c = Inr c1" "cleared c c1 {j} ?F" by blast
  note cl = clearedD[OF c1(2)]
  have same: "inode_at c1 l = inode_at c l" "file_ptrs c1 l = file_ptrs c l" if "l \<in> set js" for l
    using that cl(3)[of l] cleared_ptrs[OF c1(2), of l] Cons.prems(2,3) by auto
  then have eq: "map (file_ptrs c1) js = map (file_ptrs c) js" by simp
  have "\<exists>c'. each_sub_st (remove_file (Suc f)) js c1 = Inr c' \<and> cleared c1 c' (set js) (set (concat (map (file_ptrs c1) js)))"
  proof (rule Cons.IH[OF cl(1)])
    show "\<forall>l \<in> set js. inum_ok l \<and> itype (inode_at c1 l) \<noteq> 0 \<and> isize (inode_at c1 l) \<le> 100" using same(1) Cons.prems(2) by simp
    show "distinct (concat (map (file_ptrs c1) js))" using Cons.prems(4) unfolding eq by simp
    show "\<forall>b \<in> set (concat (map (file_ptrs c1) js)). data_block b \<and> in_use c1 b"
      using Cons.prems(4,5) cl(4) unfolding eq by auto
  qed (use Cons.prems(3) in simp)
  then obtain c' where c': "each_sub_st (remove_file (Suc f)) js c1 = Inr c'" "cleared c1 c' (set js) (set (concat (map (file_ptrs c) js)))"
    unfolding eq by blast
  have "j \<noteq> 0" using Cons.prems(2) by (simp add: inum_nonzero)
  then have "each_sub_st (remove_file (Suc f)) (j # js) c = Inr c'" using c1(1) c'(1) by (simp del: remove_file.simps)
  moreover have "cleared c c' (set (j # js)) (set (concat (map (file_ptrs c) (j # js))))"
    using cleared_trans[OF c1(2) c'(2)] by simp
  ultimately show ?case by blast
qed

lemma distinct_concat_map:
  assumes "distinct ks" "\<And>i. i \<in> set ks \<Longrightarrow> distinct (f i)"
    and "\<And>i j. i \<in> set ks \<Longrightarrow> j \<in> set ks \<Longrightarrow> i \<noteq> j \<Longrightarrow> set (f i) \<inter> set (f j) = {}"
  shows "distinct (concat (map f ks))"
  using assms
proof (induction ks)
  case (Cons a ks)
  have "distinct (concat (map f ks))" by (rule Cons.IH) (use Cons.prems in auto)
  moreover have "set (f a) \<inter> set (f i) = {}" if "i \<in> set ks" for i
    using that Cons.prems(3)[of a i] Cons.prems(1) by auto
  ultimately show ?case using Cons.prems(2) by auto
qed simp

text \<open>A file with a table.\<close>

lemma remove_with_table:
  assumes "ok c" "inum_ok i" "itype (inode_at c i) \<noteq> 0" "100 < isize (inode_at c i)"
    and js: "takeWhile (\<lambda>x. x \<noteq> 0) (u32s_of_block (data c (table_block c i))) = js" "distinct (i # js)"
      "\<forall>j \<in> set js. inum_ok j \<and> itype (inode_at c j) \<noteq> 0 \<and> isize (inode_at c j) \<le> 100"
    and ptrs: "distinct (concat (map (file_ptrs c) (i # js)))"
      "\<forall>b \<in> set (concat (map (file_ptrs c) (i # js))). data_block b \<and> in_use c b"
    and tab: "data_block (table_block c i)" "table_block c i \<notin> set (file_ptrs c i)"
  shows "\<exists>c'. remove_file (Suc (Suc f)) i c = Inr c' \<and> cleared c c' (set (i # js)) (set (concat (map (file_ptrs c) (i # js))))"
proof -
  obtain c1 where c1: "each_sub_st bm_free (take 100 (iblocks (inode_at c i))) c = Inr c1" "cleared c c1 {} (set (file_ptrs c i))"
    using free_ptrs[OF assms(1), of i] ptrs by auto
  note cl = clearedD[OF c1(2)]
  have eq: "map (file_ptrs c1) js = map (file_ptrs c) js" using cleared_ptrs[OF c1(2)] js(3) by simp
  have "\<exists>c2. each_sub_st (remove_file (Suc f)) js c1 = Inr c2 \<and> cleared c1 c2 (set js) (set (concat (map (file_ptrs c1) js)))"
  proof (rule remove_each[OF cl(1)])
    show "\<forall>j \<in> set js. inum_ok j \<and> itype (inode_at c1 j) \<noteq> 0 \<and> isize (inode_at c1 j) \<le> 100" using cl(3) js(3) by simp
    show "distinct (concat (map (file_ptrs c1) js))" using ptrs(1) unfolding eq by simp
    show "\<forall>b \<in> set (concat (map (file_ptrs c1) js)). data_block b \<and> in_use c1 b"
      using ptrs cl(4) unfolding eq by auto
  qed (use js(2) in simp)
  then obtain c2 where c2: "each_sub_st (remove_file (Suc f)) js c1 = Inr c2" "cleared c1 c2 (set js) (set (concat (map (file_ptrs c) js)))"
    unfolding eq by blast
  have "data c1 (table_block c i) = data c (table_block c i)" using cl(5)[OF tab] .
  then have subs: "each_sub_st (remove_file (Suc f)) (u32s_of_block (data c1 (table_block c i))) c1 = Inr c2"
    using c2(1) js(1) each_sub_st_takeWhile by metis
  have "inode_at c2 i = inode_at c i" using clearedD(3)[OF c2(2) assms(2)] cl(3)[OF assms(2)] js(2) by simp
  then obtain c' where c': "free_inode i c2 = Inr c'" "cleared c2 c' {i} {}"
    using freed_inode_cleared[OF clearedD(1)[OF c2(2)] assms(2)] assms(3) by auto
  have "bm_read (table_block c i) c1 = Inr (data c1 (table_block c i))" using cl(1) tab(1) by (simp add: bm_read_ok data_block_lt)
  then have "remove_file (Suc (Suc f)) i c = Inr c'"
    unfolding remove_file.simps(2)[of "Suc f"] using get_inode_ok[OF assms(1)] assms(2-4) c1(1) subs c'(1)
    by (simp del: remove_file.simps)
  moreover have "cleared c c' (set (i # js)) (set (concat (map (file_ptrs c) (i # js))))"
    using cleared_trans[OF cleared_trans[OF c1(2) c2(2)] c'(2)] by (simp add: Un_commute)
  ultimately show ?thesis by blast
qed

subsection \<open>Against the specification\<close>

lemma rel_clear:
  assumes "rel U c A" "\<And>j. j \<in> J \<Longrightarrow> valid_id j \<and> nodes A j \<noteq> None" "cleared c c' (ucast ` J) F" "F \<subseteq> (\<Union>j \<in> J. own c (ucast j))"
    and "nodes B = (\<lambda>j. if j \<in> J then None else nodes A j)" "room B = room A + card F"
  shows "rel U c' B"
proof -
  note A = relD[OF assms(1)] and kept = rel_kept[OF assms(1)] and cl = clearedD[OF assms(3)]
  have mine: "valid_id j \<and> (\<exists>x. nodes A j = Some x)" if "j \<in> J" for j using assms(2)[OF that] by auto
  have F: "data_block b \<and> in_use c b" if "b \<in> F" for b
    using that assms(4) mine kept by blast
  have gone: "inode_at c' (ucast j) = zero_inode" if "j \<in> J" for j
    using cl(3)[OF valid_inum, of j] mine[OF that] that by auto
  have same: "inode_at c' (ucast k) = inode_at c (ucast k)" if "valid_id k" "k \<notin> J" for k
  proof -
    have "(ucast k :: u32) \<notin> ucast ` J" using that mine valid_inject[OF that(1)] by blast
    then show ?thesis using cl(3)[OF valid_inum[OF that(1)]] by simp
  qed
  then have owns: "own c' (ucast k) = own c (ucast k)" if "valid_id k" "k \<notin> J" for k using own_cong that by blast
  have other: "b \<notin> F" if "valid_id k" "k \<notin> J" "nodes A k = Some x" "b \<in> own c (ucast k)" for k x b
  proof
    assume "b \<in> F"
    then obtain j where j: "j \<in> J" "b \<in> own c (ucast j)" using assms(4) by blast
    then obtain y where "valid_id j" "nodes A j = Some y" using mine by blast
    then show False using A(6)[OF _ that(1) _ that(3) _ j(2)] that(2,4) j(1) by blast
  qed
  have nodes: "k \<notin> J \<and> nodes A k = Some x" if "nodes B k = Some x" for k x
    using that assms(5) by (simp split: if_splits)
  show ?thesis
  proof (rule relI[OF cl(1)])
    show "blank c'" using A(2) cl(2) by (simp add: blank_def)
    have "free_blocks c' = free_blocks c \<union> F" "free_blocks c \<inter> F = {}"
      using cl(4) F by (auto simp: vol.free_set_def)
    then show "room B = card (free_blocks c')" using A(3) assms(6) by (simp add: card_Un_disjoint)
    show "node_at c' (ucast k) x" if k: "valid_id k" "nodes B k = Some x" for k x
    proof -
      note x = nodes[OF k(2), THEN conjunct1] nodes[OF k(2), THEN conjunct2]
      have "in_use c' b \<and> data c' b = data c b" if b: "b \<in> own c (ucast k)" for b
        using kept[OF k(1) x(2) b] cl(4,5) other[OF k(1) x b] by blast
      then show ?thesis using node_at_frame[OF A(4)[OF k(1) x(2)] same[OF k(1) x(1)]] by blast
    qed
    show "itype (inode_at c' (ucast k)) = 0" if k: "valid_id k" "nodes B k = None" for k
    proof (cases "k \<in> J")
      case True
      then show ?thesis using gone by (simp add: zero_inode_def)
    next
      case False
      then show ?thesis using same[OF k(1)] A(5)[OF k(1)] k(2) assms(5) by simp
    qed
    show "b \<notin> own c' (ucast l)" if a: "valid_id k" "valid_id l" "nodes B k = Some x" "nodes B l = Some y" "k \<noteq> l"
      "b \<in> own c' (ucast k)" for k l x y b
      using A(6)[OF a(1,2), of x y b] nodes[OF a(3)] nodes[OF a(4)] a(5,6) owns[OF a(1)] owns[OF a(2)] by simp
    show "data_block b \<and> in_use c' b" if b: "b \<in> U" for b
    proof -
      have "b \<notin> own c (ucast j)" if "j \<in> J" for j using mine[OF that] A(8) b by blast
      then have "b \<notin> F" using assms(4) by blast
      then show ?thesis using A(7)[OF b] cl(4) by blast
    qed
    show "b \<notin> U" if a: "valid_id k" "nodes B k = Some x" "b \<in> own c' (ucast k)" for k x b
      using A(8)[OF a(1), of x b] nodes[OF a(2)] a(3) owns[OF a(1)] by simp
  qed
qed

text \<open>The node and its pieces, as a list of numbers.\<close>

definition pieces_in :: "fs \<Rightarrow> u64 \<Rightarrow> node \<Rightarrow> bool" where
  "pieces_in A i n \<longleftrightarrow> distinct (i # map fst (pieces n))
     \<and> (\<forall>(j, b) \<in> set (pieces n). valid_id j \<and> nodes A j = Some (Bytes Regular (length b) b))"

lemma pieces_inD: "pieces_in A i n \<Longrightarrow> (j, b) \<in> set (pieces n) \<Longrightarrow> valid_id j \<and> nodes A j = Some (Bytes Regular (length b) b)"
  by (auto simp: pieces_in_def)

lemma ptrs_own: "b \<in> set (file_ptrs c j) \<Longrightarrow> b \<in> own c j"
  by (simp add: own_def)

definition with_pieces :: "u64 \<Rightarrow> node \<Rightarrow> u64 list" where
  "with_pieces i n = i # map fst (pieces n)"

definition blocks_with_pieces :: "extent_client \<Rightarrow> u64 \<Rightarrow> node \<Rightarrow> u32 list" where
  "blocks_with_pieces c i n = concat (map (\<lambda>k. file_ptrs c (ucast k)) (with_pieces i n))"

lemma with_pieces_known:
  assumes "rel U c A" "valid_id i" "nodes A i = Some n" "pieces_in A i n" "k \<in> set (with_pieces i n)"
  obtains x where "valid_id k" "nodes A k = Some x" "node_at c (ucast k) x"
proof -
  have "valid_id k \<and> nodes A k \<noteq> None" using assms(2,3,5) pieces_inD[OF assms(4)] unfolding with_pieces_def by fastforce
  then show thesis using that relD(4)[OF assms(1)] by blast
qed

lemma piece_node:
  assumes "rel U c A" "pieces_in A i n" "(j, b) \<in> set (pieces n)"
  shows "node_at c (ucast j) (Bytes Regular (length b) b)"
  using pieces_inD[OF assms(2,3)] relD(4)[OF assms(1)] by blast

lemma blocks_with_pieces_distinct:
  assumes "rel U c A" "valid_id i" "nodes A i = Some n" "pieces_in A i n"
  shows "distinct (blocks_with_pieces c i n)"
  unfolding blocks_with_pieces_def
proof (rule distinct_concat_map)
  show "distinct (with_pieces i n)" using assms(4) by (simp add: with_pieces_def pieces_in_def)
  show "distinct (file_ptrs c (ucast k))" if "k \<in> set (with_pieces i n)" for k
    using assms that by (rule with_pieces_known) (rule node_at_inode(7))
  show "set (file_ptrs c (ucast k)) \<inter> set (file_ptrs c (ucast l)) = {}"
    if a: "k \<in> set (with_pieces i n)" "l \<in> set (with_pieces i n)" "k \<noteq> l" for k l
  proof -
    obtain x where "valid_id k" "nodes A k = Some x" using assms a(1) by (rule with_pieces_known)
    moreover obtain y where "valid_id l" "nodes A l = Some y" using assms a(2) by (rule with_pieces_known)
    ultimately show ?thesis using relD(6)[OF assms(1), of k l x y] a(3) ptrs_own by blast
  qed
qed

lemma blocks_with_pieces_used:
  assumes "rel U c A" "valid_id i" "nodes A i = Some n" "pieces_in A i n"
  shows "\<forall>b \<in> set (blocks_with_pieces c i n). data_block b \<and> in_use c b"
proof
  fix b assume "b \<in> set (blocks_with_pieces c i n)"
  then obtain k where k: "k \<in> set (with_pieces i n)" "b \<in> set (file_ptrs c (ucast k))"
    unfolding blocks_with_pieces_def by auto
  from assms k(1) show "data_block b \<and> in_use c b" by (rule with_pieces_known) (use k(2) node_ptrs in blast)
qed

lemma blocks_with_pieces_length:
  assumes "rel U c A" "valid_id i" "nodes A i = Some n" "pieces_in A i n"
  shows "length (blocks_with_pieces c i n) = held n"
proof -
  have node: "node_at c (ucast i) n" using relD(4)[OF assms(1-3)] .
  show ?thesis
  proof (cases "pieces n = []")
    case True
    then show ?thesis using node_at_inode(4)[OF node] by (simp add: blocks_with_pieces_def with_pieces_def)
  next
    case False
    from node show ?thesis
    proof (cases rule: node_cases)
      case (large k bs ps)
      have "length (file_ptrs c (ucast j)) = length b" if "(j, b) \<in> set ps" for j b
        using node_at_inode(4)[OF piece_node[OF assms(1,4), of j b]] that large(1) by simp
      then have "sum_list (map (\<lambda>x. length (file_ptrs c (ucast (fst x)))) ps) = sum_list (map (\<lambda>(j, b). length b) ps)"
        by (intro arg_cong[of _ _ sum_list] map_cong) auto
      then show ?thesis using large(1,6) by (simp add: blocks_with_pieces_def with_pieces_def length_concat comp_def)
    qed (use False in simp_all)
  qed
qed

lemma node_removed:
  assumes "rel U c A" "valid_id i" "nodes A i = Some n" "pieces_in A i n"
  obtains c' where "remove_file max_depth (ucast i) c = Inr c'"
    "cleared c c' (ucast ` set (with_pieces i n)) (set (blocks_with_pieces c i n))"
proof -
  note A = relD[OF assms(1)] and used = blocks_with_pieces_used[OF assms]
  let ?i = "ucast i :: u32" and ?ks = "with_pieces i n"
  have node: "node_at c ?i n" using A(4)[OF assms(2,3)] .
  note at = node_at_inode[OF node]
  have "\<exists>c'. remove_file (Suc 1024) ?i c = Inr c' \<and> cleared c c' (ucast ` set ?ks) (set (blocks_with_pieces c i n))"
  proof (cases "pieces n = []")
    case True
    then have "\<exists>c'. remove_file (Suc 1024) ?i c = Inr c' \<and> cleared c c' {?i} (set (file_ptrs c ?i))"
      using used by (intro remove_small[OF A(1) at(1,2) at(3) at(7)]) (simp_all add: blocks_with_pieces_def with_pieces_def)
    then show ?thesis using True by (simp add: blocks_with_pieces_def with_pieces_def del: remove_file.simps)
  next
    case False
    from node show ?thesis
    proof (cases rule: node_cases)
      case (large k bs ps)
      let ?js = "map (\<lambda>(j, b). ucast j) ps :: u32 list"
      have js: "?i # ?js = map ucast ?ks" using large(1) by (simp add: with_pieces_def case_prod_beta)
      have "inj_on (ucast :: u64 \<Rightarrow> u32) (set ?ks)" using with_pieces_known[OF assms] valid_inject by (meson inj_onI)
      moreover have "distinct ?ks" using assms(4) by (simp add: with_pieces_def pieces_in_def)
      ultimately have "distinct (?i # ?js)" unfolding js by (simp add: distinct_map)
      moreover have ptrs: "concat (map (file_ptrs c) (?i # ?js)) = blocks_with_pieces c i n"
        unfolding js blocks_with_pieces_def by (simp add: comp_def)
      moreover have "\<forall>j \<in> set ?js. inum_ok j \<and> itype (inode_at c j) \<noteq> 0 \<and> isize (inode_at c j) \<le> 100"
        using node_at_inode(1,2,3)[OF piece_node[OF assms(1,4)]] large(1) by force
      moreover have "100 < isize (inode_at c ?i)" using large(3) by simp
      ultimately have "\<exists>c'. remove_file (Suc (Suc 1023)) ?i c = Inr c'
          \<and> cleared c c' (set (?i # ?js)) (set (concat (map (file_ptrs c) (?i # ?js))))"
        using blocks_with_pieces_distinct[OF assms] used large(7,9,10) by (intro remove_with_table[OF A(1) at(1,2)]) simp_all
      then show ?thesis unfolding ptrs unfolding js by (simp del: remove_file.simps)
    qed (use False in simp_all)
  qed
  then show thesis using that by (auto simp del: remove_file.simps)
qed

lemma rel_remove:
  assumes "rel U c A" "valid_id i" "nodes A i = Some n" "pieces_in A i n"
  obtains c' where "ec_remove i c = Inr (OK, c')" "rel U c' (fs_remove i n A)"
proof -
  let ?ks = "with_pieces i n" and ?F = "set (blocks_with_pieces c i n)"
  obtain c' where c': "remove_file max_depth (ucast i) c = Inr c'" "cleared c c' (ucast ` set ?ks) ?F"
    using assms by (rule node_removed)
  have "rel U c' (fs_remove i n A)"
  proof (rule rel_clear[OF assms(1) _ c'(2)])
    show "valid_id j \<and> nodes A j \<noteq> None" if j: "j \<in> set ?ks" for j
      using assms j by (rule with_pieces_known) simp
    show "?F \<subseteq> (\<Union>j \<in> set ?ks. own c (ucast j))" using ptrs_own by (fastforce simp: blocks_with_pieces_def)
    show "nodes (fs_remove i n A) = (\<lambda>j. if j \<in> set ?ks then None else nodes A j)"
      by (simp add: fs_remove_def Let_def with_pieces_def)
    show "room (fs_remove i n A) = room A + card ?F"
      using distinct_card[OF blocks_with_pieces_distinct[OF assms]] blocks_with_pieces_length[OF assms]
      by (simp add: fs_remove_def Let_def)
  qed
  moreover have "ec_remove i c = Inr (OK, c')"
    using c'(1) assms(2) by (simp add: ec_defs es_defs id_inum_small valid_id_def del: remove_file.simps)
  ultimately show thesis using that by blast
qed

end
