(* ===== verification/Node_Bytes.thy ===== *)
theory Node_Bytes imports Node_Removal begin

text \<open>Writing and resizing the bytes of a node, as \<open>fs_write\<close> and \<open>fs_resize\<close> say.\<close>

lemma new_inode_node:
  assumes "inode_at c j = new_inode t now" "inum_ok j"
  shows "t = 1 \<Longrightarrow> node_at c j (Directory [])" "ucast t = kind_type k \<Longrightarrow> node_at c j (Bytes k 0 [])"
proof -
  have "holds c j []" using assms(1) by (simp add: holds_def new_inode_def)
  then show "t = 1 \<Longrightarrow> node_at c j (Directory [])" "ucast t = kind_type k \<Longrightarrow> node_at c j (Bytes k 0 [])"
    using assms holds_ptrs by (auto simp: node_at_def new_inode_def)
qed

lemma length_chunks [simp]: "length (chunks w) = blocks_for w"
  by (simp add: chunks_def)

lemma content_chunks: "content (blocks_for w) (chunks w @ bs) = strip0 w"
proof -
  have "length w \<le> 512 * blocks_for w" using n_blocks_covers[of "int (length w)"] by (simp add: blocks_for_def)
  then have "concat (chunks w) = w @ replicate (512 * blocks_for w - length w) 0"
    using concat_nth_blocks[of w "blocks_for w"] unfolding chunks_def by simp
  then show ?thesis by (simp add: content_def)
qed

lemma same_inode_room: "\<forall>b. data_block b \<longrightarrow> in_use c' b = in_use c b \<Longrightarrow> free_blocks c' = free_blocks c"
  by (auto simp: vol.free_set_def)

text \<open>A new count of blocks.\<close>

lemma few_blocks: "sz \<le> 51200 \<Longrightarrow> n_blocks (int (unat sz)) \<le> 100" for sz :: u64
proof -
  assume "sz \<le> 51200"
  then have "unat sz \<le> 51200" by (simp add: word_le_nat_alt)
  then show ?thesis using n_blocks_gt[of "int (unat sz)"] by linarith
qed

lemma node_file:
  assumes "node_at c j n" "file_of n = Some (k, bs)"
  shows "itype (inode_at c j) = kind_type k" "bs = map (data c) (file_ptrs c j)" "length bs \<le> 100"
proof -
  show "itype (inode_at c j) = kind_type k" "bs = map (data c) (file_ptrs c j)"
    using assms by (cases rule: node_cases; simp)+
  moreover have "length (file_ptrs c j) \<le> 100" using node_holds[OF assms(1)] by (simp add: holds_def)
  ultimately show "length bs \<le> 100" by simp
qed

lemma rel_resized:
  assumes "rel U c A" "valid_id i" "nodes A i = Some n" "file_of n = Some (k, bs)" "sz \<le> 51200"
    and "resized c c' (ucast i) (blocks_of_size sz)"
  shows "rel U c' (A\<lparr>nodes := (nodes A)(i \<mapsto> Bytes k (n_blocks (int (unat sz))) bs)\<rparr>)"
proof -
  note A = relD[OF assms(1)]
  let ?i = "ucast i :: u32" and ?m = "n_blocks (int (unat sz))"
  have node: "node_at c ?i n" using A(4)[OF assms(2,3)] .
  note fl = node_file[OF node assms(4)]
  have m: "unat (blocks_of_size sz) = ?m" using assms(5) by (rule blocks_of_size_unat)
  have cap: "?m \<le> 100" using few_blocks[OF assms(5)] .
  obtain now where only: "ok c'" "inode_at c' ?i = (inode_at c ?i)\<lparr>isize := blocks_of_size sz, mtime := now\<rparr>"
    "\<forall>j. inum_ok j \<and> j \<noteq> ?i \<longrightarrow> inode_at c' j = inode_at c j"
    "\<forall>b. data_block b \<longrightarrow> in_use c' b = in_use c b \<and> data c' b = data c b" "data c' 0 = data c 0"
    using assms(6) by (auto simp: resized_def only_inode_def)
  have ptrs: "file_ptrs c' ?i = file_ptrs c ?i" using only(2) by (simp add: file_ptrs_def)
  have "isize (inode_at c' ?i) \<noteq> 101" using only(2) m cap by auto
  then have own: "own c' ?i \<subseteq> own c ?i" by (simp add: own_def ptrs)
  have "holds c' ?i (file_ptrs c ?i)" using only(2,4) node_ptrs[OF node] by (intro holds_frame[OF node_holds[OF node]]) simp_all
  moreover have "bs = map (data c') (file_ptrs c ?i)" using only(4) node_ptrs[OF node] fl(2) by (metis map_cong)
  ultimately have "node_at c' ?i (Bytes k ?m bs)"
    using node_at_inode(1)[OF node] fl(1) cap only(2) m unfolding node_at_def ptrs by simp
  moreover have "touches (owned c A i) c c' ?i"
    unfolding touches_def owned_def using own only(1,3-5) assms(3) by auto
  moreover have "free_blocks c' = free_blocks c" using only(4) by (intro same_inode_room) blast
  ultimately show ?thesis
    using A(3) by (intro rel_touch[OF assms(1,2), where n = "Some (Bytes k ?m bs)"]) simp_all
qed

lemma bytes_resized:
  assumes "ok c" "blank c" "node_at c j (Bytes k n bs)" "sz \<le> 51200"
  obtains "set_attr max_depth j sz c = Inr c" "n_blocks (int (unat sz)) = n"
    | c' where "set_attr max_depth j sz c = Inr c'" "resized c c' j (blocks_of_size sz)"
proof -
  note at = node_at_inode[OF assms(3), simplified]
  have size: "get_file_size max_depth j c = Inr (of_nat (size_of n bs))" "size_of n bs \<le> 512 * n"
    using node_size(1)[OF assms(1-3), of 1024] node_size(2)[OF assms(1-3)] by simp_all
  have n: "unat (isize (inode_at c j)) = n" "n \<le> 100" using assms(3) by (cases rule: node_cases; simp)+
  have su: "unat (ucast (of_nat (size_of n bs) :: u32) :: u64) = size_of n bs"
    using size(2) n(2) by (simp add: unat_of_nat take_bit_nat_eq_self)
  show thesis
  proof (cases "unat sz = size_of n bs")
    case True
    have "isize (inode_at c j) = of_nat n" using n(1) by (simp flip: n(1))
    moreover have "iblocks (inode_at c j) ! (n - 1) < 2097152" if "0 < n"
      using last_pointer[OF that n(2) at(6)[unfolded n(1)]] .
    ultimately have "unat (of_nat (size_of n bs) :: u32) \<le> 512 * n" "512 * n < unat (of_nat (size_of n bs) :: u32) + 512"
      using file_size_bounds[OF assms(1) at(1) _ _ _ size(1), of n] n(2) by simp_all
    then have b: "unat sz \<le> 512 * n" "512 * n < unat sz + 512"
      using size(2) n(2) unfolding True by (simp_all add: unat_of_nat take_bit_nat_eq_self)
    have "n_blocks (int (unat sz)) = n" using n_blocks_int[of "int (unat sz)"] b by linarith
    moreover have "sz = ucast (of_nat (size_of n bs) :: u32)" using True su by (simp only: word_unat_eq_iff)
    then have "set_attr max_depth j sz c = Inr c" using size(1) by (simp add: set_attr_def del: get_file_size.simps)
    ultimately show thesis using that(1) by blast
  next
    case False
    then consider "sz < ucast (of_nat (size_of n bs) :: u32)" | "ucast (of_nat (size_of n bs) :: u32) < sz"
      using su by (metis linorder_neqE word_less_nat_alt)
    then show thesis
    proof cases
      case 1
      then show thesis using shrink_resizes[OF assms(1) at(1,3,6) size(1)] that(2) by blast
    next
      case 2
      then show thesis using grow_resizes[OF assms(1) at(1,3,6) size(1) _ assms(4)] that(2) by blast
    qed
  qed
qed

text \<open>Shrinking a large file to its direct blocks: \<open>padding_file\<close> has nothing to add.\<close>

lemma large_resized:
  assumes "ok c" "blank c" "node_at c j (Large k bs ps)" "pieces_at c ps" "sz \<le> 51200"
  shows "\<exists>c'. set_attr max_depth j sz c = Inr c' \<and> resized c c' j (blocks_of_size sz)"
proof -
  note at = node_at_inode(1)[OF assms(3)]
  have size: "get_file_size max_depth j c = Inr (of_nat (51200 + pieces_size ps))"
    using large_size[OF assms(1-4), of 1023] by simp
  have n: "isize (inode_at c j) = 101" "0 < pieces_size ps" using assms(3) by (cases rule: node_cases; simp)+
  let ?s = "of_nat (51200 + pieces_size ps) :: u32"
  have "unat (of_nat l :: u64) = l" if "l < 2 ^ 32" for l using that by (simp add: unat_of_nat take_bit_nat_eq_self)
  then have "unat (ucast ?s :: u64) = 51200 + pieces_size ps"
    using pieces_size_le[OF assms(1-4)] ucast_of_small[of "51200 + pieces_size ps"] by (simp del: of_nat_add)
  then have less: "sz < ucast ?s" using assms(5) n(2) by (simp add: word_le_nat_alt word_less_nat_alt)
  have blocks: "unat (blocks_of_size sz) = n_blocks (int (unat sz))" using assms(5) by (rule blocks_of_size_unat)
  have le: "n_blocks (int (unat sz)) \<le> 100" using few_blocks[OF assms(5)] .
  have cap: "min (blocks_of_size sz) 101 = blocks_of_size sz" "\<not> 100 < blocks_of_size sz"
    using blocks le by (simp_all add: min_def word_le_nat_alt word_less_nat_alt)
  have "pad_direct [0..<min (unat (blocks_of_size sz)) 100] (inode_at c j) c = Inr (inode_at c j, c)"
    by (rule pad_direct_noop) (use blocks le n(1) in \<open>auto simp: word_less_nat_alt unat_of_nat\<close>)
  then have eq: "padding_file (Suc 1024) j sz c
      = put_inode j ((inode_at c j)\<lparr>isize := blocks_of_size sz, mtime := fst (time_now c)\<rparr>) (snd (time_now c))"
    unfolding padding_file.simps using assms(1) at cap by (simp add: get_inode_ok Let_def case_prod_beta)
  have "\<not> ucast ?s < sz" using less by (rule order_less_not_sym)
  then have "set_attr max_depth j sz c = padding_file (Suc 1024) j sz c"
    using size less by (simp add: set_attr_def del: get_file_size.simps padding_file.simps of_nat_add)
  then show ?thesis using eq put_resized[OF assms(1) at] by simp
qed

lemma rel_resize:
  assumes "rel U c A" "valid_id i" "nodes A i = Some n" "file_of n = Some (k, bs)" "pieces_at c (pieces n)" "unat sz \<le> 51200"
  obtains c' where "ec_set_attr i sz c = Inr (OK, c')"
    "rel U c' (A\<lparr>nodes := (nodes A)(i \<mapsto> Bytes k (n_blocks (int (unat sz))) bs)\<rparr>)"
proof -
  note A = relD[OF assms(1)]
  have node: "node_at c (ucast i) n" using A(4)[OF assms(2,3)] .
  have sz: "sz \<le> 51200" using assms(6) by (simp add: word_le_nat_alt)
  have ends: thesis if "set_attr max_depth (ucast i) sz c = Inr c'" "resized c c' (ucast i) (blocks_of_size sz)" for c'
    using that(1) rel_resized[OF assms(1-4) sz that(2)] by (intro \<open>\<And>c'. _ \<Longrightarrow> _ \<Longrightarrow> thesis\<close>) (simp_all add: ec_defs es_defs)
  show thesis
  proof (cases n)
    case (Bytes k' m bs')
    then have n: "n = Bytes k m bs" using assms(4) by simp
    from A(1,2) node[unfolded n] sz show thesis
    proof (rule bytes_resized)
      assume c: "set_attr max_depth (ucast i) sz c = Inr c" "n_blocks (int (unat sz)) = m"
      have "A\<lparr>nodes := (nodes A)(i \<mapsto> Bytes k m bs)\<rparr> = A" using assms(3) n by (simp add: fun_upd_idem)
      then show thesis using that[of c] assms(1) c by (simp add: ec_defs es_defs)
    qed (rule ends)
  next
    case (Large k' bs' ps)
    then have n: "n = Large k bs ps" using assms(4) by simp
    then show thesis using large_resized[OF A(1,2) node[unfolded n] _ sz] assms(5) ends by auto
  qed (use assms(4) in simp)
qed

text \<open>New blocks for all of the content, of at most 51200 bytes.\<close>

lemma rel_put_small:
  assumes "rel U c A" "valid_id i" "nodes A i = Some n" "file_of n = Some (k, bs)" "pieces n = []"
    and "w = take (nat sz) buf" "0 \<le> sz" "sz \<le> 51200" "nat sz \<le> length buf" "blocks_for w \<le> room A"
  obtains c' where "write_file (ucast i) buf sz c = Inr c'"
    "rel U c' (A\<lparr>nodes := (nodes A)(i \<mapsto> Bytes k (blocks_for w) (chunks w @ drop (blocks_for w) bs)), room := room A - blocks_for w\<rparr>)"
proof -
  note A = relD[OF assms(1)]
  let ?i = "ucast i :: u32" and ?m = "blocks_for w" and ?ps = "file_ptrs c (ucast i)"
  have node: "node_at c ?i n" using A(4)[OF assms(2,3)] .
  note at = node_at_inode(1,7)[OF node] and h = node_holds[OF node, unfolded holds_def] and fl = node_file[OF node assms(4)]
  have blocks: "n_blocks sz = ?m" using assms(6,7,9) by (simp add: blocks_for_def)
  obtain c' where wr: "write_file ?i buf sz c = Inr c'" and card: "card (free_blocks c') + ?m = card (free_blocks c)"
    using write_small_returns[OF A(1) at(1) assms(7-9)] assms(10) A(3) unfolding blocks by auto
  obtain ns now where ns: "length ns = ?m" "distinct ns" "vol.ext {?i} c c'"
    "inode_at c' ?i = (inode_at c ?i)\<lparr>iblocks := ns @ drop ?m (iblocks (inode_at c ?i)), isize := of_nat ?m, mtime := now\<rparr>"
    "\<forall>l < ?m. data_block (ns ! l) \<and> \<not> in_use c (ns ! l) \<and> in_use c' (ns ! l) \<and> data c' (ns ! l) = nth_block w l"
    "\<forall>j. inum_ok j \<and> j \<noteq> ?i \<longrightarrow> inode_at c' j = inode_at c j"
    by (rule write_small_layout[OF wr A(1) at(1) assms(7-9), folded assms(6), unfolded blocks]) (rule that)
  have m: "?m \<le> 100" using n_blocks_gt[OF assms(7)] assms(8) unfolding blocks by linarith
  let ?qs = "ns @ drop ?m ?ps"
  have new: "data_block b \<and> \<not> in_use c b \<and> in_use c' b" if "b \<in> set ns" for b
    using that ns(1,5) by (metis in_set_conv_nth)
  have old: "data_block b \<and> in_use c b \<and> in_use c' b \<and> data c' b = data c b" if "b \<in> set ?ps" for b
    using node_ptrs[OF node that] vol.ext_block[OF ns(3)] by blast
  have len: "length ?qs \<le> 100" using ns(1) m h[THEN conjunct1] by auto
  have "take 100 (iblocks (inode_at c' ?i)) = ns @ drop ?m (take 100 (iblocks (inode_at c ?i)))"
    unfolding ns(4) using ns(1) m by (simp add: drop_take)
  also have "drop ?m (take 100 (iblocks (inode_at c ?i))) = drop ?m ?ps @ replicate (100 - length ?ps - (?m - length ?ps)) 0"
    using h by simp
  also have "100 - length ?ps - (?m - length ?ps) = 100 - length ?qs" using ns(1) m h by simp
  finally have "take 100 (iblocks (inode_at c' ?i)) = ?qs @ replicate (100 - length ?qs) 0" by simp
  moreover have "distinct ?qs" using ns(2) at(2) new old by (auto dest: in_set_dropD)
  ultimately have h': "holds c' ?i ?qs" unfolding holds_def using len new old by (auto dest: in_set_dropD)
  have "map (data c') ns = chunks w"
    unfolding chunks_def using ns(1,5) by (intro nth_equalityI) simp_all
  moreover have "map (data c') (drop ?m ?ps) = drop ?m bs"
    unfolding fl(2) drop_map using old by (auto dest: in_set_dropD)
  ultimately have node': "node_at c' ?i (Bytes k ?m (chunks w @ drop ?m bs))"
    using at(1) fl(1) h' ns(4) m unfolding node_at_def holds_ptrs[OF h'] by (simp add: unat_of_nat take_bit_nat_eq_self)
  have "own c ?i = set ?ps" "own c' ?i = set ?qs"
    using node_at_inode(8)[OF node assms(5)] node_at_inode(8)[OF node'] holds_ptrs[OF h'] by simp_all
  then have "touches (owned c A i) c c' ?i"
    unfolding touches_def owned_def
    using ns(6) vol.ext_ok[OF ns(3)] vol.ext_boot[OF ns(3)] vol.ext_block[OF ns(3)] assms(3) new by (auto dest: in_set_dropD)
  then have "rel U c' (A\<lparr>nodes := (nodes A)(i \<mapsto> Bytes k ?m (chunks w @ drop ?m bs)), room := room A - ?m\<rparr>)"
    using node' A(3) card by (intro rel_touch[OF assms(1,2), where n = "Some (Bytes k ?m (chunks w @ drop ?m bs))"]) simp_all
  then show thesis using that wr by blast
qed

end
