(* ===== verification/Node_Large.thy ===== *)
theory Node_Large imports Node_Bytes begin

text \<open>
  Writing more than 51200 bytes: the first 100 blocks and one for the table are taken, then each piece its
  inode and blocks, and then the table and the inode of the file are stored.
\<close>

subsection \<open>The pieces\<close>

lemma add_pieces_blocks: "add_pieces bss A = Some (ps, B) \<Longrightarrow> map snd ps = bss"
  by (induction bss arbitrary: A ps) (auto simp: Option.bind_eq_Some_conv)

lemma fresh_cong: "nodes A = nodes B \<Longrightarrow> fresh A = fresh B"
  by (simp add: fresh_def)

lemma add_pieces_room:
  "add_pieces bss A = Some (ps, B) \<Longrightarrow> add_pieces bss (A\<lparr>room := room A - d\<rparr>) = Some (ps, B\<lparr>room := room B - d\<rparr>)"
proof (induction bss arbitrary: A ps)
  case (Cons b bss)
  obtain i qs where i: "fresh A = Some i" "ps = (i, b) # qs"
    "add_pieces bss (A\<lparr>nodes := (nodes A)(i \<mapsto> Bytes Regular (length b) b), room := room A - length b, hidden := insert i (hidden A)\<rparr>) = Some (qs, B)"
    using Cons.prems by (auto simp: Option.bind_eq_Some_conv)
  have "fresh (A\<lparr>room := room A - d\<rparr>) = Some i" using i(1) fresh_cong[of "A\<lparr>room := room A - d\<rparr>" A] by simp
  let ?C = "A\<lparr>nodes := (nodes A)(i \<mapsto> Bytes Regular (length b) b), room := room A - length b, hidden := insert i (hidden A)\<rparr>"
  let ?D = "A\<lparr>room := room A - d, nodes := (nodes A)(i \<mapsto> Bytes Regular (length b) b), room := room A - d - length b, hidden := insert i (hidden A)\<rparr>"
  have eq: "?D = ?C\<lparr>room := room ?C - d\<rparr>" by (cases A) (simp add: add.commute)
  have "add_pieces bss ?D = Some (qs, B\<lparr>room := room B - d\<rparr>)" unfolding eq by (rule Cons.IH[OF i(3)])
  then show ?case using i(2) \<open>fresh (A\<lparr>room := room A - d\<rparr>) = Some i\<close> by simp
qed simp

lemma rel_pieces:
  assumes "rel U c A" "add_pieces (map (\<lambda>l. chunks (chunk w l)) [i..<n]) A = Some (ps, B)"
    and "w = take (nat sz) buf" "nat sz \<le> length buf" "51200 < sz" "n = (nat sz - 1) div 51200" "i \<le> n" "n \<le> 126"
    and "sum_list (map (\<lambda>l. blocks_for (chunk w l)) [i..<n]) \<le> room A" "length js = 128"
  shows "\<exists>c'. write_subs i buf sz js c = Inr (n, take i js @ map (\<lambda>(k, b). ucast k) ps @ drop n js, c') \<and> rel U c' B"
proof -
  have "51200 * n \<le> nat sz - 1" "nat sz - 1 < 51200 + 51200 * n"
    unfolding assms(6) by (rule times_div_less_eq_dividend) (rule dividend_less_times_div, simp)
  then have n: "51200 * int n < sz" "nat sz \<le> 51200 * (n + 1)" using assms(5) by (linarith, simp)
  have "int (nat sz) \<le> int (51200 * (n + 1))" using n(2) by (simp only: of_nat_le_iff)
  then have n: "51200 * int n < sz" "sz \<le> 51200 * (int n + 1)" using n(1) assms(5) by simp_all
  show ?thesis
  using assms(1,2,7,9,10)
proof (induction "n - i" arbitrary: i c A ps js)
  case 0
  then have "i = n" by simp
  moreover from this have "\<not> 51200 * (int i + 1) < sz" using n by simp
  ultimately show ?case using 0 by (simp add: write_subs.simps[of n])
next
  case (Suc d)
  then have i: "i < n" "[i..<n] = i # [Suc i..<n]" by (simp_all add: upt_conv_Cons)
  let ?b = "chunks (chunk w i)" and ?m = "blocks_for (chunk w i)"
  let ?C = "\<lambda>k. A\<lparr>nodes := (nodes A)(k \<mapsto> Bytes Regular (length ?b) ?b), room := room A - length ?b, hidden := insert k (hidden A)\<rparr>"
  obtain k qs where k: "fresh A = Some k" "ps = (k, ?b) # qs"
    "add_pieces (map (\<lambda>l. chunks (chunk w l)) [Suc i..<n]) (?C k) = Some (qs, B)"
    using Suc.prems(2) unfolding i(2) by (auto simp: Option.bind_eq_Some_conv)
  have v: "valid_id k" using fresh_Some[OF k(1)] by (simp add: valid_id_def)
  obtain c1 where c1: "alloc_inode 2 c = Inr (ucast k, c1)" "rel U c1 (A\<lparr>nodes := (nodes A)(k \<mapsto> Bytes Regular 0 [])\<rparr>)"
    using Suc.prems(1) k(1)
    by (rule rel_new_inode[of U c A k 2 "Bytes Regular 0 []"]) (simp_all add: new_inode_node(2))
  let ?sz = "min (sz - 51200 * (int i + 1)) 51200" and ?buf = "drop (51200 * (i + 1)) buf"
  have "int i + 1 \<le> int n" using i(1) by simp
  then have more: "51200 * (int i + 1) < sz" using n by simp
  then have len: "nat ?sz = min 51200 (nat sz - 51200 * (i + 1))" by (simp add: min_def) linarith
  then have w: "chunk w i = take (nat ?sz) ?buf" unfolding assms(3) by (simp add: chunk_def drop_take)
  have bounds: "0 \<le> ?sz" "?sz \<le> 51200" "nat ?sz \<le> length ?buf" using more assms(4) unfolding len by (auto simp: min_def)
  let ?A = "A\<lparr>nodes := (nodes A)(k \<mapsto> Bytes Regular 0 [])\<rparr>"
  have new: "nodes ?A k = Some (Bytes Regular 0 [])" "file_of (Bytes Regular 0 []) = Some (Regular, [])" "pieces (Bytes Regular 0 []) = []"
    and space: "?m \<le> room ?A" using Suc.prems(4) unfolding i(2) by simp_all
  obtain c2 where c2: "write_file (ucast k) ?buf ?sz c1 = Inr c2"
    "rel U c2 (?A\<lparr>nodes := (nodes ?A)(k \<mapsto> Bytes Regular ?m (?b @ drop ?m [])), room := room ?A - ?m\<rparr>)"
    by (rule rel_put_small[OF c1(2) v new w bounds space]) (rule that)
  have r2: "rel U c2 (?C k)" using c2(2) by (rule rel_same) simp_all
  have "\<exists>c'. write_subs (Suc i) buf sz (js[i := ucast k]) c2
      = Inr (n, take (Suc i) (js[i := ucast k]) @ map (\<lambda>(k, b). ucast k) qs @ drop n (js[i := ucast k]), c') \<and> rel U c' B"
    by (rule Suc.hyps(1)[OF _ r2 k(3)]) (use Suc.hyps(2) Suc.prems(4,5) i in simp_all)
  moreover have "write_subs i buf sz js c = write_subs (Suc i) buf sz (js[i := ucast k]) c2"
    using more i(1) assms(8) c1(1) c2(1) by (subst write_subs.simps) simp
  moreover have "take (Suc i) (js[i := ucast k]) = take i js @ [ucast k]" "drop n (js[i := ucast k]) = drop n js"
    using i(1) assms(8) Suc.prems(5) by (simp_all add: take_Suc_conv_app_nth)
  ultimately show ?case unfolding k(2) by simp
qed
qed

subsection \<open>The file around them\<close>

lemma large_head:
  assumes "ok m" "nat sz \<le> length buf" "51200 < sz" "101 \<le> card (free_blocks m)"
  obtains bs b m1 m2 where
    "write_direct 100 0 buf sz (inode_at m i) m = Inr ((inode_at m i)\<lparr>iblocks := bs @ drop 100 (iblocks (inode_at m i))\<rparr>, m1)"
    "bm_alloc m1 = Inr (b, m2)" "b \<noteq> 0" "length bs = 100" "distinct (bs @ [b])" "vol.ext {} m m2"
    "\<forall>j. inum_ok j \<longrightarrow> inode_at m2 j = inode_at m j"
    "\<forall>x \<in> set (bs @ [b]). data_block x \<and> \<not> in_use m x \<and> in_use m2 x"
    "\<forall>k < 100. data m2 (bs ! k) = nth_block (take (nat sz) buf) k" "card (free_blocks m2) + 101 = card (free_blocks m)"
proof -
  have tight: "0 < (100 :: nat) \<Longrightarrow> 512 * (int (0 + 100) - 1) < sz" using assms(3) by simp
  obtain ino1 m1 where wd: "write_direct 100 0 buf sz (inode_at m i) m = Inr (ino1, m1)"
    "card (free_blocks m1) + 100 = card (free_blocks m)"
    using write_direct_returns[OF assms(1) tight assms(2), of "inode_at m i"] assms(4) by auto
  obtain bs where bs: "length bs = 100" "ino1 = (inode_at m i)\<lparr>iblocks := bs @ drop 100 (iblocks (inode_at m i))\<rparr>" "distinct bs"
    "\<forall>k < 100. data_block (bs ! k) \<and> \<not> in_use m (bs ! k) \<and> in_use m1 (bs ! k) \<and> data m1 (bs ! k) = nth_block (take (nat sz) buf) k"
    and ext: "vol.ext {} m m1" and same: "\<forall>j. inum_ok j \<longrightarrow> inode_at m1 j = inode_at m j"
    using write_direct_does[OF wd(1) assms(1) _ _ tight] by auto
  have ok1: "ok m1" using ext by (rule vol.ext_ok)
  have "free_blocks m1 \<noteq> {}" using wd(2) assms(4) by auto
  then obtain b m2 where al: "bm_alloc m1 = Inr (b, m2)" "b \<noteq> 0" using vol.alloc_succeeds[OF ok1] by blast
  have b: "data_block b" "\<not> in_use m1 b" "\<forall>c. in_use m2 c \<longleftrightarrow> c = b \<or> in_use m1 c" "\<forall>c. data_block c \<longrightarrow> data m2 c = data m1 c"
    using vol.alloc_got[OF ok1 al] by blast+
  have each: "data_block x \<and> \<not> in_use m x \<and> in_use m1 x" if "x \<in> set bs" for x
    using that bs(1,4) by (metis in_set_conv_nth)
  show thesis
  proof (rule that[OF wd(1)[unfolded bs(2)] al bs(1)])
    show "distinct (bs @ [b])" using bs(3) each b(2) by auto
    show "vol.ext {} m m2" using ext vol.ext_alloc[OF ok1 al(1)] by (rule vol.ext_trans)
    show "\<forall>j. inum_ok j \<longrightarrow> inode_at m2 j = inode_at m j" using vol.alloc_frame[OF ok1 al(1)] same by simp
    show "\<forall>x \<in> set (bs @ [b]). data_block x \<and> \<not> in_use m x \<and> in_use m2 x"
      using each b(1,3) unused_before[OF ext b(1,2)] by auto
    show "\<forall>k < 100. data m2 (bs ! k) = nth_block (take (nat sz) buf) k" using bs(4) b(4) by simp
    show "card (free_blocks m2) + 101 = card (free_blocks m)" using vol.card_alloc[OF ok1 al] wd(2) by simp
  qed
qed

lemma large_tail:
  assumes "ok m" "data_block b" "length ns = 128" "inum_ok i" "length (iblocks x) = 101"
  obtains m1 m' now where "bm_write b (block_of_u32s ns) m = Inr m1"
    "put_inode i (x\<lparr>isize := 101, mtime := fst (time_now m1)\<rparr>) (snd (time_now m1)) = Inr m'"
    "ok m'" "data m' 0 = data m 0" "inode_at m' i = x\<lparr>isize := 101, mtime := now\<rparr>"
    "\<forall>j. inum_ok j \<and> j \<noteq> i \<longrightarrow> inode_at m' j = inode_at m j"
    "\<forall>c. data_block c \<longrightarrow> in_use m' c = in_use m c \<and> data m' c = (if c = b then block_of_u32s ns else data m c)"
proof -
  obtain m1 where m1: "bm_write b (block_of_u32s ns) m = Inr m1"
    using vol.put_returns[OF assms(1,2), of "block_of_u32s ns"] assms(3) by auto
  note wr = vol.put_does[OF assms(1,2) m1] vol.put_frame[OF assms(1,2) m1]
  let ?x = "x\<lparr>isize := 101, mtime := fst (time_now m1)\<rparr>"
  have ok: "ok (snd (time_now m1))" "length (iblocks ?x) = 101" using wr assms(5) by simp_all
  obtain m' where m': "put_inode i ?x (snd (time_now m1)) = Inr m'" using vol.save_returns[OF ok(1) assms(4) ok(2)] ..
  note sv = vol.save_does[OF ok(1) assms(4) ok(2) m']
  show thesis
    by (rule that[OF m1 m', of "fst (time_now m1)"]) (use sv wr assms(3,4) in auto)
qed

lemma write_large_runs:
  assumes "ok m" "inum_ok i" "51200 < sz" "n < 127"
    and "write_direct 100 0 buf sz (inode_at m i) m = Inr (ino1, m1)" "bm_alloc m1 = Inr (b, m2)" "b \<noteq> 0"
    and "write_subs 0 buf sz (replicate 128 0) m2 = Inr (n, ns, m3)" "bm_write b (block_of_u32s ns) m3 = Inr m4"
    and "put_inode i (ino1\<lparr>iblocks := (iblocks ino1)[100 := b]\<rparr>\<lparr>isize := 101, mtime := fst (time_now m4)\<rparr>) (snd (time_now m4)) = Inr m'"
  shows "write_file i buf sz m = Inr m'"
proof -
  have n: "100 < n_blocks sz" "0 \<le> sz" using n_blocks_gt[of sz] assms(3) by auto
  then have mins: "min (n_blocks sz) 100 = 100" "min (n_blocks sz) 101 = 101" by auto
  show ?thesis
    using assms n unfolding write_file.simps[of i] by (simp add: get_inode_ok mins case_prod_beta Let_def)
qed

lemma tail_blocks:
  assumes "length w \<le> 51200 * (n + 1)" "i \<le> n"
  shows "sum_list (map (\<lambda>l. blocks_for (chunk w l)) [i..<n]) = n_blocks (max 0 (int (length w) - 51200 * (int i + 1)))"
  using assms(2)
proof (induction "n - i" arbitrary: i)
  case 0
  then have "i = n" by simp
  moreover have "int (length w) \<le> int (51200 * (n + 1))" using assms(1) by (simp only: of_nat_le_iff)
  ultimately show ?case by (simp add: max_def n_blocks_def)
next
  case (Suc d)
  let ?r = "max 0 (int (length w) - 51200 * (int i + 1))"
  have i: "[i..<n] = i # [Suc i..<n]" using Suc.hyps(2) by (simp add: upt_conv_Cons)
  have "int (length (chunk w i)) = min ?r 51200" by (simp add: chunk_def)
  moreover have "max 0 (?r - 51200) = max 0 (int (length w) - 51200 * (int (Suc i) + 1))" by simp
  moreover have "d = n - Suc i" "Suc i \<le> n" using Suc.hyps(2) by simp_all
  note Suc.hyps(1)[OF this]
  ultimately show ?case using n_blocks_split[of ?r] unfolding i by (simp add: blocks_for_def)
qed

lemma add_pieces_nodes: "add_pieces bss A = Some (ps, B) \<Longrightarrow> nodes A j = Some n \<Longrightarrow> nodes B j = Some n"
proof (induction bss arbitrary: A ps)
  case (Cons b bss)
  obtain i qs where i: "fresh A = Some i"
    "add_pieces bss (A\<lparr>nodes := (nodes A)(i \<mapsto> Bytes Regular (length b) b), room := room A - length b, hidden := insert i (hidden A)\<rparr>) = Some (qs, B)"
    using Cons.prems(1) by (auto simp: Option.bind_eq_Some_conv)
  have "j \<noteq> i" using fresh_Some(1)[OF i(1)] Cons.prems(2) by auto
  then show ?case using Cons.IH[OF i(2)] Cons.prems(2) by simp
qed simp

lemma add_pieces_ids: "add_pieces bss A = Some (ps, B) \<Longrightarrow> (j, b) \<in> set ps \<Longrightarrow> valid_id j"
  using fresh_Some by (induction bss arbitrary: A ps) (auto simp: Option.bind_eq_Some_conv valid_id_def)

text \<open>The inode of a large file, once the table is stored.\<close>

lemma large_node:
  assumes "inum_ok j" "inode_at c j = x\<lparr>iblocks := ns @ [b], isize := 101, mtime := now\<rparr>" "itype x = kind_type k"
    and "length ns = 100" "distinct (ns @ [b])" "\<forall>y \<in> set (ns @ [b]). data_block y \<and> in_use c y"
    and "\<forall>l < 100. data c (ns ! l) = nth_block w l" "100 \<le> blocks_for w"
    and "data c b = block_of_u32s (map (\<lambda>(i, b). ucast i) ps @ replicate r 0)" "length ps + r = 128"
    and "\<forall>(i, b) \<in> set ps. (ucast i :: u32) \<noteq> 0" "0 < pieces_size ps"
  shows "node_at c j (Large k (take 100 (chunks w)) ps)" "own c j = set (ns @ [b])"
proof -
  have h: "holds c j ns" using assms(2,4-6) by (simp add: holds_def)
  note ptrs = holds_ptrs[OF h]
  have "take 100 (chunks w) = map (nth_block w) [0..<100]" using assms(8) by (simp add: chunks_def take_map take_upt)
  then have bs: "take 100 (chunks w) = map (data c) ns" using assms(4,7) by (intro nth_equalityI) simp_all
  have tb: "table_block c j = b" using assms(2,4) by (simp add: nth_append)
  have "u32s_of_block (data c b) = map (\<lambda>(i, b). ucast i) ps @ replicate r 0" unfolding assms(9) using assms(10) by simp
  moreover have "takeWhile (\<lambda>x. x \<noteq> 0) (map (\<lambda>(i, b). ucast i) ps @ replicate r 0) = (map (\<lambda>(i, b). ucast i) ps :: u32 list)"
    using assms(11) by (intro takeWhile_zeros) auto
  ultimately show "node_at c j (Large k (take 100 (chunks w)) ps)"
    using assms(1-6,12) h unfolding node_at_def ptrs tb bs by auto
  show "own c j = set (ns @ [b])" using assms(2) unfolding own_def ptrs tb by simp
qed

text \<open>At least one piece is not empty.\<close>

lemma tail_size:
  assumes "map snd ps = tail_chunks w" "51200 < length w"
  shows "0 < pieces_size ps"
proof -
  have "1 \<le> (length w - 1) div 51200" using assms(2) by simp
  then have "chunks (chunk w 0) \<in> set (tail_chunks w)" unfolding tail_chunks_def by force
  then obtain j where j: "(j, chunks (chunk w 0)) \<in> set ps" unfolding assms(1)[symmetric] by force
  have "0 < int (length (chunk w 0))" using assms(2) by (simp add: chunk_def)
  then have "0 < blocks_for (chunk w 0)" using n_blocks_covers[of "int (length (chunk w 0))"] by (cases "blocks_for (chunk w 0)") (simp_all add: blocks_for_def)
  then have "0 < size_of (length (chunks (chunk w 0))) (chunks (chunk w 0))" by (simp add: size_of_def less_max_iff_disj)
  moreover have "size_of (length (chunks (chunk w 0))) (chunks (chunk w 0)) \<in> set (map (\<lambda>(i, b). size_of (length b) b) ps)"
    using j by force
  then have "size_of (length (chunks (chunk w 0))) (chunks (chunk w 0)) \<le> pieces_size ps"
    unfolding pieces_size_def by (rule member_le_sum_list) simp
  ultimately show ?thesis by linarith
qed

lemma rel_put_large:
  assumes "rel U c A" "valid_id i" "nodes A i = Some n" "file_of n = Some (k, bs)"
    and "51200 < length w" "length w \<le> 6502400" "blocks_for w < room A" "add_pieces (tail_chunks w) A = Some (ps, B)"
  obtains c' where "write_file (ucast i) (w @ [0]) (int (length w)) c = Inr c'"
    "rel U c' (B\<lparr>nodes := (nodes B)(i \<mapsto> Large k (take 100 (chunks w)) ps), room := room B - 101\<rparr>)"
proof -
  note A = relD[OF assms(1)]
  let ?i = "ucast i :: u32" and ?sz = "int (length w)" and ?buf = "w @ [0]" and ?n = "(length w - 1) div 51200"
  have node: "node_at c ?i n" using A(4)[OF assms(2,3)] .
  note at = node_at_inode(1,2)[OF node]
  have sz: "nat ?sz \<le> length ?buf" "51200 < ?sz" "take (nat ?sz) ?buf = w" using assms(5) by simp_all
  have many: "100 \<le> blocks_for w" using n_blocks_gt[of ?sz] assms(5) by (simp add: blocks_for_def)
  then have space: "101 \<le> card (free_blocks c)" using assms(7) A(3) by simp
  obtain ns b m1 m2 where hd: "write_direct 100 0 ?buf ?sz (inode_at c ?i) c = Inr ((inode_at c ?i)\<lparr>iblocks := ns @ drop 100 (iblocks (inode_at c ?i))\<rparr>, m1)"
    "bm_alloc m1 = Inr (b, m2)" "b \<noteq> 0" "length ns = 100" "distinct (ns @ [b])" "vol.ext {} c m2"
    "\<forall>j. inum_ok j \<longrightarrow> inode_at m2 j = inode_at c j"
    "\<forall>x \<in> set (ns @ [b]). data_block x \<and> \<not> in_use c x \<and> in_use m2 x"
    "\<forall>l < 100. data m2 (ns ! l) = nth_block w l" "card (free_blocks m2) + 101 = card (free_blocks c)"
    by (rule large_head[OF A(1) sz(1,2) space, unfolded sz(3)]) (rule that)
  let ?W = "set (ns @ [b])" and ?A = "A\<lparr>room := room A - 101\<rparr>" and ?B = "B\<lparr>room := room B - 101\<rparr>"
  have r2: "rel (U \<union> ?W) m2 ?A"
    by (rule rel_reserve[OF assms(1) hd(6)]) (use hd(7) in blast, use hd(8) in blast, use hd(10) A(3) in simp_all)
  have n: "?n \<le> 126" "length w \<le> 51200 * (?n + 1)" using assms(5,6) by simp_all
  have "blocks_for w = 100 + sum_list (map (\<lambda>l. blocks_for (chunk w l)) [0..<?n])"
    using tail_blocks[OF n(2), of 0] n_blocks_split[of ?sz] assms(5) by (simp add: blocks_for_def n_blocks_def[of 51200])
  then have fit: "sum_list (map (\<lambda>l. blocks_for (chunk w l)) [0..<?n]) \<le> room ?A" using assms(7) by simp
  have add: "add_pieces (map (\<lambda>l. chunks (chunk w l)) [0..<?n]) ?A = Some (ps, ?B)"
    using add_pieces_room[OF assms(8)] by (simp add: tail_chunks_def)
  have blocks: "map snd ps = tail_chunks w" using add_pieces_blocks[OF assms(8)] .
  then have len: "length ps = ?n" by (metis length_map length_upt minus_nat.diff_0 tail_chunks_def)
  let ?js = "map (\<lambda>(k, b). ucast k) ps @ replicate (128 - ?n) 0 :: u32 list"
  obtain m3 where m3: "write_subs 0 ?buf ?sz (replicate 128 0) m2 = Inr (?n, ?js, m3)" "rel (U \<union> ?W) m3 ?B"
    using rel_pieces[OF r2 add _ sz(1,2) _ _ n(1) fit, of "replicate 128 0"] sz(3) by auto
  have ext: "vol.ext {} m2 m3" using write_subs_does[OF m3(1) relD(1)[OF r2] _ _ sz(1)] by simp
  note R = relD[OF m3(2)]
  have inode: "inode_at m3 ?i = inode_at c ?i" using vol.ext_inode[OF ext at(1)] hd(7) at by simp
  have b: "data_block b" "length ?js = 128" using hd(8) len n(1) by auto
  let ?x = "(inode_at c ?i)\<lparr>iblocks := (ns @ drop 100 (iblocks (inode_at c ?i)))[100 := b]\<rparr>"
  have x: "iblocks ?x = ns @ [b]" using hd(4) by (simp add: list_update_append update_last_pointer)
  then have "length (iblocks ?x) = 101" using hd(4) by simp
  with R(1) b at(1) obtain m4 c' now where tl: "bm_write b (block_of_u32s ?js) m3 = Inr m4"
    "put_inode ?i (?x\<lparr>isize := 101, mtime := fst (time_now m4)\<rparr>) (snd (time_now m4)) = Inr c'"
    "ok c'" "data c' 0 = data m3 0" "inode_at c' ?i = ?x\<lparr>isize := 101, mtime := now\<rparr>"
    "\<forall>j. inum_ok j \<and> j \<noteq> ?i \<longrightarrow> inode_at c' j = inode_at m3 j"
    "\<forall>y. data_block y \<longrightarrow> in_use c' y = in_use m3 y \<and> data c' y = (if y = b then block_of_u32s ?js else data m3 y)"
    by (rule large_tail)
  have "write_file ?i ?buf ?sz c = Inr c'"
    by (rule write_large_runs[OF A(1) at(1) sz(2) _ hd(1-3) m3(1) tl(1)]) (use n(1) tl(2) in simp_all)
  have kept: "in_use m3 y \<and> data m3 y = data m2 y" if "y \<in> ?W" for y
    using hd(8) vol.ext_block[OF ext] that by blast
  have "node_at c' ?i (Large k (take 100 (chunks w)) ps)" "own c' ?i = ?W"
  proof -
    have "inode_at c' ?i = (inode_at c ?i)\<lparr>iblocks := ns @ [b], isize := 101, mtime := now\<rparr>" using tl(5) x by simp
    moreover have "\<forall>y \<in> ?W. data_block y \<and> in_use c' y" using hd(8) tl(7) kept by simp
    moreover have "\<forall>l < 100. data c' (ns ! l) = nth_block w l"
    proof (intro allI impI)
      fix l :: nat assume "l < 100"
      then have l: "ns ! l \<in> set ns" using hd(4) by simp
      then have "data_block (ns ! l)" "ns ! l \<noteq> b" "ns ! l \<in> ?W" using hd(5,8) by auto
      then show "data c' (ns ! l) = nth_block w l" using tl(7) kept hd(9) \<open>l < 100\<close> by simp
    qed
    moreover have "data c' b = block_of_u32s ?js" using tl(7) b(1) by simp
    moreover have "\<forall>(j, b) \<in> set ps. (ucast j :: u32) \<noteq> 0"
      using add_pieces_ids[OF assms(8)] inum_nonzero[OF valid_inum] by blast
    moreover have "length ps + (128 - ?n) = 128" using len n(1) by simp
    ultimately show "node_at c' ?i (Large k (take 100 (chunks w)) ps)" "own c' ?i = ?W"
      using large_node[OF at(1) _ node_file(1)[OF node assms(4)] hd(4,5) _ _ many _ _ _ tail_size[OF blocks assms(5)]] by blast+
  qed
  moreover from this(2) have "touches (owned m3 ?B i \<union> ?W) m3 c' ?i"
    unfolding touches_def using tl(3,4,6,7) by auto
  moreover have "free_blocks c' = free_blocks m3" using tl(7) by (intro same_inode_room) blast
  ultimately have "rel (U \<union> ?W - ?W) c' (B\<lparr>nodes := (nodes B)(i \<mapsto> Large k (take 100 (chunks w)) ps), room := room B - 101\<rparr>)"
    using R(3) by (intro rel_touch_spare[OF m3(2) assms(2), where n = "Some (Large k (take 100 (chunks w)) ps)"]) (simp_all, blast)
  moreover have "U \<union> ?W - ?W = U" using A(7) hd(8) by blast
  ultimately show thesis using that \<open>write_file ?i ?buf ?sz c = Inr c'\<close> by simp
qed

subsection \<open>The write of the client\<close>

lemma add_pieces_over:
  "add_pieces bss A = Some (ps, B) \<Longrightarrow> nodes A i = Some n \<Longrightarrow>
   add_pieces bss (A\<lparr>nodes := (nodes A)(i \<mapsto> x)\<rparr>) = Some (ps, B\<lparr>nodes := (nodes B)(i \<mapsto> x)\<rparr>)"
proof (induction bss arbitrary: A ps)
  case (Cons b bss)
  let ?C = "\<lambda>j. A\<lparr>nodes := (nodes A)(j \<mapsto> Bytes Regular (length b) b), room := room A - length b, hidden := insert j (hidden A)\<rparr>"
  obtain j qs where j: "fresh A = Some j" "ps = (j, b) # qs" "add_pieces bss (?C j) = Some (qs, B)"
    using Cons.prems(1) by (auto simp: Option.bind_eq_Some_conv)
  have ne: "j \<noteq> i" using fresh_Some(1)[OF j(1)] Cons.prems(2) by auto
  have f: "fresh (A\<lparr>nodes := (nodes A)(i \<mapsto> x)\<rparr>) = Some j"
    unfolding j(1)[symmetric] fresh_def using Cons.prems(2) by (intro arg_cong[of _ _ "\<lambda>f. find f _"]) auto
  have n: "nodes (?C j) i = Some n" using ne Cons.prems(2) by simp
  let ?D = "A\<lparr>nodes := (nodes A)(i \<mapsto> x), nodes := (nodes A)(i \<mapsto> x, j \<mapsto> Bytes Regular (length b) b), room := room A - length b, hidden := insert j (hidden A)\<rparr>"
  have eq: "?D = (?C j)\<lparr>nodes := (nodes (?C j))(i \<mapsto> x)\<rparr>" using ne by (cases A) (simp add: fun_upd_twist)
  have "add_pieces bss ?D = Some (qs, B\<lparr>nodes := (nodes B)(i \<mapsto> x)\<rparr>)" unfolding eq by (rule Cons.IH[OF j(3) n])
  then show ?case unfolding add_pieces.simps(2) f j(2) by (simp add: fun_upd_def)
qed simp

lemma fs_put_over:
  assumes "fs_put i k bs w A = Some B" "nodes A i = Some n"
  shows "fs_put i k bs w (A\<lparr>nodes := (nodes A)(i \<mapsto> x)\<rparr>) = Some B"
proof (cases "length w \<le> 51200")
  case True
  then show ?thesis using assms(1) by (simp add: fs_put_def split: if_splits)
next
  case False
  then obtain ps C where C: "add_pieces (tail_chunks w) A = Some (ps, C)"
    "B = C\<lparr>nodes := (nodes C)(i \<mapsto> Large k (take 100 (chunks w)) ps), room := room C - 101\<rparr>"
    using assms(1) by (auto simp: fs_put_def split: if_splits)
  then show ?thesis using False assms(1) add_pieces_over[OF C(1) assms(2), of x] by (simp add: fs_put_def split: if_splits)
qed

lemma rel_put:
  assumes "rel U c A" "valid_id i" "nodes A i = Some n" "file_of n = Some (k, bs)" "pieces n = []" "fs_put i k bs w A = Some B"
  obtains c' where "ec_put i w c = Inr (OK, c')" "rel U c' B"
proof -
  have i: "i \<le> 1024" using assms(2) by (simp add: valid_id_def)
  have len: "length w \<le> 6502400" using assms(6) by (auto simp: fs_put_def split: if_splits)
  have put: "ec_put i w c = bindF (write_file (ucast i) (w @ [0]) (int (length w)) c) (\<lambda>m1. Inr (OK, m1))"
  proof -
    have "sint (of_nat (length w) :: u32) = int (length w)" using len by (simp add: signed_of_nat signed_take_bit_int_eq_self)
    then show ?thesis using i by (simp add: ec_defs es_defs Let_def id_inum_small)
  qed
  show thesis
  proof (cases "length w \<le> 51200")
    case True
    then have B: "blocks_for w \<le> room A"
      "B = A\<lparr>nodes := (nodes A)(i \<mapsto> Bytes k (blocks_for w) (chunks w @ drop (blocks_for w) bs)), room := room A - blocks_for w\<rparr>"
      using assms(6) by (simp_all add: fs_put_def split: if_splits)
    have sz: "w = take (nat (int (length w))) (w @ [0])" "0 \<le> int (length w)" "int (length w) \<le> 51200" "nat (int (length w)) \<le> length (w @ [0])"
      using True by simp_all
    obtain c' where "write_file (ucast i) (w @ [0]) (int (length w)) c = Inr c'" "rel U c' B"
      by (rule rel_put_small[OF assms(1-5) sz B(1), folded B(2)]) (rule that)
    then show thesis using that put by simp
  next
    case False
    then obtain ps C where C: "51200 < length w" "blocks_for w < room A" "add_pieces (tail_chunks w) A = Some (ps, C)"
      "B = C\<lparr>nodes := (nodes C)(i \<mapsto> Large k (take 100 (chunks w)) ps), room := room C - 101\<rparr>"
      using assms(6) by (auto simp: fs_put_def split: if_splits)
    obtain c' where "write_file (ucast i) (w @ [0]) (int (length w)) c = Inr c'" "rel U c' B"
      by (rule rel_put_large[OF assms(1-4) C(1) len C(2,3), folded C(4)]) (rule that)
    then show thesis using that put by simp
  qed
qed

text \<open>It empties the file and puts all of it again.\<close>

lemma rel_write:
  assumes "rel U c A" "valid_id i" "fs_write i (unat off) (take (unat sz) d) A = Some B" "unat sz \<le> length d"
    and "\<And>n. nodes A i = Some n \<Longrightarrow> pieces_at c (pieces n)"
  obtains c' where "chfs_write i sz off d c = Inr (OK, sz, c')" "rel U c' B"
proof -
  obtain n v k bs where n: "nodes A i = Some n" "bytes_of n = Some v" "file_of n = Some (k, bs)"
    and put: "fs_put i k bs (write_at (unat off) (take (unat sz) d) v) A = Some B"
    using assms(3) by (auto simp: fs_write_def Option.bind_eq_Some_conv split: if_splits)
  let ?w = "write_at (unat off) (take (unat sz) d) v" and ?A = "A\<lparr>nodes := (nodes A)(i \<mapsto> Bytes k 0 bs)\<rparr>"
  have i: "i \<le> 1024" using assms(2) by (simp add: valid_id_def)
  note get = node_get[OF relD(1,2)[OF assms(1)] i relD(4)[OF assms(1,2) n(1)] assms(5)[OF n(1)] n(2)]
  obtain c1 where c1: "ec_set_attr i 0 c = Inr (OK, c1)" "rel U c1 ?A"
    by (rule rel_resize[OF assms(1,2) n(1,3) assms(5)[OF n(1)], of 0]) (use that in simp_all)
  have nd: "nodes ?A i = Some (Bytes k 0 bs)" "file_of (Bytes k 0 bs) = Some (k, bs)" "pieces (Bytes k 0 bs) = []" by simp_all
  obtain c2 where c2: "ec_put i ?w c1 = Inr (OK, c2)" "rel U c2 B"
    by (rule rel_put[OF c1(2) assms(2) nd fs_put_over[OF put n(1)]]) (rule that)
  have "length ?w \<le> 6502400" using put by (auto simp: fs_put_def split: if_splits)
  then have bounds: "unat off + unat sz < 2 ^ 31" using assms(4) by (simp add: write_at_length)
  have "chfs_write i sz off d c = Inr (OK, sz, c2)"
    unfolding chfs_write_def get(1) setattr_def bindF_Inr case_prod_conv c1(1) Let_def
      copy_at[OF bounds assms(4) get(2)] c2(1) by simp
  then show thesis using c2(2) by (rule that)
qed

end
