(* ===== verification/Fs_Refinement.thy ===== *)
theory Fs_Refinement imports Node_Large begin

text \<open>
  The FUSE server refines \<open>Fs_Spec\<close>: started on a new disk, it answers every run of requests that the
  specification covers as the specification does, up to the time stamps, and never faults. The locale
  \<open>simulation\<close> gets this for runs from the same statement about one request.
\<close>

subsection \<open>Simulation\<close>

fun spec_run :: "('q \<Rightarrow> 'a \<Rightarrow> ('r \<times> 'a) option) \<Rightarrow> 'q list \<Rightarrow> 'a \<Rightarrow> ('r list \<times> 'a) option" where
  "spec_run step [] A = Some ([], A)"
| "spec_run step (q # qs) A = Option.bind (step q A) (\<lambda>(r, B). map_option (\<lambda>(rs, C). (r # rs, C)) (spec_run step qs B))"

fun server_run :: "('q \<Rightarrow> 's \<Rightarrow> fault + 'o option \<times> 's) \<Rightarrow> 'q list \<Rightarrow> 's \<Rightarrow> fault + 'o option list \<times> 's" where
  "server_run step [] c = Inr ([], c)"
| "server_run step (q # qs) c = bindF (step q c) (\<lambda>(r, c1). bindF (server_run step qs c1) (\<lambda>(rs, c2). Inr (r # rs, c2)))"

locale simulation =
  fixes R :: "'s \<Rightarrow> 'a \<Rightarrow> bool" and spec :: "'q \<Rightarrow> 'a \<Rightarrow> ('r \<times> 'a) option"
    and server :: "'q \<Rightarrow> 's \<Rightarrow> fault + 'o option \<times> 's" and view :: "'o \<Rightarrow> 'r"
  assumes step: "R c A \<Longrightarrow> spec q A = Some (r, B) \<Longrightarrow>
    \<exists>a c'. server q c = Inr (Some a, c') \<and> view a = r \<and> R c' B"
begin

lemma runs:
  assumes "R c A" "spec_run spec qs A = Some (rs, B)"
  shows "\<exists>as c'. server_run server qs c = Inr (map Some as, c') \<and> map view as = rs \<and> R c' B"
  using assms
proof (induction qs arbitrary: c A rs)
  case Nil
  then show ?case by simp
next
  case (Cons q qs)
  then obtain r C ss where s: "spec q A = Some (r, C)" "spec_run spec qs C = Some (ss, B)" "rs = r # ss"
    by (auto simp: Option.bind_eq_Some_conv)
  obtain a c1 where a: "server q c = Inr (Some a, c1)" "view a = r" "R c1 C" using step[OF Cons.prems(1) s(1)] by blast
  obtain as c' where "server_run server qs c1 = Inr (map Some as, c')" "map view as = ss" "R c' B"
    using Cons.IH[OF a(3) s(2)] by blast
  then show ?case using a s(3) by (intro exI[of _ "a # as"]) simp
qed

end

subsection \<open>Names\<close>

definition sim :: "chfs_client \<Rightarrow> fs \<Rightarrow> bool" where
  "sim c A \<longleftrightarrow> rel {} c A \<and> fs_ok A"

lemma simD:
  assumes "sim c A" "nodes A i = Some n"
  shows "ok c" "valid_id i" "i \<le> 1024" "node_at c (ucast i) n" "blank c"
proof -
  show "ok c" "blank c" using assms(1) relD(1,2)[of "{}" c A] by (simp_all add: sim_def)
  show v: "valid_id i" using assms fs_okD(1) by (auto simp: sim_def valid_id_def)
  then show "i \<le> 1024" by (simp add: valid_id_def)
  show "node_at c (ucast i) n" using relD(4)[of "{}" c A, OF _ v assms(2)] assms(1) by (simp add: sim_def)
qed

lemma sim_dir: "sim c A \<Longrightarrow> nodes A p = Some (Directory es) \<Longrightarrow> dir_of c p es"
  using simD(1,3,4) by (blast intro: node_dir)

lemma sim_pieces:
  assumes "sim c A" "nodes A i = Some n"
  shows "pieces_at c (pieces n)" and "i \<notin> hidden A \<Longrightarrow> pieces_in A i n"
proof -
  have f: "fs_ok A" using assms(1) by (simp add: sim_def)
  have each: "j \<in> hidden A \<and> nodes A j = Some (Bytes Regular (length b) b)" if "(j, b) \<in> set (pieces n)" for j b
    using fs_pieces(3)[OF f assms(2) that] .
  show "pieces_at c (pieces n)" unfolding pieces_at_def using each simD(4)[OF assms(1)] by auto
  show "pieces_in A i n" if "i \<notin> hidden A"
    unfolding pieces_in_def using each simD(2)[OF assms(1)] fs_pieces(2)[OF f assms(2)] that by auto
qed

lemma sim_get:
  assumes "sim c A" "nodes A i = Some n" "bytes_of n = Some v"
  shows "ec_get i c = Inr (OK, v)" and "length v < 2 ^ 31"
  using node_get[OF simD(1,5,3,4)[OF assms(1,2)] sim_pieces(1)[OF assms(1,2)] assms(3)] .

lemma sim_getattr:
  assumes "sim c A" "nodes A i = Some n"
  obtains st where "getattr i c = Inr (OK, st)" "untimed st = node_stat i n"
  using node_getattr[OF simD(1,5,3,4)[OF assms] sim_pieces(1)[OF assms]] by blast

text \<open>The three kinds of nodes that are made, with the type that the inode gets.\<close>

definition new_node :: "u32 \<Rightarrow> node" where
  "new_node t = (if t = 1 then Directory [] else if t = 2 then Bytes Regular 0 [] else Bytes Symbolic 0 [])"

lemma new_node_simps [simp]:
  "new_node 1 = Directory []" "new_node 2 = Bytes Regular 0 []" "new_node 3 = Bytes Symbolic 0 []" "held (new_node t) = 0" "pieces (new_node t) = []"
  by (simp_all add: new_node_def)

lemma new_node_at:
  assumes "inode_at c j = new_inode t now" "inum_ok j" "t \<in> {1, 2, 3}"
  shows "node_at c j (new_node t)"
  using new_inode_node(1)[OF assms(1,2)] new_inode_node(2)[OF assms(1,2), of Regular] new_inode_node(2)[OF assms(1,2), of Symbolic] assms(3)
  by auto

lemma sim_make:
  assumes "sim c A" "t \<in> {1, 2, 3}" "fs_make (new_node t) p name A = Some (Some i, B)"
  obtains c1 c2 where "lookup p name c = Inr (OK, None)" "ec_create t c = Inr (OK, i, c1)"
    "ec_add_to_dir p i name c1 = Inr (OK, c2)" "sim c2 B" "nodes B i = Some (new_node t)"
proof -
  obtain es where es: "nodes A p = Some (Directory es)" "find_name name es = None" "fresh A = Some i" "length es < 100"
    "name_ok name" "0 < room A"
    and B: "B = A\<lparr>nodes := (nodes A)(i \<mapsto> new_node t, p \<mapsto> Directory (es @ [(i, name)])), room := room A - 1\<rparr>"
    using assms(3) by (auto simp: fs_make_def split: option.splits node.splits if_splits)
  let ?A = "A\<lparr>nodes := (nodes A)(i \<mapsto> new_node t)\<rparr>"
  note fr = fresh_Some[OF es(3)]
  have ip: "p \<noteq> i" using fr(1) es(1) by auto
  have r: "rel {} c A" using assms(1) by (simp add: sim_def)
  obtain c1 where c1: "ec_create t c = Inr (OK, i, c1)" "rel {} c1 ?A"
    using r es(3) assms(2) new_node_simps(4,5)
    by (rule rel_new_inode[of "{}" c A i t "new_node t"]) (blast intro: new_node_at[OF _ _ assms(2)], rule that)
  have a: "nodes ?A p = Some (Directory es)" "0 < room ?A" using es ip by simp_all
  obtain c2 where c2: "ec_add_to_dir p i name c1 = Inr (OK, c2)" "rel {} c2 B"
    by (rule rel_add_entry[OF c1(2) simD(2)[OF assms(1) es(1)] a(1) es(4,5) a(2) fr(3)]) (use that in \<open>simp add: B\<close>)
  have "lookup p name c = Inr (OK, None)" using lookup_dir[OF sim_dir[OF assms(1) es(1)]] es(2) by simp
  moreover have "sim c2 B" using c2(2) fs_make_ok[OF _ assms(3)] assms(1) by (simp add: sim_def)
  moreover have "nodes B i = Some (new_node t)" using ip by (simp add: B)
  ultimately show thesis using that c1(1) c2(1) by blast
qed

lemma helper_does:
  assumes "sim c A" "t \<in> {1, 2, 3}" "fs_make (new_node t) p name A = Some (Some i, B)"
  obtains st c' where "fuseserver_createhelper p name t c = Inr ((OK, Some (entry_of i st)), c')"
    "untimed st = node_stat i (new_node t)" "sim c' B"
proof -
  obtain c1 c2 where c: "lookup p name c = Inr (OK, None)" "ec_create t c = Inr (OK, i, c1)"
    "ec_add_to_dir p i name c1 = Inr (OK, c2)" "sim c2 B" "nodes B i = Some (new_node t)"
    by (rule sim_make[OF assms]) (rule that)
  obtain st where st: "getattr i c2 = Inr (OK, st)" "untimed st = node_stat i (new_node t)" using c(4,5) by (rule sim_getattr)
  have "fuseserver_createhelper p name t c = Inr ((OK, Some (entry_of i st)), c2)"
    using assms(2) c(1-3) st(1) by (auto simp: fuseserver_createhelper_def create_def mkdir_def ln_def)
  then show thesis using that st(2) c(4) by blast
qed

lemma helper_exists:
  assumes "sim c A" "t \<in> {1, 2, 3}" "fs_make (new_node t) p name A = Some (None, B)"
  shows "fuseserver_createhelper p name t c = Inr ((EXIST, None), c)" and "B = A"
proof -
  obtain es where es: "nodes A p = Some (Directory es)" "find_name name es \<noteq> None" and "B = A"
    using assms(3) by (auto simp: fs_make_def split: option.splits node.splits if_splits)
  then show "B = A" by simp
  have "name \<in> snd ` set es" using es(2) find_name_None[of name es] by simp
  from make_existing[OF sim_dir[OF assms(1) es(1)] this, of 0]
  show "fuseserver_createhelper p name t c = Inr ((EXIST, None), c)"
    using assms(2) by (auto simp: fuseserver_createhelper_def)
qed

lemma sim_write:
  assumes "sim c A" "fs_write i (unat off) (take (unat sz) d) A = Some B" "unat sz \<le> length d"
  obtains c' where "chfs_write i sz off d c = Inr (OK, sz, c')" "sim c' B"
proof -
  obtain n where "nodes A i = Some n" using assms(2) by (auto simp: fs_write_def Option.bind_eq_Some_conv split: if_splits)
  then have v: "valid_id i" using simD(2)[OF assms(1)] by blast
  have r: "rel {} c A" "fs_ok A" using assms(1) by (simp_all add: sim_def)
  obtain c' where "chfs_write i sz off d c = Inr (OK, sz, c')" "rel {} c' B"
    by (rule rel_write[OF r(1) v assms(2,3)]) (use sim_pieces(1)[OF assms(1)] that in blast)+
  then show thesis using that fs_write_ok[OF r(2) assms(2)] by (simp add: sim_def)
qed

lemma sim_unlink:
  assumes "sim c A" "fs_unlink p name A = Some B"
  obtains c' where "unlink p name c = Inr (OK, c')" "sim c' B"
proof -
  have r: "rel {} c A" "fs_ok A" using assms(1) by (simp_all add: sim_def)
  have list: "ec_read_dir p c = Inr (OK, es)" if "nodes A p = Some (Directory es)" for es
    using ns.list_eq[OF sim_dir[OF assms(1) that]] .
  from assms(2) show thesis
  proof (cases rule: fs_unlink_cases)
    case (none es)
    then have "unlink p name c = Inr (OK, c)" by (simp add: unlink_def readdir_def list)
    then show thesis using that assms(1) none(3) by blast
  next
    case (gone es i n)
    have i: "i \<in> fst ` set es" "i \<noteq> p" using fs_okD(3)[OF r(2) gone(1)] find_name_in[OF gone(2)] by force+
    have "i \<notin> hidden A" using fs_pieces(5)[OF r(2) gone(1) i(1)] .
    then have ps: "pieces_in A i n" using sim_pieces(2)[OF assms(1) gone(3)] by blast
    obtain c1 where c1: "ec_remove i c = Inr (OK, c1)" "rel {} c1 (fs_remove i n A)"
      by (rule rel_remove[OF r(1) simD(2)[OF assms(1) gone(3)] gone(3) ps]) (rule that)
    have "p \<notin> hidden A" using fs_pieces(1)[OF r(2), of p] gone(1) by auto
    then have "p \<notin> fst ` set (pieces n)" using fs_pieces(3)[OF r(2) gone(3)] by fastforce
    then have p: "nodes (fs_remove i n A) p = Some (Directory es)" using gone(1) i(2) by (simp add: fs_remove_def Let_def)
    obtain c2 where c2: "ec_remove_from_dir p i c1 = Inr (OK, c2)" "rel {} c2 B"
      by (rule rel_del_entry[OF c1(2) simD(2)[OF assms(1) gone(1)] p simD(3)[OF assms(1) gone(3)] i(1), folded gone(4)]) (rule that)
    have "unlink p name c = Inr (OK, c2)" using gone(1,2) c1(1) c2(1) by (simp add: unlink_def readdir_def list)
    then show thesis using that c2(2) fs_unlink_ok[OF r(2) assms(2)] by (simp add: sim_def)
  qed
qed

subsection \<open>Requests\<close>

fun untimed_reply :: "reply \<Rightarrow> reply" where
  "untimed_reply (Reply_attr st) = Reply_attr (untimed st)"
| "untimed_reply (Reply_entry e) = Reply_entry (e\<lparr>e_attr := untimed (e_attr e)\<rparr>)"
| "untimed_reply (Reply_create e) = Reply_create (e\<lparr>e_attr := untimed (e_attr e)\<rparr>)"
| "untimed_reply r = r"

lemma untimed_entry [simp]: "(entry_of i st)\<lparr>e_attr := untimed (e_attr (entry_of i st))\<rparr> = entry_of i (untimed st)"
  by (simp add: entry_of_def)

lemma sim_read:
  assumes "sim c A" "fs_read i (unat off) (unat sz) A = Some d"
  shows "chfs_read i sz off c = Inr (OK, d)"
proof -
  obtain n v where n: "nodes A i = Some n" "bytes_of n = Some v" "unat off + unat sz < 2 ^ 63" "d = take (unat sz) (drop (unat off) v)"
    using assms(2) by (auto simp: fs_read_def Option.bind_eq_Some_conv split: if_splits)
  show ?thesis using read_slice[OF sim_get[OF assms(1) n(1,2)] n(3)] n(4) by simp
qed

lemma sim_isdir:
  assumes "sim c A" "nodes A i = Some n"
  shows "isdir i c = Inr (case n of Directory es \<Rightarrow> True | _ \<Rightarrow> False)"
proof -
  note node = simD(4)[OF assms] and s = simD(1,5,3)[OF assms]
  have not_dir: "isdir i c = Inr False" if "itype (inode_at c (ucast i)) = kind_type k" "get_file_size max_depth (ucast i) c = Inr x" for k x
  proof -
    have "scast (kind_type k) \<noteq> (1 :: u32)" by (cases k) simp_all
    then show ?thesis using that s(1,3) node_at_inode(1)[OF node]
      by (simp add: isdir_def ec_defs es_defs id_inum_small get_attr_def get_inode_ok)
  qed
  show ?thesis
  proof (cases n)
    case (Directory es)
    then show ?thesis using isdir_small[OF sim_dir[OF assms(1), of i es]] assms(2) by simp
  next
    case (Bytes k m bs)
    then have node: "node_at c (ucast i) (Bytes k m bs)" using node by simp
    have "itype (inode_at c (ucast i)) = kind_type k" using node by (cases rule: node_cases) simp_all
    then show ?thesis using not_dir node_size(1)[OF s(1,2) node, of 1024] Bytes by simp
  next
    case (Large k bs ps)
    then have n: "node_at c (ucast i) (Large k bs ps)" "pieces_at c ps" using node sim_pieces(1)[OF assms] by simp_all
    have "itype (inode_at c (ucast i)) = kind_type k" using n(1) by (cases rule: node_cases) simp_all
    then show ?thesis using not_dir large_size[OF s(1,2) n, of 1023] Large by simp
  qed
qed

text \<open>The requests that make a node answer alike.\<close>

lemma sim_made:
  assumes "sim c A" "t \<in> {1, 2, 3}" "fs_make (new_node t) p name A = Some (i, B)"
  obtains (exists) "i = None" "B = A" "fuseserver_createhelper p name t c = Inr ((EXIST, None), c)"
    | (new) j st c' where "i = Some j" "fuseserver_createhelper p name t c = Inr ((OK, Some (entry_of j st)), c')"
      "untimed st = node_stat j (new_node t)" "sim c' B"
proof (cases i)
  case None
  then show thesis using exists helper_exists[OF assms(1,2), of p name B] assms(3) by simp
next
  case (Some j)
  then obtain st c' where "fuseserver_createhelper p name t c = Inr ((OK, Some (entry_of j st)), c')"
    "untimed st = node_stat j (new_node t)" "sim c' B"
    using helper_does[OF assms(1,2)] assms(3) by blast
  then show thesis using new Some by blast
qed

lemma sim_setattr:
  assumes "sim c A" "fs_resize i (unat sz) A = Some (n, B)"
  obtains c' where "setattr i sz c = Inr (OK, c')" "sim c' B" "nodes B i = Some n"
proof -
  obtain x k bs where x: "nodes A i = Some x" "file_of x = Some (k, bs)" "unat sz \<le> 51200"
    "n = Bytes k (n_blocks (int (unat sz))) bs" "B = A\<lparr>nodes := (nodes A)(i \<mapsto> n)\<rparr>"
    using assms(2) by (auto simp: fs_resize_def Option.bind_eq_Some_conv split: if_splits)
  have r: "rel {} c A" "fs_ok A" using assms(1) by (simp_all add: sim_def)
  obtain c' where "ec_set_attr i sz c = Inr (OK, c')" "rel {} c' B"
    by (rule rel_resize[OF r(1) simD(2)[OF assms(1) x(1)] x(1,2) sim_pieces(1)[OF assms(1) x(1)] x(3), folded x(4), folded x(5)]) (rule that)
  then show thesis using that[of c'] fs_resize_ok[OF r(2) assms(2)] x(5) by (simp add: sim_def setattr_def)
qed

text \<open>\<open>meets h r B\<close>: the handler's result \<open>h\<close> is the answer \<open>r\<close> and a state that \<open>B\<close> specifies.\<close>

definition meets :: "handled \<Rightarrow> reply \<Rightarrow> fs \<Rightarrow> bool" where
  "meets h r B \<longleftrightarrow> (\<exists>a c'. h = Inr (Some a, c') \<and> untimed_reply a = r \<and> sim c' B)"

lemma meetsI: "h = Inr (Some a, c') \<Longrightarrow> untimed_reply a = r \<Longrightarrow> sim c' B \<Longrightarrow> meets h r B"
  by (auto simp: meets_def)

lemma meets_getattr:
  assumes "sim c A" "nodes A i = Some n"
  shows "meets (fuseserver_getattr i c) (Reply_attr (node_stat i n)) A"
proof -
  obtain st where "getattr i c = Inr (OK, st)" "untimed st = node_stat i n" using assms by (rule sim_getattr)
  then show ?thesis using assms(1) by (intro meetsI[of _ "Reply_attr st" c]) (simp_all add: fuseserver_getattr_def)
qed

lemma meets_readdir:
  assumes "sim c A" "nodes A i = Some n"
  shows "meets (fuseserver_readdir de ds i sz off c) (case n of
    Directory es \<Rightarrow> Reply_buf (take (unat sz) (drop (unat off) (dirbuf_all de ds es []))) | _ \<Rightarrow> Reply_err ENOTDIR) A"
proof (cases n)
  case (Directory es)
  have "readdir i c = Inr (OK, es)" "isdir i c = Inr True"
    using ns.list_eq[OF sim_dir[OF assms(1), of i es]] assms(2) sim_isdir[OF assms] Directory by (simp_all add: readdir_def)
  then show ?thesis using Directory assms(1) by (auto simp: fuseserver_readdir_def reply_buf_limited_eq intro!: meetsI)
next
  case (Bytes k m bs)
  then have "isdir i c = Inr False" using sim_isdir[OF assms] by simp
  then show ?thesis using Bytes assms(1) by (auto simp: fuseserver_readdir_def intro!: meetsI)
next
  case (Large k bs ps)
  then have "isdir i c = Inr False" using sim_isdir[OF assms] by simp
  then show ?thesis using Large assms(1) by (auto simp: fuseserver_readdir_def intro!: meetsI)
qed

lemma meets_lookup:
  assumes "sim c A" "fs_lookup p name A = Some r"
  shows "meets (fuseserver_lookup p name c) r A"
proof -
  obtain es where es: "nodes A p = Some (Directory es)"
    using assms(2) by (cases "nodes A p") (auto simp: fs_lookup_def split: node.splits)
  note look = lookup_dir[OF sim_dir[OF assms(1) es], of name]
  show ?thesis
  proof (cases "find_name name es")
    case None
    then have "r = Reply_err ENOENT" using assms(2) es by (simp add: fs_lookup_def)
    then show ?thesis using look None assms(1) by (auto simp: fuseserver_lookup_def intro!: meetsI)
  next
    case (Some i)
    then obtain n where n: "nodes A i = Some n" "r = Reply_entry (entry_of i (node_stat i n))"
      using assms(2) es by (auto simp: fs_lookup_def)
    obtain st where "getattr i c = Inr (OK, st)" "untimed st = node_stat i n" using assms(1) n(1) by (rule sim_getattr)
    then show ?thesis
      using look n(2) Some assms(1) by (intro meetsI[of _ "Reply_entry (entry_of i st)" c]) (simp_all add: fuseserver_lookup_def)
  qed
qed

lemma meets_create:
  assumes "sim c A" "fs_make (Bytes Regular 0 []) p name A = Some (i, B)"
  shows "meets (fuseserver_create p name c) (made Reply_create (Bytes Regular 0 []) i) B"
    and "meets (fuseserver_mknod p name c) (made Reply_entry (Bytes Regular 0 []) i) B"
proof -
  have m: "fs_make (new_node 2) p name A = Some (i, B)" using assms(2) by simp
  from assms(1) _ m show "meets (fuseserver_create p name c) (made Reply_create (Bytes Regular 0 []) i) B"
    by (rule sim_made) (use assms(1) in \<open>auto simp: fuseserver_create_def made_def intro!: meetsI\<close>)
  from assms(1) _ m show "meets (fuseserver_mknod p name c) (made Reply_entry (Bytes Regular 0 []) i) B"
    by (rule sim_made) (use assms(1) in \<open>auto simp: fuseserver_mknod_def made_def intro!: meetsI\<close>)
qed

lemma meets_mkdir:
  assumes "sim c A" "fs_make (Directory []) p name A = Some (i, B)"
  shows "meets (fuseserver_mkdir p name c) (made Reply_entry (Directory []) i) B"
proof -
  have m: "fs_make (new_node 1) p name A = Some (i, B)" using assms(2) by simp
  from assms(1) _ m show ?thesis
    by (rule sim_made) (use assms(1) in \<open>auto simp: fuseserver_mkdir_def made_def intro!: meetsI\<close>)
qed

lemma meets_write:
  assumes "sim c A" "fs_write i (unat off) (take (unat sz) buf) A = Some B" "unat sz \<le> length buf"
  shows "meets (fuseserver_write i buf sz off c) (Reply_write sz) B"
proof -
  obtain c' where "chfs_write i sz off buf c = Inr (OK, sz, c')" "sim c' B" using assms by (rule sim_write)
  then show ?thesis by (intro meetsI[of _ "Reply_write sz" c']) (simp_all add: fuseserver_write_def)
qed

lemma meets_setattr:
  assumes "sim c A" "fs_resize i (unat (st_size attr)) A = Some (n, B)" "bt AND to_set \<noteq> 0"
  shows "meets (fuseserver_setattr bt i attr to_set c) (Reply_attr (node_stat i n)) B"
proof -
  obtain c' where c': "setattr i (st_size attr) c = Inr (OK, c')" "sim c' B" "nodes B i = Some n"
    using assms(1,2) by (rule sim_setattr)
  obtain st where "getattr i c' = Inr (OK, st)" "untimed st = node_stat i n" using c'(2,3) by (rule sim_getattr)
  then show ?thesis using c' assms(3) by (intro meetsI[of _ "Reply_attr st" c']) (simp_all add: fuseserver_setattr_def)
qed

lemma meets_unlink:
  assumes "sim c A" "fs_unlink p name A = Some B"
  shows "meets (fuseserver_unlink p name c) (Reply_err E0) B"
proof -
  obtain c' where "unlink p name c = Inr (OK, c')" "sim c' B" using assms by (rule sim_unlink)
  then show ?thesis by (intro meetsI[of _ "Reply_err E0" c']) (simp_all add: fuseserver_unlink_def)
qed

lemma meets_symlink:
  assumes "sim c A" "fs_make (Bytes Symbolic 0 []) p name A = Some (i, C)"
    and "(case i of None \<Rightarrow> Some C | Some j \<Rightarrow> fs_write j 0 target C) = Some B"
  shows "meets (fuseserver_symlink target p name c) (made Reply_entry (Bytes Symbolic 0 []) i) B"
proof -
  have "fs_make (new_node 3) p name A = Some (i, C)" using assms(2) by simp
  from assms(1) _ this show ?thesis
  proof (rule sim_made)
    assume "i = None" "C = A" "fuseserver_createhelper p name 3 c = Inr ((EXIST, None), c)"
    then show ?thesis using assms(1,3) by (auto simp: fuseserver_symlink_def made_def intro!: meetsI)
  next
    fix j st c1
    assume j: "i = Some j" "fuseserver_createhelper p name 3 c = Inr ((OK, Some (entry_of j st)), c1)"
      "untimed st = node_stat j (new_node 3)" "sim c1 C"
    let ?n = "of_nat (length target) :: u64"
    have w: "fs_write j 0 target C = Some B" using assms(3) j(1) by simp
    then have "length target \<le> 6502400"
      by (auto simp: fs_write_def fs_put_def write_at_length Option.bind_eq_Some_conv split: if_splits)
    then have n: "unat ?n = length target" by (simp add: unat_of_nat take_bit_nat_eq_self)
    obtain c2 where "chfs_write j ?n 0 target c1 = Inr (OK, ?n, c2)" "sim c2 B"
      by (rule sim_write[OF j(4), of j 0 ?n target B]) (use w n that in simp_all)
    then show ?thesis
      using j(1-3) by (intro meetsI[of _ "Reply_entry (entry_of j st)" c2]) (simp_all add: fuseserver_symlink_def made_def entry_of_def)
  qed simp
qed

lemma meets_read:
  assumes "sim c A" "fs_read i (unat off) (unat sz) A = Some d"
  shows "meets (fuseserver_read i sz off c) (Reply_buf d) A"
  using sim_read[OF assms] assms(1) by (auto simp: fuseserver_read_def intro!: meetsI)

lemma meets_readlink:
  assumes "sim c A" "fs_read i 0 0xFFFFFFFF A = Some d"
  shows "meets (fuseserver_readlink i c) (Reply_buf d) A"
  using sim_read[OF assms(1), where off = 0 and sz = "0xFFFFFFFF"] assms by (auto simp: fuseserver_readlink_def intro!: meetsI)

lemma sim_step:
  assumes "sim c A" "fs_step bt de ds q A = Some (r, B)"
  shows "meets (fuseserver_oper bt de ds q c) r B"
proof (cases q)
  case (Setattr i attr to_set)
  show ?thesis
  proof (cases "bt AND to_set = 0")
    case True
    then show ?thesis using Setattr assms by (auto simp: fuseserver_setattr_def intro!: meetsI)
  next
    case False
    then show ?thesis using Setattr assms meets_setattr[OF assms(1)] by auto
  qed
next
  case (Write i buf sz off)
  then show ?thesis using assms meets_write[OF assms(1)] by (auto split: if_splits)
next
  case Statfs
  then show ?thesis using assms by (auto simp: fuseserver_statfs_def intro!: meetsI)
next
  case (Open i)
  then show ?thesis using assms by (auto simp: fuseserver_open_def intro!: meetsI)
next
  case (Symlink target p name)
  then show ?thesis using assms(2) meets_symlink[OF assms(1)] by (auto simp: Option.bind_eq_Some_conv)
next
  case (Getattr i)
  then show ?thesis using assms(2) meets_getattr[OF assms(1)] by auto
next
  case (Readdir i sz off)
  then show ?thesis using assms(2) meets_readdir[OF assms(1)] by auto
next
  case (Lookup p name)
  then show ?thesis using assms(2) meets_lookup[OF assms(1)] by auto
next
  case (Create p name)
  then show ?thesis using assms(2) meets_create(1)[OF assms(1)] by auto
next
  case (Mknod p name)
  then show ?thesis using assms(2) meets_create(2)[OF assms(1)] by auto
next
  case (Mkdir p name)
  then show ?thesis using assms(2) meets_mkdir[OF assms(1)] by auto
next
  case (Unlink p name)
  then show ?thesis using assms(2) meets_unlink[OF assms(1)] by auto
next
  case (Read i sz off)
  then show ?thesis using assms(2) meets_read[OF assms(1)] by auto
next
  case (Readlink i)
  then show ?thesis using assms(2) meets_readlink[OF assms(1)] by auto
qed

interpretation fs: simulation sim "fs_step bt de ds" "fuseserver_oper bt de ds" untimed_reply for bt de ds
  by unfold_locales (use sim_step in \<open>simp add: meets_def\<close>)

subsection \<open>From a new disk\<close>

lemma sim_init:
  obtains c where "chfs_init clk = Inr (Some c)" "sim c fs_init"
proof -
  obtain m where m: "inode_manager_init clk = Inr (Some m)" "ok m" "inode_at m 1 = new_inode 1 (clk 0)"
    "\<forall>j. inum_ok j \<and> j \<noteq> 1 \<longrightarrow> itype (inode_at m j) = 0" "free_blocks m = {b. data_block b}"
    "data m 0 = replicate 512 0"
    by (rule init_does) (rule that)
  have one: "inum_ok 1" by (simp add: inum_ok_def)
  have node: "node_at m 1 (Directory [])" using new_node_at[OF m(3) one] by simp
  have "rel {} m fs_init"
  proof (rule relI[OF m(2)])
    show "blank m" using m(6) by (simp add: blank_def)
    show "room fs_init = card (free_blocks m)" by (simp add: fs_init_def m(5) card_data_blocks)
    show "node_at m (ucast i) n" if "nodes fs_init i = Some n" for i n
      using that node by (auto simp: fs_init_def split: if_splits)
    show "itype (inode_at m (ucast i)) = 0" if "valid_id i" "nodes fs_init i = None" for i
    proof -
      have "i \<noteq> 1" using that(2) by (auto simp: fs_init_def)
      then have "(ucast i :: u32) \<noteq> ucast (1 :: u64)" using valid_inject[OF that(1), of 1] by (simp add: valid_id_def)
      then show ?thesis using m(4) valid_inum[OF that(1)] by simp
    qed
  qed (auto simp: fs_init_def split: if_splits)
  then show thesis using that[of m] m(1) fs_ok_init by (simp add: chfs_init_def sim_def)
qed

lemma server_refines:
  assumes "spec_run (fs_step bt de ds) qs fs_init = Some (rs, B)"
  obtains c as c' where "chfs_init clk = Inr (Some c)"
    "server_run (fuseserver_oper bt de ds) qs c = Inr (map Some as, c')" "map untimed_reply as = rs" "sim c' B"
proof -
  obtain c where c: "chfs_init clk = Inr (Some c)" "sim c fs_init" by (rule sim_init)
  then show thesis using fs.runs[OF c(2) assms] that by blast
qed

end
