(* ===== verification/Fs_Properties.thy ===== *)
theory Fs_Properties imports Fs_Refinement begin

text \<open>
  What the refinement gives for the server: its answers on every run of covered requests, the state it
  leaves on the disk, and a run that brings back bytes that had been truncated.
\<close>

subsection \<open>Running the specification\<close>

lemma fresh_is:
  assumes "k < 1024" "\<forall>l < k. nodes A (of_nat (Suc l)) \<noteq> None" "nodes A (of_nat (Suc k)) = None"
  shows "fresh A = Some (of_nat (Suc k))"
  unfolding fresh_def find_Some_iff using assms by (intro exI[of _ k]) (auto simp del: of_nat_Suc simp flip: upt_Suc)

lemma fresh_2: "nodes A 1 \<noteq> None \<Longrightarrow> nodes A 2 = None \<Longrightarrow> fresh A = Some 2"
  using fresh_is[of 1 A] by simp

lemma fresh_3: "nodes A 1 \<noteq> None \<Longrightarrow> nodes A 2 \<noteq> None \<Longrightarrow> nodes A 3 = None \<Longrightarrow> fresh A = Some 3"
  using fresh_is[of 2 A] by (auto simp: numeral_2_eq_2 less_Suc_eq)

lemmas run_simps = fs_init_def fs_make_def fresh_2 fresh_3 name_ok_def made_def fs_unlink_def fs_remove_def fs_lookup_def swap_out_def Let_def

lemmas write_simps = fs_write_def fs_put_def content_def write_at_def blocks_for_def n_blocks_def chunks_def nth_block_def Let_def
  fs_read_def fs_resize_def size_of_def

subsection \<open>Refinement\<close>

text \<open>
  C1: Started on a new disk, the server refines the specification: every run of requests that the
  specification covers is answered, request by request, as the specification says, up to the time
  stamps, and no request faults or goes without an answer.
\<close>

theorem server_refines_spec:
  assumes "spec_run (fs_step bt de ds) qs fs_init = Some (rs, B)"
  shows "\<exists>c as c'. chfs_init clk = Inr (Some c)
    \<and> server_run (fuseserver_oper bt de ds) qs c = Inr (map Some as, c') \<and> map untimed_reply as = rs"
proof -
  obtain c as c' where "chfs_init clk = Inr (Some c)" "server_run (fuseserver_oper bt de ds) qs c = Inr (map Some as, c')"
    "map untimed_reply as = rs" using assms by (rule server_refines[of bt de ds qs rs B clk])
  then show ?thesis by blast
qed

definition example_run :: "request list" where
  "example_run = [Mkdir 1 [100], Create 2 [102], Write 3 [104, 105] 2 1, Read 3 10 0, Getattr 3, Create 2 [102],
     Setattr 3 (zero_stat\<lparr>st_size := 1000\<rparr>) 8, Read 3 10 0, Unlink 2 [102], Lookup 2 [102], Mknod 1 [103]]"

definition example_answers :: "reply list" where
  "example_answers = [Reply_entry (entry_of 2 (node_stat 2 (Directory []))),
     Reply_create (entry_of 3 (node_stat 3 (Bytes Regular 0 []))), Reply_write 2, Reply_buf [0, 104, 105],
     Reply_attr ((node_stat 3 (Bytes Regular 0 []))\<lparr>st_size := 3\<rparr>), Reply_err EEXIST,
     Reply_attr ((node_stat 3 (Bytes Regular 0 []))\<lparr>st_size := 513\<rparr>), Reply_buf [0, 104, 105], Reply_err E0, Reply_err ENOENT,
     Reply_entry (entry_of 3 (node_stat 3 (Bytes Regular 0 [])))]"

lemma example_runs: "\<exists>B. spec_run (fs_step 8 de ds) example_run fs_init = Some (example_answers, B)"
proof -
  have z: "strip0 (0 # 104 # 105 # replicate 509 0) = [0, 104, 105 :: u8]"
    using strip0_append_zeros[of "[0, 104, 105]" 509] strip0_id[of "[0, 104, 105]"] by simp
  show ?thesis unfolding example_run_def example_answers_def by (simp add: run_simps write_simps z node_stat_def file_stat_def)
qed

theorem server_refines_spec_witness:
  "\<exists>c as c'. chfs_init (\<lambda>n. 0) = Inr (Some c)
     \<and> server_run (fuseserver_oper 8 (\<lambda>n st e. n) (\<lambda>n. n)) example_run c = Inr (map Some as, c')
     \<and> map untimed_reply as = example_answers"
  using example_runs[of "\<lambda>n st e. n" "\<lambda>n. n"] server_refines_spec by blast

subsection \<open>The state on the disk\<close>

text \<open>
  What a check of the disk would look for: the blocks that the inodes in use point to, their tables included,
  are data blocks that the bitmap has as used, and no two pointers have the same block; the tables have
  the numbers of inodes in use, each in one table; the directories have distinct names whose numbers are
  those of inodes in use, each in one directory and in no table.
\<close>

definition tables :: "chfs_client \<Rightarrow> u32 \<Rightarrow> u32 set" where
  "tables c i = (if isize (inode_at c i) = 101
     then set (takeWhile (\<lambda>x. x \<noteq> 0) (u32s_of_block (data c (table_block c i)))) else {})"

definition allocated :: "chfs_client \<Rightarrow> u32 \<Rightarrow> bool" where
  "allocated c i \<longleftrightarrow> inum_ok i \<and> itype (inode_at c i) \<noteq> 0"

definition consistent :: "chfs_client \<Rightarrow> bool" where
  "consistent c \<longleftrightarrow> ok c
     \<and> (\<forall>i. allocated c i \<longrightarrow> distinct (file_ptrs c i) \<and> (\<forall>b \<in> own c i. data_block b \<and> in_use c b)
          \<and> (isize (inode_at c i) = 101 \<longrightarrow> table_block c i \<notin> set (file_ptrs c i)))
     \<and> (\<forall>i j. allocated c i \<and> allocated c j \<and> i \<noteq> j \<longrightarrow> own c i \<inter> own c j = {})
     \<and> (\<forall>i. allocated c i \<longrightarrow> (\<forall>j \<in> tables c i. j \<noteq> i \<and> allocated c j))
     \<and> (\<forall>i j. allocated c i \<and> allocated c j \<and> i \<noteq> j \<longrightarrow> tables c i \<inter> tables c j = {})
     \<and> (\<forall>p es. dir_of c p es \<longrightarrow> distinct (map snd es)
          \<and> (\<forall>i \<in> fst ` set es. i \<noteq> p \<and> i \<le> 1024 \<and> allocated c (ucast i)
               \<and> (\<forall>j. allocated c j \<longrightarrow> ucast i \<notin> tables c j)))
     \<and> (\<forall>p q es fs. dir_of c p es \<and> dir_of c q fs \<and> p \<noteq> q \<longrightarrow> fst ` set es \<inter> fst ` set fs = {})"

lemma sim_allocated:
  assumes "sim c A" "allocated c j"
  obtains n where "nodes A (ucast j) = Some n" "node_at c j n"
proof -
  have r: "rel {} c A" using assms(1) by (simp add: sim_def)
  have v: "valid_id (ucast j)" using assms(2) valid_of_inum by (simp add: allocated_def)
  show thesis
  proof (cases "nodes A (ucast j)")
    case None
    then show thesis using relD(5)[OF r v] assms(2) by (simp add: allocated_def)
  next
    case (Some n)
    then show thesis using that relD(4)[OF r v Some] by simp
  qed
qed

lemma sim_dir_of:
  assumes "sim c A" "dir_of c p es"
  shows "nodes A p = Some (Directory es)"
proof -
  have d: "dir_at c (ucast p) es" "p \<le> 1024" using assms(2) by (simp_all add: dir_of_def)
  then have i: "inum_ok (ucast p)" "itype (inode_at c (ucast p)) = 1" by (simp_all add: dir_at_def)
  then obtain n where n: "nodes A p = Some n" "node_at c (ucast p) n"
    using sim_allocated[OF assms(1), of "ucast p"] d(2) by (auto simp: allocated_def)
  from n(2) show ?thesis
  proof (cases rule: node_cases)
    case (dir fs)
    have p: "nodes A p = Some (Directory fs)" using n(1) unfolding dir(1) .
    then have "dir_of c p fs" using sim_dir[OF assms(1)] by blast
    then have "fs = es" using dir_at_unique[OF _ d(1)] unfolding dir_of_def by blast
    then show ?thesis using p by blast
  next
    case (bytes k m bs)
    then show ?thesis using i(2) by (cases k) simp_all
  next
    case (large k bs ps)
    then show ?thesis using i(2) by (cases k) simp_all
  qed
qed

lemma sim_tables:
  assumes "sim c A" "nodes A (ucast j) = Some n" "node_at c j n"
  shows "tables c j = ucast ` fst ` set (pieces n)"
  using assms(3)
proof (cases rule: node_cases)
  case (large k bs ps)
  then have "tables c j = set (map (\<lambda>(i, b). ucast i) ps)" by (simp add: tables_def)
  then show ?thesis using large(1) by (force simp: image_iff)
next
  case (dir es)
  then have "isize (inode_at c j) \<noteq> 101" using node_at_inode(3)[OF assms(3)] by auto
  then show ?thesis using dir(1) by (simp add: tables_def)
next
  case (bytes k m bs)
  then have "isize (inode_at c j) \<noteq> 101" by auto
  then show ?thesis using bytes(1) by (simp add: tables_def)
qed

lemma sim_is_allocated:
  assumes "sim c A" "nodes A i = Some n"
  shows "allocated c (ucast i)"
  using node_at_inode(1,2)[OF simD(4)[OF assms]] by (simp add: allocated_def)

lemma sim_own:
  assumes "sim c A" "allocated c i"
  shows "distinct (file_ptrs c i) \<and> (\<forall>b \<in> own c i. data_block b \<and> in_use c b)
    \<and> (isize (inode_at c i) = 101 \<longrightarrow> table_block c i \<notin> set (file_ptrs c i))"
proof -
  obtain n where "nodes A (ucast i) = Some n" and n: "node_at c i n" using assms by (rule sim_allocated)
  have "table_block c i \<notin> set (file_ptrs c i)" if "isize (inode_at c i) = 101"
    using n
  proof (cases rule: node_cases)
    case (dir es)
    then show ?thesis using node_at_inode(3)[OF n] that by auto
  qed (use that in simp_all)
  then show ?thesis using node_at_inode(5,7)[OF n] by blast
qed

lemma sim_own_apart:
  assumes "sim c A" "allocated c i" "allocated c j" "i \<noteq> j"
  shows "own c i \<inter> own c j = {}"
proof -
  have v: "valid_id (ucast l)" if "allocated c l" for l using that valid_of_inum by (simp add: allocated_def)
  obtain n where "nodes A (ucast i) = Some n" using assms(1,2) by (rule sim_allocated)
  moreover obtain n' where "nodes A (ucast j) = Some n'" using assms(1,3) by (rule sim_allocated)
  moreover have "(ucast i :: u64) \<noteq> ucast j" using assms(4) by simp
  moreover have "rel {} c A" using assms(1) by (simp add: sim_def)
  ultimately show ?thesis using relD(6)[OF _ v[OF assms(2)] v[OF assms(3)]] by auto
qed

text \<open>A number in a table is that of a piece.\<close>

lemma sim_piece:
  assumes "sim c A" "allocated c l" "j \<in> tables c l"
  obtains i n x where "j = ucast i" "nodes A (ucast l) = Some n" "i \<in> fst ` set (pieces n)" "i \<in> hidden A" "nodes A i = Some x"
proof -
  have f: "fs_ok A" using assms(1) by (simp add: sim_def)
  obtain n where n: "nodes A (ucast l) = Some n" "node_at c l n" using assms(1,2) by (rule sim_allocated)
  then obtain i b where i: "j = ucast i" "(i, b) \<in> set (pieces n)" using assms(3) sim_tables[OF assms(1) n] by auto
  moreover have "i \<in> fst ` set (pieces n)" using i(2) by force
  ultimately show thesis using that n(1) fs_pieces(3)[OF f n(1) i(2)] by blast
qed

lemma sim_ucast_eq:
  assumes "sim c A" "nodes A i = Some n" "nodes A j = Some x" "(ucast i :: u32) = ucast j"
  shows "i = j"
  using valid_inject[OF simD(2)[OF assms(1,2)] simD(2)[OF assms(1,3)]] assms(4) by simp

lemma sim_table_leads:
  assumes "sim c A" "allocated c i" "j \<in> tables c i"
  shows "j \<noteq> i \<and> allocated c j"
proof -
  have f: "fs_ok A" using assms(1) by (simp add: sim_def)
  obtain l n x where l: "j = ucast l" "nodes A (ucast i) = Some n" "l \<in> fst ` set (pieces n)" "l \<in> hidden A" "nodes A l = Some x"
    using assms by (rule sim_piece)
  obtain b where "nodes A l = Some (Bytes Regular (length b) b)" using fs_pieces(1)[OF f l(4)] by blast
  then have "l \<noteq> ucast i" using l(2,3) by auto
  then have "ucast l \<noteq> i" using sim_ucast_eq[OF assms(1) l(5,2)] by auto
  then show ?thesis using sim_is_allocated[OF assms(1) l(5)] l(1) by blast
qed

lemma sim_tables_apart:
  assumes "sim c A" "allocated c i" "allocated c j" "i \<noteq> j"
  shows "tables c i \<inter> tables c j = {}"
proof (rule equals0I)
  have f: "fs_ok A" using assms(1) by (simp add: sim_def)
  fix y assume y: "y \<in> tables c i \<inter> tables c j"
  obtain l n x where l: "y = ucast l" "nodes A (ucast i) = Some n" "l \<in> fst ` set (pieces n)" "nodes A l = Some x"
    by (rule sim_piece[OF assms(1,2), of y]) (use y in auto)
  obtain l' n' x' where l': "y = ucast l'" "nodes A (ucast j) = Some n'" "l' \<in> fst ` set (pieces n')" "nodes A l' = Some x'"
    by (rule sim_piece[OF assms(1,3), of y]) (use y in auto)
  have "l = l'" using sim_ucast_eq[OF assms(1) l(4) l'(4)] l(1) l'(1) by simp
  then have "(ucast i :: u64) = ucast j" using fs_pieces(4)[OF f l(2) l'(2) l(3)] l'(3) by blast
  then show False using assms(4) by simp
qed

lemma sim_entries:
  assumes "sim c A" "dir_of c p es" "i \<in> fst ` set es"
  shows "i \<noteq> p \<and> i \<le> 1024 \<and> allocated c (ucast i) \<and> (\<forall>j. allocated c j \<longrightarrow> ucast i \<notin> tables c j)"
proof -
  have f: "fs_ok A" using assms(1) by (simp add: sim_def)
  have p: "nodes A p = Some (Directory es)" using sim_dir_of[OF assms(1,2)] .
  obtain n where n: "nodes A i = Some n" "i \<noteq> p" using fs_okD(3)[OF f p assms(3)] by auto
  have "ucast i \<notin> tables c j" if a: "allocated c j" for j
  proof
    assume "ucast i \<in> tables c j"
    with assms(1) a obtain l m x where l: "(ucast i :: u32) = ucast l" "l \<in> hidden A" "nodes A l = Some x" by (rule sim_piece)
    then have "i = l" using sim_ucast_eq[OF assms(1) n(1)] by blast
    then show False using fs_pieces(5)[OF f p assms(3)] l(2) by blast
  qed
  then show ?thesis using n(2) simD(3)[OF assms(1) n(1)] sim_is_allocated[OF assms(1) n(1)] by blast
qed

lemma sim_consistent:
  assumes "sim c A"
  shows "consistent c"
proof -
  have r: "rel {} c A" and f: "fs_ok A" using assms by (simp_all add: sim_def)
  have names: "distinct (map snd es)" if "dir_of c p es" for p es
    using fs_okD(2)[OF f sim_dir_of[OF assms that]] by blast
  have one: "fst ` set es \<inter> fst ` set fs = {}" if "dir_of c p es" "dir_of c q fs" "p \<noteq> q" for p q es fs
    using fs_okD(4)[OF f sim_dir_of[OF assms that(1)] sim_dir_of[OF assms that(2)]] that(3) by blast
  show ?thesis
    unfolding consistent_def
  proof (intro conjI)
    show "ok c" using r by (rule relD(1))
  qed (use sim_own[OF assms] in blast, use sim_own_apart[OF assms] in blast, use sim_table_leads[OF assms] in blast,
      use sim_tables_apart[OF assms] in blast, use names sim_entries[OF assms] in blast, use one in blast)
qed

text \<open>
  C2: Every run of covered requests from a new disk leaves a consistent disk, whose free blocks are as many
  as the specification says.
\<close>

theorem runs_stay_consistent:
  assumes "spec_run (fs_step bt de ds) qs fs_init = Some (rs, B)"
  shows "\<exists>c as c'. chfs_init clk = Inr (Some c) \<and> server_run (fuseserver_oper bt de ds) qs c = Inr (as, c')
    \<and> consistent c' \<and> card (free_blocks c') = room B"
proof -
  obtain c as c' where c: "chfs_init clk = Inr (Some c)" "server_run (fuseserver_oper bt de ds) qs c = Inr (map Some as, c')"
    "sim c' B" using assms by (rule server_refines[of bt de ds qs rs B clk])
  moreover have "card (free_blocks c') = room B" using relD(3)[of "{}" c' B] c(3) by (simp add: sim_def)
  ultimately show ?thesis using sim_consistent by blast
qed

theorem runs_stay_consistent_witness:
  "\<exists>c as c'. chfs_init (\<lambda>n. 0) = Inr (Some c)
     \<and> server_run (fuseserver_oper 8 (\<lambda>n st e. n) (\<lambda>n. n)) example_run c = Inr (as, c') \<and> consistent c'"
  using example_runs[of "\<lambda>n st e. n" "\<lambda>n. n"] runs_stay_consistent by blast

subsection \<open>Truncated bytes\<close>

lemma untimed_buf: "untimed_reply a = Reply_buf d \<Longrightarrow> a = Reply_buf d"
  by (cases a) simp_all

definition shrink_and_grow :: "bytes \<Rightarrow> bytes \<Rightarrow> u64 \<Rightarrow> u32 \<Rightarrow> request list" where
  "shrink_and_grow name d n to_set = [Create 1 name, Write 2 d n 0, Setattr 2 (zero_stat\<lparr>st_size := 0\<rparr>) to_set,
     Setattr 2 (zero_stat\<lparr>st_size := n\<rparr>) to_set, Read 2 n 0]"

text \<open>
  C3: A file that is truncated to size 0 and then grown again to its old size reads as before it was
  truncated, where zero bytes were due.
\<close>

theorem truncated_bytes_return:
  assumes "name_ok name" "length d \<le> 51200" "d \<noteq> []" "last d \<noteq> 0" "bt AND to_set \<noteq> 0"
  shows "\<exists>c as c'. chfs_init clk = Inr (Some c)
    \<and> server_run (fuseserver_oper bt de ds) (shrink_and_grow name d (of_nat (length d)) to_set) c = Inr (as, c')
    \<and> last as = Some (Reply_buf d)"
proof -
  let ?n = "of_nat (length d) :: u64"
  have n: "unat ?n = length d" using assms(2) by (simp add: unat_of_nat take_bit_nat_eq_self)
  have m: "n_blocks (int (length d)) \<le> 100" using assms(2) n_blocks_gt[of "int (length d)"] by simp
  have w: "write_at 0 d [] = d" by (simp add: write_at_def)
  have c: "content (n_blocks (int (length d))) (chunks d) = d"
    using content_chunks[of d "[]"] strip0_id[of d] assms(4) by (simp add: blocks_for_def)
  obtain rs B where run: "spec_run (fs_step bt de ds) (shrink_and_grow name d ?n to_set) fs_init = Some (rs, B)" "last rs = Reply_buf d"
    unfolding shrink_and_grow_def using assms n m
    by (simp add: fs_init_def fs_make_def fresh_2 made_def fs_write_def fs_put_def w fs_resize_def fs_read_def c blocks_for_def
        Let_def content_def[of 0])
  obtain c as c' where s: "chfs_init clk = Inr (Some c)"
    "server_run (fuseserver_oper bt de ds) (shrink_and_grow name d ?n to_set) c = Inr (map Some as, c')" "map untimed_reply as = rs"
    using run(1) by (rule server_refines[of bt de ds _ rs B clk])
  have "rs \<noteq> []" using run(1) by (auto simp: shrink_and_grow_def Option.bind_eq_Some_conv)
  then have "as \<noteq> []" using s(3) by auto
  moreover from this have "untimed_reply (last as) = Reply_buf d" using s(3) run(2) last_map[of as untimed_reply] by simp
  ultimately have "last (map Some as) = Some (Reply_buf d)" using untimed_buf by (simp add: last_map)
  then show ?thesis using s(1,2) by blast
qed

theorem truncated_bytes_return_witness:
  "\<exists>c as c'. chfs_init (\<lambda>n. 0) = Inr (Some c)
     \<and> server_run (fuseserver_oper 8 (\<lambda>n st e. n) (\<lambda>n. n)) (shrink_and_grow [97] [1, 2, 3] 3 8) c = Inr (as, c')
     \<and> last as = Some (Reply_buf [1, 2, 3])"
  using truncated_bytes_return[of "[97]" "[1, 2, 3]" 8 8] by (simp add: name_ok_def)

subsection \<open>Grown files\<close>

lemma n_blocks_pred: "0 < k \<Longrightarrow> n_blocks (int k) = Suc ((k - 1) div 512)"
  unfolding n_blocks_nat by (cases k) (simp_all add: div_Suc)

lemma init_unique: "chfs_init clk = Inr (Some c) \<Longrightarrow> sim c fs_init"
  by (rule sim_init[of clk]) simp

lemma sim_room: "sim c A \<Longrightarrow> card (free_blocks c) = room A"
  using relD(3)[of "{}" c A] by (simp add: sim_def)

lemma bytes_none:
  assumes "sim c A" "nodes A i = Some (Bytes k n [])"
  shows "unat (isize (inode_at c (ucast i))) = n" "take 100 (iblocks (inode_at c (ucast i))) = replicate 100 0"
proof -
  have n: "node_at c (ucast i) (Bytes k n [])" using assms by (rule simD(4))
  then have "holds c (ucast i) (file_ptrs c (ucast i))" "file_ptrs c (ucast i) = []" "unat (isize (inode_at c (ucast i))) = n"
    by (auto simp: node_at_def)
  then show "unat (isize (inode_at c (ucast i))) = n" "take 100 (iblocks (inode_at c (ucast i))) = replicate 100 0"
    by (simp_all add: holds_def)
qed

text \<open>
  C4: A new file that is grown to a size of at most 51200 has the number of blocks for it in its inode and
  no block: all its pointers are 0, and the only block that is gone is that of its name. SETATTR answers with the
  first byte of the last block as its size, whatever size was asked for, and the file reads as empty.
\<close>

theorem grown_file_is_empty:
  assumes "name_ok name" "0 < n" "n \<le> 51200" "bt AND to_set \<noteq> 0"
  shows "\<exists>c e st c'. chfs_init clk = Inr (Some c)
    \<and> server_run (fuseserver_oper bt de ds) [Create 1 name, Setattr 2 (zero_stat\<lparr>st_size := n\<rparr>) to_set, Read 2 n 0] c
        = Inr ([Some (Reply_create e), Some (Reply_attr st), Some (Reply_buf [])], c')
    \<and> unat (st_size st) = 512 * ((unat n - 1) div 512) + 1
    \<and> unat (isize (inode_at c' 2)) = (unat n - 1) div 512 + 1 \<and> take 100 (iblocks (inode_at c' 2)) = replicate 100 0
    \<and> card (free_blocks c') + 1 = card (free_blocks c)"
proof -
  let ?k = "n_blocks (int (unat n))"
  have n: "0 < unat n" "unat n \<le> 51200" using assms(2,3) by (simp_all add: word_le_nat_alt unat_gt_0)
  have k: "?k = Suc ((unat n - 1) div 512)" using n(1) by (rule n_blocks_pred)
  have size: "size_of ?k [] = 512 * ((unat n - 1) div 512) + 1" unfolding k by (simp add: size_of_def)
  let ?qs = "[Create 1 name, Setattr 2 (zero_stat\<lparr>st_size := n\<rparr>) to_set, Read 2 n 0]"
  obtain B where run: "spec_run (fs_step bt de ds) ?qs fs_init
      = Some ([Reply_create (entry_of 2 (node_stat 2 (Bytes Regular 0 []))), Reply_attr (node_stat 2 (Bytes Regular ?k [])), Reply_buf []], B)"
    and B: "nodes B 2 = Some (Bytes Regular ?k [])" "room B = 2095611"
    using assms(1,4) n by (simp add: fs_init_def fs_make_def fresh_2 made_def fs_resize_def fs_read_def content_def)
  obtain c as c' where s: "chfs_init clk = Inr (Some c)" "server_run (fuseserver_oper bt de ds) ?qs c = Inr (map Some as, c')"
    "map untimed_reply as = [Reply_create (entry_of 2 (node_stat 2 (Bytes Regular 0 []))),
       Reply_attr (node_stat 2 (Bytes Regular ?k [])), Reply_buf []]" "sim c' B"
    using run by (rule server_refines[of bt de ds _ _ B clk])
  obtain a1 a2 a3 where as: "as = [a1, a2, a3]" using s(3) by (auto simp: Cons_eq_map_conv eq_commute[of "map _ _"])
  obtain e where "a1 = Reply_create e" using s(3) unfolding as by (cases a1) simp_all
  moreover obtain st where st: "a2 = Reply_attr st" "untimed st = node_stat 2 (Bytes Regular ?k [])"
    using s(3) unfolding as by (cases a2) simp_all
  moreover have "a3 = Reply_buf []" using s(3) untimed_buf unfolding as by simp
  moreover have "unat (st_size st) = 512 * ((unat n - 1) div 512) + 1"
  proof -
    have "st_size st = st_size (untimed st)" by (simp add: untimed_def)
    also have "\<dots> = of_nat (512 * ((unat n - 1) div 512) + 1)" unfolding st(2) using size by (simp add: node_stat_def file_stat_def)
    finally have st: "st_size st = of_nat (512 * ((unat n - 1) div 512) + 1)" .
    have "unat (of_nat l :: u64) = l" if "l \<le> 51200" for l using that by (simp add: unat_of_nat take_bit_nat_eq_self)
    from this[of "512 * ((unat n - 1) div 512) + 1"] show ?thesis unfolding st using n by linarith
  qed
  moreover have "unat (isize (inode_at c' 2)) = (unat n - 1) div 512 + 1" "take 100 (iblocks (inode_at c' 2)) = replicate 100 0"
    using bytes_none[OF s(4) B(1)] unfolding k by simp_all
  moreover have "card (free_blocks c') + 1 = card (free_blocks c)"
    using sim_room[OF s(4)] sim_room[OF init_unique[OF s(1)]] B(2) by (simp add: fs_init_def)
  ultimately show ?thesis using s(1,2) unfolding as by auto
qed

theorem grown_file_is_empty_witness:
  "\<exists>c e st c'. chfs_init (\<lambda>n. 0) = Inr (Some c)
     \<and> server_run (fuseserver_oper 8 (\<lambda>n st e. n) (\<lambda>n. n)) [Create 1 [97], Setattr 2 (zero_stat\<lparr>st_size := 1000\<rparr>) 8, Read 2 1000 0] c
         = Inr ([Some (Reply_create e), Some (Reply_attr st), Some (Reply_buf [])], c')
     \<and> unat (st_size st) = 513 \<and> isize (inode_at c' 2) = 2 \<and> card (free_blocks c') + 1 = card (free_blocks c)"
proof -
  have h: "name_ok [97]" "0 < (1000 :: u64)" "1000 \<le> (51200 :: u64)" "8 AND 8 \<noteq> (0 :: u32)" by (simp_all add: name_ok_def)
  obtain c e st c' where r: "chfs_init (\<lambda>n. 0) = Inr (Some c)"
    "server_run (fuseserver_oper 8 (\<lambda>n st e. n) (\<lambda>n. n)) [Create 1 [97], Setattr 2 (zero_stat\<lparr>st_size := 1000\<rparr>) 8, Read 2 1000 0] c
      = Inr ([Some (Reply_create e), Some (Reply_attr st), Some (Reply_buf [])], c')"
    and n: "unat (st_size st) = 512 * ((unat (1000 :: u64) - 1) div 512) + 1"
      "unat (isize (inode_at c' 2)) = (unat (1000 :: u64) - 1) div 512 + 1" "card (free_blocks c') + 1 = card (free_blocks c)"
    using grown_file_is_empty[OF h, of "\<lambda>n. 0" "\<lambda>n st e. n" "\<lambda>n. n"] by blast
  have "isize (inode_at c' 2) = 2" "unat (st_size st) = 513" using n(1,2) by (simp_all add: word_unat_eq_iff)
  then show ?thesis using r n(3) by blast
qed

end
