(* ===== verification/Fuse_Main.thy ===== *)
theory Fuse_Main imports Fs_Properties begin

text \<open>
  \<open>main\<close> of \<open>fuse.cc\<close>: the arguments, the file system, and the session loop of libfuse, which calls the handlers
  with one request after the other until the file system is unmounted. What libfuse does is an argument: what
  it makes of the arguments and the mount point it is given, which of its calls fail, and the requests that arrive.
  The seeding of \<open>myid\<close>, which nothing reads, is left out.
\<close>

record libfuse =
  parse_cmdline :: "bytes list \<Rightarrow> bytes \<Rightarrow> int \<times> bytes list \<times> bytes"
  mount_at :: "bytes \<Rightarrow> bytes list \<Rightarrow> int"
  lowlevel_new :: "bytes list \<Rightarrow> bool"
  kern_chan_new :: "int \<Rightarrow> bool"
  requests :: "request list"
  loop_err :: int

text \<open>The program, the mount point and \<open>-d\<close>.\<close>

definition fuse_args :: "bytes list \<Rightarrow> bytes list" where
  "fuse_args argv = [argv ! 0, argv ! 1, [45, 100]]"

text \<open>
  The exit status and the answers. The constructor of \<open>inode_manager\<close> may exit the process, with status 0.
\<close>

definition fuse_main :: "u32 \<Rightarrow> (bytes \<Rightarrow> stat \<Rightarrow> u64 \<Rightarrow> bytes) \<Rightarrow> (nat \<Rightarrow> nat) \<Rightarrow> (nat \<Rightarrow> u32) \<Rightarrow> libfuse \<Rightarrow> bytes list
    \<Rightarrow> fault + int \<times> reply option list" where
  "fuse_main bt de ds clk lib argv =
     (if length argv \<noteq> 2 then Inr (1, [])
      else bindF (chfs_init clk) (\<lambda>r. case r of
        None \<Rightarrow> Inr (0, [])
      | Some chfs \<Rightarrow>
          let (res, args, mountpoint) = parse_cmdline lib (fuse_args argv) (argv ! 1)
          in if res = - 1 then Inr (0, [])
          else let fd = mount_at lib mountpoint args
          in if fd = - 1 then Inr (1, [])
          else if \<not> lowlevel_new lib args then Inr (1, [])
          else if \<not> kern_chan_new lib fd then Inr (1, [])
          else bindF (server_run (fuseserver_oper bt de ds) (requests lib) chfs) (\<lambda>(replies, _).
            Inr (if loop_err lib \<noteq> 0 then 1 else 0, replies))))"

text \<open>Whether libfuse gets as far as the session loop.\<close>

definition mounts :: "libfuse \<Rightarrow> bytes list \<Rightarrow> bool" where
  "mounts lib argv = (let (res, args, mountpoint) = parse_cmdline lib (fuse_args argv) (argv ! 1); fd = mount_at lib mountpoint args
     in res \<noteq> - 1 \<and> fd \<noteq> - 1 \<and> lowlevel_new lib args \<and> kern_chan_new lib fd)"

text \<open>
  C6: Mounted by libfuse, the process answers every run of covered requests as the specification does and
  exits with the status of the session loop; it stops before it has served anything when the number of
  arguments is wrong or libfuse does not get as far as the loop, and then with status 1 unless it was the
  parsing of the command line that failed.
\<close>

theorem main_serves_spec:
  assumes "spec_run (fs_step bt de ds) (requests lib) fs_init = Some (rs, B)"
  shows "\<exists>status replies. fuse_main bt de ds clk lib argv = Inr (status, replies)
    \<and> (if length argv = 2 \<and> mounts lib argv
       then map (map_option untimed_reply) replies = map Some rs \<and> (status = 0) = (loop_err lib = 0)
       else replies = [] \<and> (status = 0) = (length argv = 2 \<and> fst (parse_cmdline lib (fuse_args argv) (argv ! 1)) = - 1))"
proof -
  obtain c as c' where c: "chfs_init clk = Inr (Some c)"
    "server_run (fuseserver_oper bt de ds) (requests lib) c = Inr (map Some as, c')" "map untimed_reply as = rs"
    using assms by (rule server_refines[of bt de ds _ rs B clk])
  have "map (map_option untimed_reply) (map Some as) = map Some rs" using c(3) by auto
  then show ?thesis using c(1,2) by (simp add: fuse_main_def mounts_def Let_def split_beta)
qed

definition some_libfuse :: "request list \<Rightarrow> libfuse" where
  "some_libfuse qs = \<lparr>parse_cmdline = \<lambda>args p. (0, args, p), mount_at = \<lambda>p args. 3, lowlevel_new = \<lambda>args. True,
     kern_chan_new = \<lambda>fd. True, requests = qs, loop_err = 0\<rparr>"

theorem main_serves_spec_witness:
  "\<exists>replies. fuse_main 8 (\<lambda>n st e. n) (\<lambda>n. n) (\<lambda>n. 0) (some_libfuse example_run) [[97], [98]] = Inr (0, replies)
     \<and> map (map_option untimed_reply) replies = map Some example_answers"
proof -
  obtain B where run: "spec_run (fs_step 8 (\<lambda>n st e. n) (\<lambda>n. n)) (requests (some_libfuse example_run)) fs_init = Some (example_answers, B)"
    using example_runs by (auto simp: some_libfuse_def)
  from main_serves_spec[OF this, where clk = "\<lambda>n. 0" and argv = "[[97], [98]]"] show ?thesis
    by (auto simp: mounts_def some_libfuse_def)
qed

end
