(* ===== verification/Fs_Large_Properties.thy ===== *)
theory Fs_Large_Properties imports Fs_Properties begin

text \<open>A large file through the server, from its creation to its removal.\<close>

subsection \<open>Pieces of a text\<close>

lemma fresh_None: "fresh A = None \<Longrightarrow> valid_id i \<Longrightarrow> nodes A i \<noteq> None"
proof -
  assume "fresh A = None" and i: "valid_id i"
  then have f: "\<forall>j \<in> of_nat ` {1..<1025}. nodes A j \<noteq> None" by (auto simp: fresh_def find_None_iff simp del: of_nat_Suc)
  have "unat i \<in> {1..<1025}" using i by (auto simp: valid_id_def word_le_nat_alt unat_gt_0 Suc_le_eq)
  moreover have "i = of_nat (unat i)" by simp
  ultimately have "i \<in> of_nat ` {1..<1025}" by blast
  then show ?thesis using f by blast
qed

definition free_ids :: "fs \<Rightarrow> u64 set" where
  "free_ids A = {i. valid_id i \<and> nodes A i = None}"

lemma add_pieces_returns:
  "length bss \<le> card (free_ids A) \<Longrightarrow>
   \<exists>ps B. add_pieces bss A = Some (ps, B) \<and> room B = room A - sum_list (map length bss)"
proof (induction bss arbitrary: A)
  case (Cons b bss)
  obtain i where i: "fresh A = Some i"
  proof (cases "fresh A")
    case None
    then have "free_ids A = {}" using fresh_None by (auto simp: free_ids_def)
    then show ?thesis using Cons.prems by simp
  qed (rule that)
  let ?C = "A\<lparr>nodes := (nodes A)(i \<mapsto> Bytes Regular (length b) b), room := room A - length b, hidden := insert i (hidden A)\<rparr>"
  have "free_ids ?C = free_ids A - {i}" "i \<in> free_ids A" using fresh_Some[OF i] by (auto simp: free_ids_def valid_id_def)
  then have "length bss \<le> card (free_ids ?C)" using Cons.prems by simp
  from Cons.IH[OF this] obtain ps B where "add_pieces bss ?C = Some (ps, B)" "room B = room ?C - sum_list (map length bss)" by blast
  then show ?case using i by simp
qed simp

lemma many_ids: "nodes A = [1 \<mapsto> x, 2 \<mapsto> y] \<Longrightarrow> 126 \<le> card (free_ids A)"
proof -
  assume A: "nodes A = [1 \<mapsto> x, 2 \<mapsto> y]"
  have "inj_on (of_nat :: nat \<Rightarrow> u64) {3..<1025}" by (rule inj_on_inverseI[of _ unat]) (simp add: unat_of_nat)
  then have "card ((of_nat :: nat \<Rightarrow> u64) ` {3..<1025}) = 1022" by (simp add: card_image)
  moreover have "(of_nat :: nat \<Rightarrow> u64) ` {3..<1025} \<subseteq> free_ids A"
    using A by (auto simp: free_ids_def valid_id_def word_unat_eq_iff word_le_nat_alt unat_of_nat)
  then have "card ((of_nat :: nat \<Rightarrow> u64) ` {3..<1025}) \<le> card (free_ids A)" by (intro card_mono) simp_all
  ultimately show ?thesis by simp
qed

lemma large_content:
  assumes "map snd ps = tail_chunks d" "51200 < length d" "length d \<le> 6502400" "0 \<notin> set d"
  shows "bytes_of (Large k (take 100 (chunks d)) ps) = Some d"
proof -
  let ?n = "(length d - 1) div 51200"
  have n: "length d \<le> 51200 * (?n + 1)" "?n \<le> 127" using assms(2,3) by simp_all
  have "100 \<le> blocks_for d" using n_blocks_gt[of "int (length d)"] assms(2) by (simp add: blocks_for_def)
  then have "take 100 (chunks d) = map (nth_block d) [0..<100]" by (simp add: chunks_def take_map take_upt)
  then have direct: "concat (take 100 (chunks d)) = take 51200 d" using concat_nth_blocks[of d 100] assms(2) by simp
  have "map (\<lambda>(i, b). content (length b) b) ps = map (\<lambda>b. content (length b) b) (map snd ps)" by (simp add: case_prod_beta comp_def)
  also have "\<dots> = map (\<lambda>l. strip0 (chunk d l)) [0..<?n]"
    unfolding assms(1) tail_chunks_def using content_chunks[of _ "[]"] by simp
  finally have pieces: "map (\<lambda>(i, b). content (length b) b) ps = map (\<lambda>l. strip0 (chunk d l)) [0..<?n]" .
  have "strip0 (take 51200 d @ concat (map (\<lambda>l. strip0 (chunk d l)) [0..<?n])) = d"
    using read_back_upto[OF n assms(2)] read_back_nonzero[OF assms(4)] by simp
  then show ?thesis by (simp add: direct pieces)
qed

lemma tail_count:
  assumes "51200 < length d" "length d \<le> 6502400"
  shows "length (tail_chunks d) \<le> 126" "blocks_for d = 100 + sum_list (map length (tail_chunks d))"
proof -
  show "length (tail_chunks d) \<le> 126" using assms(2) by (simp add: tail_chunks_def)
  have "length d \<le> 51200 * ((length d - 1) div 51200 + 1)" using assms(1) by simp
  from tail_blocks[OF this, of 0] have "sum_list (map (\<lambda>l. blocks_for (chunk d l)) [0..<(length d - 1) div 51200])
      = n_blocks (int (length d) - 51200)" using assms(1) by simp
  moreover have "map length (tail_chunks d) = map (\<lambda>l. blocks_for (chunk d l)) [0..<(length d - 1) div 51200]"
    by (simp add: tail_chunks_def)
  ultimately show "blocks_for d = 100 + sum_list (map length (tail_chunks d))"
    using n_blocks_split[of "int (length d)"] assms(1) by (simp add: blocks_for_def n_blocks_def[of 51200])
qed

subsection \<open>From creation to removal\<close>

lemma large_run:
  assumes "name_ok name" "51200 < length d" "length d \<le> 6502400" "0 \<notin> set d"
  obtains r0 r1 B where
    "spec_run (fs_step bt de ds) [Create 1 name, Write 2 d (of_nat (length d)) 0, Read 2 (of_nat (length d)) 0, Unlink 1 name] fs_init
      = Some ([r0, r1, Reply_buf d, Reply_err E0], B)"
    "nodes B = [1 \<mapsto> Directory []]" "room B = 2095611"
proof -
  let ?n = "of_nat (length d) :: u64" and ?F = "Bytes Regular 0 []"
  have n: "unat ?n = length d" using assms(3) by (simp add: unat_of_nat take_bit_nat_eq_self)
  let ?A = "\<lparr>nodes = [1 \<mapsto> Directory [(2, name)], 2 \<mapsto> ?F], room = 2095611, hidden = {}\<rparr>"
  have s1: "fs_step bt de ds (Create 1 name) fs_init = Some (made Reply_create ?F (Some 2), ?A)"
    using assms(1) by (simp add: fs_init_def fs_make_def fresh_2 fun_upd_twist)
  have ok: "fs_ok ?A" using fs_step_ok[OF fs_ok_init s1] .
  have "length (tail_chunks d) \<le> card (free_ids ?A)"
    using tail_count(1)[OF assms(2,3)] many_ids[of ?A "Directory [(2, name)]" ?F] by simp
  then obtain ps B where B: "add_pieces (tail_chunks d) ?A = Some (ps, B)" "room B = 2095611 - sum_list (map length (tail_chunks d))"
    using add_pieces_returns by fastforce
  note P = add_piecesD[OF B(1) ok]
  let ?L = "Large Regular (take 100 (chunks d)) ps" and ?C = "B\<lparr>nodes := (nodes B)(2 \<mapsto> Large Regular (take 100 (chunks d)) ps), room := room B - 101\<rparr>"
  have few: "blocks_for d \<le> 12700"
    using n_blocks_int[of "int (length d)"] assms(3) by (simp add: blocks_for_def)
  have "write_at 0 d [] = d" by (simp add: write_at_def)
  then have "fs_write 2 0 d ?A = Some ?C" using assms(2,3) B(1) few by (simp add: fs_write_def fs_put_def content_def)
  then have s2: "fs_step bt de ds (Write 2 d ?n 0) ?A = Some (Reply_write ?n, ?C)" by (simp add: n)
  have "bytes_of ?L = Some d" using large_content[OF P(2) assms(2-4)] .
  then have s3: "fs_step bt de ds (Read 2 ?n 0) ?C = Some (Reply_buf d, ?C)" using assms(3) by (simp add: fs_read_def n)
  have root: "nodes ?C 1 = Some (Directory [(2, name)])" using add_pieces_nodes[OF B(1), of 1] by simp
  let ?D = "(fs_remove 2 ?L ?C)\<lparr>nodes := (nodes (fs_remove 2 ?L ?C))(1 \<mapsto> Directory []), room := room (fs_remove 2 ?L ?C) + 1\<rparr>"
  have s4: "fs_step bt de ds (Unlink 1 name) ?C = Some (Reply_err E0, ?D)"
    using root by (simp add: fs_unlink_def Let_def swap_out_def)
  have "nodes B j = nodes ?A j" if "j \<notin> fst ` set ps" for j
  proof -
    have "map_of ps j = None" using that by (simp only: map_of_eq_None_iff not_False_eq_True)
    then show ?thesis unfolding P(5)[of j] by (simp only: option.case)
  qed
  then have nodes: "nodes ?D = [1 \<mapsto> Directory []]" by (auto simp: fs_remove_def Let_def)
  have "sum_list (map (\<lambda>(i, b). length b) ps) = sum_list (map length (map snd ps))" by (induction ps) auto
  then have "held ?L = 100 + sum_list (map length (tail_chunks d))"
    using tail_count(2)[OF assms(2,3)] by (simp add: P(2))
  then have "room ?D = 2095611" using B(2) few tail_count(2)[OF assms(2,3)] by (simp add: fs_remove_def Let_def)
  then show thesis using that[of "made Reply_create ?F (Some 2)" "Reply_write ?n" ?D] s1 s2 s3 s4 nodes
    by (simp del: fs_step.simps)
qed

text \<open>
  C5: A large text file that is created, written, read and unlinked on a new disk reads back as it was
  written, and leaves only the root behind; its pieces are given back, but not the block of its table.
\<close>

theorem removed_file_leaves_table:
  assumes "name_ok name" "51200 < length d" "length d \<le> 6502400" "0 \<notin> set d"
  shows "\<exists>c as c'. chfs_init clk = Inr (Some c)
    \<and> server_run (fuseserver_oper bt de ds)
        [Create 1 name, Write 2 d (of_nat (length d)) 0, Read 2 (of_nat (length d)) 0, Unlink 1 name] c = Inr (as, c')
    \<and> as ! 2 = Some (Reply_buf d) \<and> as ! 3 = Some (Reply_err E0)
    \<and> {j. allocated c' j} = {1} \<and> card (free_blocks c') + 1 = card (free_blocks c)"
proof -
  let ?qs = "[Create 1 name, Write 2 d (of_nat (length d)) 0, Read 2 (of_nat (length d)) 0, Unlink 1 name]"
  obtain r0 r1 B where run: "spec_run (fs_step bt de ds) ?qs fs_init = Some ([r0, r1, Reply_buf d, Reply_err E0], B)"
    "nodes B = [1 \<mapsto> Directory []]" "room B = 2095611"
    using assms by (rule large_run)
  obtain c as c' where s: "chfs_init clk = Inr (Some c)" "server_run (fuseserver_oper bt de ds) ?qs c = Inr (map Some as, c')"
    "map untimed_reply as = [r0, r1, Reply_buf d, Reply_err E0]" "sim c' B"
    using run(1) by (rule server_refines[of bt de ds _ _ B clk])
  obtain a0 a1 a2 a3 where as: "as = [a0, a1, a2, a3]" using s(3) by (auto simp: Cons_eq_map_conv eq_commute[of "map _ _"])
  have "a2 = Reply_buf d" using s(3) untimed_buf unfolding as by simp
  moreover have "a3 = Reply_err E0" using s(3) unfolding as by (cases a3) simp_all
  moreover have "{j. allocated c' j} = {1}"
  proof (intro equalityI subsetI)
    fix j assume "j \<in> {j. allocated c' j}"
    then have j: "allocated c' j" by simp
    then obtain n where "nodes B (ucast j) = Some n" "node_at c' j n" using sim_allocated[OF s(4)] by blast
    then have "(ucast j :: u64) = 1" using run(2) by (simp split: if_splits)
    then have "unat (ucast j :: u64) = 1" by simp
    then show "j \<in> {1}" by (simp only: unat_size) (simp add: word_unat_eq_iff)
  next
    fix j :: u32 assume "j \<in> {1}"
    then show "j \<in> {j. allocated c' j}"
      using node_at_inode(1,2)[OF simD(4)[OF s(4), of 1]] run(2) by (simp add: allocated_def)
  qed
  moreover have "card (free_blocks c') + 1 = card (free_blocks c)"
    using relD(3)[of "{}" c' B] relD(3)[of "{}" c fs_init] s(4) init_unique[OF s(1)] run(3) by (simp add: sim_def fs_init_def)
  ultimately show ?thesis using s(1,2) unfolding as by auto
qed

theorem removed_file_leaves_table_witness:
  "\<exists>c as c'. chfs_init (\<lambda>n. 0) = Inr (Some c)
    \<and> server_run (fuseserver_oper 8 (\<lambda>n st e. n) (\<lambda>n. n))
        [Create 1 [97], Write 2 (replicate 51201 7) 51201 0, Read 2 51201 0, Unlink 1 [97]] c = Inr (as, c')
    \<and> as ! 2 = Some (Reply_buf (replicate 51201 7)) \<and> card (free_blocks c') + 1 = card (free_blocks c)"
  using removed_file_leaves_table[of "[97]" "replicate 51201 7" "\<lambda>n. 0" 8 "\<lambda>n st e. n" "\<lambda>n. n"]
  by (simp add: name_ok_def) blast

end
