(* ===== verification/Threads.thy ===== *)
theory Threads imports Prelude begin

text \<open>
  \<open>rpc/method_thread.h\<close>: threads that run a method of an object, and \<open>ThrPool::addObjJob\<close> of \<open>rpc/thr_pool.h\<close>,
  jobs that do. Both put the object, the method and its arguments into a box on the heap and pass its
  address as a \<open>void *\<close>; the new thread, or the job, takes them out and deletes the box. A method is a function
  of its object and arguments that changes the world. The results of the pthread calls and the address that
  \<open>new\<close> returns are arguments.
\<close>

subsection \<open>Boxes on the heap\<close>

text \<open>The local classes \<open>XXX\<close> of the four overloads.\<close>

datatype ('c, 'a1, 'a2, 'a3, 'w) box =
    Box_0 'c "'c \<Rightarrow> 'w \<Rightarrow> 'w"
  | Box_1 'c "'c \<Rightarrow> 'a1 \<Rightarrow> 'w \<Rightarrow> 'w" 'a1
  | Box_2 'c "'c \<Rightarrow> 'a1 \<Rightarrow> 'a2 \<Rightarrow> 'w \<Rightarrow> 'w" 'a1 'a2
  | Box_3 'c "'c \<Rightarrow> 'a1 \<Rightarrow> 'a2 \<Rightarrow> 'a3 \<Rightarrow> 'w \<Rightarrow> 'w" 'a1 'a2 'a3

text \<open>The function that a new thread starts in, the \<open>yyy\<close> of one of the classes.\<close>

datatype entry = YYY_0 | YYY_1 | YYY_2 | YYY_3

text \<open>
  A thread has been created with its function and argument, is about to call its method, or has returned.
\<close>

datatype 'w thread = Created entry nat | Calling "'w \<Rightarrow> 'w" | Returned

record ('x, 'w) process =
  cells :: "nat \<Rightarrow> 'x option"
  threads :: "'w thread list"
  world :: 'w

type_synonym ('c, 'a1, 'a2, 'a3, 'w) proc = "(('c, 'a1, 'a2, 'a3, 'w) box, 'w) process"

definition new_box :: "nat \<Rightarrow> 'x \<Rightarrow> ('x, 'w, 'z) process_scheme \<Rightarrow> ('x, 'w, 'z) process_scheme" where
  "new_box x b s = s\<lparr>cells := (cells s)(x \<mapsto> b)\<rparr>"

definition delete_box :: "nat \<Rightarrow> ('x, 'w, 'z) process_scheme \<Rightarrow> fault + ('x, 'w, 'z) process_scheme" where
  "delete_box x s = (if cells s x = None then Inl Out_of_bounds else Inr (s\<lparr>cells := (cells s)(x := None)\<rparr>))"

subsection \<open>Starting a thread\<close>

text \<open>\<open>None\<close> is the call of \<open>exit\<close>. The handle of a thread is its number.\<close>

definition method_thread_parent :: "int \<Rightarrow> int \<Rightarrow> entry \<Rightarrow> nat \<Rightarrow> bool \<Rightarrow> ('x, 'w) process \<Rightarrow> fault + (nat \<times> ('x, 'w) process) option" where
  "method_thread_parent created detached fn arg detach s =
     (if created \<noteq> 0 then Inr None
      else let th = length (threads s); s1 = s\<lparr>threads := threads s @ [Created fn arg]\<rparr>
           in if detach \<and> detached \<noteq> 0 then Inl Aborted else Inr (Some (th, s1)))"

definition method_thread_child :: "int \<Rightarrow> int \<Rightarrow> fault + unit" where
  "method_thread_child cancelstate canceltype = (if cancelstate \<noteq> 0 \<or> canceltype \<noteq> 0 then Inl Aborted else Inr ())"

text \<open>
  Each \<open>yyy\<close> up to the call of the method, which is its result: it copies the members, deletes the box and
  prepares the thread.
\<close>

definition yyy_0 :: "int \<Rightarrow> int \<Rightarrow> nat \<Rightarrow> ('c, 'a1, 'a2, 'a3, 'w) proc \<Rightarrow> fault + ('w \<Rightarrow> 'w) \<times> ('c, 'a1, 'a2, 'a3, 'w) proc" where
  "yyy_0 st ty vvv s = (case cells s vvv of
       Some (Box_0 ob m) \<Rightarrow> bindF (delete_box vvv s) (\<lambda>s1. bindF (method_thread_child st ty) (\<lambda>_. Inr (m ob, s1)))
     | _ \<Rightarrow> Inl Out_of_bounds)"

definition method_thread_0 :: "int \<Rightarrow> int \<Rightarrow> nat \<Rightarrow> 'c \<Rightarrow> bool \<Rightarrow> ('c \<Rightarrow> 'w \<Rightarrow> 'w)
    \<Rightarrow> ('c, 'a1, 'a2, 'a3, 'w) proc \<Rightarrow> fault + (nat \<times> ('c, 'a1, 'a2, 'a3, 'w) proc) option" where
  "method_thread_0 created detached x ob detach m s =
     method_thread_parent created detached YYY_0 x detach (new_box x (Box_0 ob m) s)"

definition yyy_1 :: "int \<Rightarrow> int \<Rightarrow> nat \<Rightarrow> ('c, 'a1, 'a2, 'a3, 'w) proc \<Rightarrow> fault + ('w \<Rightarrow> 'w) \<times> ('c, 'a1, 'a2, 'a3, 'w) proc" where
  "yyy_1 st ty vvv s = (case cells s vvv of
       Some (Box_1 ob m a) \<Rightarrow> bindF (delete_box vvv s) (\<lambda>s1. bindF (method_thread_child st ty) (\<lambda>_. Inr (m ob a, s1)))
     | _ \<Rightarrow> Inl Out_of_bounds)"

definition method_thread_1 :: "int \<Rightarrow> int \<Rightarrow> nat \<Rightarrow> 'c \<Rightarrow> bool \<Rightarrow> ('c \<Rightarrow> 'a1 \<Rightarrow> 'w \<Rightarrow> 'w) \<Rightarrow> 'a1
    \<Rightarrow> ('c, 'a1, 'a2, 'a3, 'w) proc \<Rightarrow> fault + (nat \<times> ('c, 'a1, 'a2, 'a3, 'w) proc) option" where
  "method_thread_1 created detached x ob detach m a s =
     method_thread_parent created detached YYY_1 x detach (new_box x (Box_1 ob m a) s)"

definition yyy_2 :: "int \<Rightarrow> int \<Rightarrow> nat \<Rightarrow> ('c, 'a1, 'a2, 'a3, 'w) proc \<Rightarrow> fault + ('w \<Rightarrow> 'w) \<times> ('c, 'a1, 'a2, 'a3, 'w) proc" where
  "yyy_2 st ty vvv s = (case cells s vvv of
       Some (Box_2 ob m a1 a2) \<Rightarrow> bindF (delete_box vvv s) (\<lambda>s1. bindF (method_thread_child st ty) (\<lambda>_. Inr (m ob a1 a2, s1)))
     | _ \<Rightarrow> Inl Out_of_bounds)"

definition method_thread_2 :: "int \<Rightarrow> int \<Rightarrow> nat \<Rightarrow> 'c \<Rightarrow> bool \<Rightarrow> ('c \<Rightarrow> 'a1 \<Rightarrow> 'a2 \<Rightarrow> 'w \<Rightarrow> 'w) \<Rightarrow> 'a1 \<Rightarrow> 'a2
    \<Rightarrow> ('c, 'a1, 'a2, 'a3, 'w) proc \<Rightarrow> fault + (nat \<times> ('c, 'a1, 'a2, 'a3, 'w) proc) option" where
  "method_thread_2 created detached x ob detach m a1 a2 s =
     method_thread_parent created detached YYY_2 x detach (new_box x (Box_2 ob m a1 a2) s)"

definition yyy_3 :: "int \<Rightarrow> int \<Rightarrow> nat \<Rightarrow> ('c, 'a1, 'a2, 'a3, 'w) proc \<Rightarrow> fault + ('w \<Rightarrow> 'w) \<times> ('c, 'a1, 'a2, 'a3, 'w) proc" where
  "yyy_3 st ty vvv s = (case cells s vvv of
       Some (Box_3 ob m a1 a2 a3) \<Rightarrow> bindF (delete_box vvv s) (\<lambda>s1. bindF (method_thread_child st ty) (\<lambda>_. Inr (m ob a1 a2 a3, s1)))
     | _ \<Rightarrow> Inl Out_of_bounds)"

definition method_thread_3 :: "int \<Rightarrow> int \<Rightarrow> nat \<Rightarrow> 'c \<Rightarrow> bool \<Rightarrow> ('c \<Rightarrow> 'a1 \<Rightarrow> 'a2 \<Rightarrow> 'a3 \<Rightarrow> 'w \<Rightarrow> 'w) \<Rightarrow> 'a1 \<Rightarrow> 'a2 \<Rightarrow> 'a3
    \<Rightarrow> ('c, 'a1, 'a2, 'a3, 'w) proc \<Rightarrow> fault + (nat \<times> ('c, 'a1, 'a2, 'a3, 'w) proc) option" where
  "method_thread_3 created detached x ob detach m a1 a2 a3 s =
     method_thread_parent created detached YYY_3 x detach (new_box x (Box_3 ob m a1 a2 a3) s)"

fun enter :: "entry \<Rightarrow> int \<Rightarrow> int \<Rightarrow> nat \<Rightarrow> ('c, 'a1, 'a2, 'a3, 'w) proc \<Rightarrow> fault + ('w \<Rightarrow> 'w) \<times> ('c, 'a1, 'a2, 'a3, 'w) proc" where
  "enter YYY_0 = yyy_0"
| "enter YYY_1 = yyy_1"
| "enter YYY_2 = yyy_2"
| "enter YYY_3 = yyy_3"

subsection \<open>Threads running side by side\<close>

text \<open>
  \<open>turns w asked made s\<close>: from a process in the world \<open>w\<close> without threads and boxes, \<open>s\<close> is reached
  when the calls \<open>asked\<close> have been asked of \<open>method_thread\<close>, in this order, and the threads have made the calls \<open>made\<close>, each with the
  number of its thread. The turns of the threads come in any order; \<open>new\<close> returns any address that is not in use.
\<close>

inductive turns :: "'w \<Rightarrow> ('w \<Rightarrow> 'w) list \<Rightarrow> (nat \<times> ('w \<Rightarrow> 'w)) list \<Rightarrow> ('c, 'a1, 'a2, 'a3, 'w) proc \<Rightarrow> bool" for w where
  turns_start: "turns w [] [] \<lparr>cells = Map.empty, threads = [], world = w\<rparr>"
| turns_thread_0: "turns w asked made s \<Longrightarrow> cells s x = None \<Longrightarrow> method_thread_0 0 de x ob detach m s = Inr (Some (th, s')) \<Longrightarrow>
    turns w (asked @ [m ob]) made s'"
| turns_thread_1: "turns w asked made s \<Longrightarrow> cells s x = None \<Longrightarrow> method_thread_1 0 de x ob detach m a s = Inr (Some (th, s')) \<Longrightarrow>
    turns w (asked @ [m ob a]) made s'"
| turns_thread_2: "turns w asked made s \<Longrightarrow> cells s x = None \<Longrightarrow> method_thread_2 0 de x ob detach m a b s = Inr (Some (th, s')) \<Longrightarrow>
    turns w (asked @ [m ob a b]) made s'"
| turns_thread_3: "turns w asked made s \<Longrightarrow> cells s x = None \<Longrightarrow> method_thread_3 0 de x ob detach m a b c s = Inr (Some (th, s')) \<Longrightarrow>
    turns w (asked @ [m ob a b c]) made s'"
| turns_enter: "turns w asked made s \<Longrightarrow> t < length (threads s) \<Longrightarrow> threads s ! t = Created fn x \<Longrightarrow>
    enter fn 0 0 x s = Inr (f, s1) \<Longrightarrow> turns w asked made (s1\<lparr>threads := (threads s1)[t := Calling f]\<rparr>)"
| turns_call: "turns w asked made s \<Longrightarrow> t < length (threads s) \<Longrightarrow> threads s ! t = Calling f \<Longrightarrow>
    turns w asked (made @ [(t, f)]) (s\<lparr>world := f (world s), threads := (threads s)[t := Returned]\<rparr>)"

text \<open>The call that a box stands for, and the function that takes it out.\<close>

fun call_of :: "('c, 'a1, 'a2, 'a3, 'w) box \<Rightarrow> 'w \<Rightarrow> 'w" where
  "call_of (Box_0 ob m) = m ob"
| "call_of (Box_1 ob m a) = m ob a"
| "call_of (Box_2 ob m a b) = m ob a b"
| "call_of (Box_3 ob m a b c) = m ob a b c"

fun entry_for :: "('c, 'a1, 'a2, 'a3, 'w) box \<Rightarrow> entry" where
  "entry_for (Box_0 ob m) = YYY_0"
| "entry_for (Box_1 ob m a) = YYY_1"
| "entry_for (Box_2 ob m a b) = YYY_2"
| "entry_for (Box_3 ob m a b c) = YYY_3"

lemma enter_box: "cells s x = Some b \<Longrightarrow> enter (entry_for b) 0 0 x s = Inr (call_of b, s\<lparr>cells := (cells s)(x := None)\<rparr>)"
  by (cases b) (simp_all add: yyy_0_def yyy_1_def yyy_2_def yyy_3_def delete_box_def method_thread_child_def)

lemma enter_eq_Inr:
  "enter fn 0 0 x s = Inr (f, s1) \<Longrightarrow> \<exists>b. cells s x = Some b \<and> fn = entry_for b \<and> f = call_of b \<and> s1 = s\<lparr>cells := (cells s)(x := None)\<rparr>"
  by (cases fn) (auto simp: yyy_0_def yyy_1_def yyy_2_def yyy_3_def delete_box_def method_thread_child_def bindF_eq_Inr
      split: option.splits box.splits if_splits)

lemma parent_eq: "method_thread_parent 0 de fn x detach s = Inr (Some (th, s')) \<Longrightarrow> s' = s\<lparr>threads := threads s @ [Created fn x]\<rparr>"
  by (auto simp: method_thread_parent_def Let_def split: if_splits)

lemma method_thread_eq:
  "method_thread_0 0 de x ob detach m0 s = Inr (Some (th, s')) \<Longrightarrow>
     s' = s\<lparr>cells := (cells s)(x \<mapsto> Box_0 ob m0), threads := threads s @ [Created (entry_for (Box_0 ob m0)) x]\<rparr>"
  "method_thread_1 0 de x ob detach m1 a s = Inr (Some (th, s')) \<Longrightarrow>
     s' = s\<lparr>cells := (cells s)(x \<mapsto> Box_1 ob m1 a), threads := threads s @ [Created (entry_for (Box_1 ob m1 a)) x]\<rparr>"
  "method_thread_2 0 de x ob detach m2 a b s = Inr (Some (th, s')) \<Longrightarrow>
     s' = s\<lparr>cells := (cells s)(x \<mapsto> Box_2 ob m2 a b), threads := threads s @ [Created (entry_for (Box_2 ob m2 a b)) x]\<rparr>"
  "method_thread_3 0 de x ob detach m3 a b c s = Inr (Some (th, s')) \<Longrightarrow>
     s' = s\<lparr>cells := (cells s)(x \<mapsto> Box_3 ob m3 a b c), threads := threads s @ [Created (entry_for (Box_3 ob m3 a b c)) x]\<rparr>"
  by (auto simp: method_thread_0_def method_thread_1_def method_thread_2_def method_thread_3_def new_box_def dest!: parent_eq)

text \<open>
  The invariant: the boxes on the heap are those of the threads that have not taken theirs yet, each with
  its own, and it holds what was asked for.
\<close>

definition boxes_ok :: "('w \<Rightarrow> 'w) list \<Rightarrow> (nat \<times> ('w \<Rightarrow> 'w)) list \<Rightarrow> ('c, 'a1, 'a2, 'a3, 'w) proc \<Rightarrow> bool" where
  "boxes_ok asked made s \<longleftrightarrow> length (threads s) = length asked
     \<and> (\<forall>t < length asked. case threads s ! t of
          Created fn x \<Rightarrow> (\<exists>b. cells s x = Some b \<and> fn = entry_for b \<and> call_of b = asked ! t)
        | Calling f \<Rightarrow> f = asked ! t
        | Returned \<Rightarrow> True)
     \<and> (\<forall>t u fn gn x. t < length asked \<and> u < length asked \<and> threads s ! t = Created fn x \<and> threads s ! u = Created gn x \<longrightarrow> t = u)
     \<and> (\<forall>x. cells s x \<noteq> None \<longrightarrow> (\<exists>t fn. t < length asked \<and> threads s ! t = Created fn x))
     \<and> distinct (map fst made) \<and> (\<forall>(t, f) \<in> set made. t < length asked \<and> f = asked ! t)
     \<and> (\<forall>t < length asked. threads s ! t = Returned \<longleftrightarrow> t \<in> fst ` set made)"

lemma boxes_okD:
  assumes "boxes_ok asked made s"
  shows "length (threads s) = length asked"
    and "t < length asked \<Longrightarrow> threads s ! t = Created fn x \<Longrightarrow> \<exists>b. cells s x = Some b \<and> fn = entry_for b \<and> call_of b = asked ! t"
    and "t < length asked \<Longrightarrow> threads s ! t = Calling f \<Longrightarrow> f = asked ! t"
    and "t < length asked \<Longrightarrow> u < length asked \<Longrightarrow> threads s ! t = Created fn x \<Longrightarrow> threads s ! u = Created gn x \<Longrightarrow> t = u"
    and "cells s x \<noteq> None \<Longrightarrow> \<exists>t fn. t < length asked \<and> threads s ! t = Created fn x"
    and "distinct (map fst made)"
    and "(t, f) \<in> set made \<Longrightarrow> t < length asked \<and> f = asked ! t"
    and "t < length asked \<Longrightarrow> threads s ! t = Returned \<longleftrightarrow> t \<in> fst ` set made"
proof -
  note a = assms[unfolded boxes_ok_def]
  note each = a[THEN conjunct2, THEN conjunct1, rule_format, of t]
  show "length (threads s) = length asked" using a by blast
  show "t < length asked \<Longrightarrow> threads s ! t = Created fn x \<Longrightarrow> \<exists>b. cells s x = Some b \<and> fn = entry_for b \<and> call_of b = asked ! t"
    and "t < length asked \<Longrightarrow> threads s ! t = Calling f \<Longrightarrow> f = asked ! t"
    using each by simp_all
  note r1 = a[THEN conjunct2, THEN conjunct2]
  note r2 = r1[THEN conjunct2]
  note r3 = r2[THEN conjunct2]
  show "t < length asked \<Longrightarrow> u < length asked \<Longrightarrow> threads s ! t = Created fn x \<Longrightarrow> threads s ! u = Created gn x \<Longrightarrow> t = u"
    using r1[THEN conjunct1] by blast
  show "cells s x \<noteq> None \<Longrightarrow> \<exists>t fn. t < length asked \<and> threads s ! t = Created fn x" using r2[THEN conjunct1] by blast
  show "distinct (map fst made)" using r3 by blast
  show "(t, f) \<in> set made \<Longrightarrow> t < length asked \<and> f = asked ! t"
    using r3[THEN conjunct2, THEN conjunct1] by blast
  show "t < length asked \<Longrightarrow> threads s ! t = Returned \<longleftrightarrow> t \<in> fst ` set made"
    using r3[THEN conjunct2, THEN conjunct2] by blast
qed

lemma boxes_okI:
  assumes "length (threads s) = length asked"
    and "\<And>t fn x. t < length asked \<Longrightarrow> threads s ! t = Created fn x \<Longrightarrow> \<exists>b. cells s x = Some b \<and> fn = entry_for b \<and> call_of b = asked ! t"
    and "\<And>t f. t < length asked \<Longrightarrow> threads s ! t = Calling f \<Longrightarrow> f = asked ! t"
    and "\<And>t u fn gn x. t < length asked \<Longrightarrow> u < length asked \<Longrightarrow> threads s ! t = Created fn x \<Longrightarrow> threads s ! u = Created gn x \<Longrightarrow> t = u"
    and "\<And>x. cells s x \<noteq> None \<Longrightarrow> \<exists>t fn. t < length asked \<and> threads s ! t = Created fn x"
    and "distinct (map fst made)"
    and "\<And>t f. (t, f) \<in> set made \<Longrightarrow> t < length asked \<and> f = asked ! t"
    and "\<And>t. t < length asked \<Longrightarrow> threads s ! t = Returned \<longleftrightarrow> t \<in> fst ` set made"
  shows "boxes_ok asked made s"
proof -
  have "case threads s ! t of Created fn x \<Rightarrow> (\<exists>b. cells s x = Some b \<and> fn = entry_for b \<and> call_of b = asked ! t)
      | Calling f \<Rightarrow> f = asked ! t | Returned \<Rightarrow> True" if "t < length asked" for t
    using assms(2,3)[OF that] by (cases "threads s ! t") simp_all
  then show ?thesis unfolding boxes_ok_def using assms(1,4-8) by (intro conjI) blast+
qed

lemma boxes_ok_spawn:
  assumes "boxes_ok asked made s" "cells s x = None"
  shows "boxes_ok (asked @ [call_of b]) made (s\<lparr>cells := (cells s)(x \<mapsto> b), threads := threads s @ [Created (entry_for b) x]\<rparr>)"
    (is "boxes_ok ?asked made ?s")
proof -
  note ok = boxes_okD[OF assms(1)]
  let ?n = "length asked"
  have th: "threads ?s ! t = (if t < ?n then threads s ! t else Created (entry_for b) x)" if "t < length ?asked" for t
    using that ok(1) by (auto simp: nth_append less_Suc_eq)
  have other: "y \<noteq> x" if "t < ?n" "threads s ! t = Created fn y" for t fn y
    using ok(2)[OF that] assms(2) by auto
  show ?thesis
  proof (rule boxes_okI)
    show "length (threads ?s) = length ?asked" using ok(1) by simp
    show "\<exists>c. cells ?s y = Some c \<and> fn = entry_for c \<and> call_of c = ?asked ! t"
      if t: "t < length ?asked" "threads ?s ! t = Created fn y" for t fn y
      using t th[OF t(1)] ok(2)[of t fn y] other[of t fn y] by (cases "t < ?n") (auto simp: nth_append)
    show "f = ?asked ! t" if t: "t < length ?asked" "threads ?s ! t = Calling f" for t f
      using t th[OF t(1)] ok(3)[of t f] by (cases "t < ?n") (auto simp: nth_append)
    show "t = u" if a: "t < length ?asked" "u < length ?asked" "threads ?s ! t = Created fn y" "threads ?s ! u = Created gn y" for t u fn gn y
      using a th[OF a(1)] th[OF a(2)] ok(4)[of t u fn y gn] other[of t fn y] other[of u gn y]
      by (cases "t < ?n"; cases "u < ?n") (auto split: if_splits)
    show "\<exists>t fn. t < length ?asked \<and> threads ?s ! t = Created fn y" if y: "cells ?s y \<noteq> None" for y
    proof (cases "y = x")
      case True
      then show ?thesis using th[of ?n] by (intro exI[of _ ?n]) simp
    next
      case False
      then obtain t fn where "t < ?n" "threads s ! t = Created fn y" using ok(5)[of y] y by auto
      then show ?thesis using th[of t] by (intro exI[of _ t] exI[of _ fn]) simp
    qed
    show "distinct (map fst made)" by (rule ok(6))
    show "t < length ?asked \<and> f = ?asked ! t" if "(t, f) \<in> set made" for t f
      using ok(7)[OF that] by (simp add: nth_append)
    show "threads ?s ! t = Returned \<longleftrightarrow> t \<in> fst ` set made" if t: "t < length ?asked" for t
      using th[OF t] ok(8)[of t] ok(7) by (cases "t < ?n") force+
  qed
qed

lemma boxes_ok_enter:
  assumes "boxes_ok asked made s" "t < length (threads s)" "threads s ! t = Created fn x" "cells s x = Some b"
  shows "boxes_ok asked made (s\<lparr>cells := (cells s)(x := None), threads := (threads s)[t := Calling (call_of b)]\<rparr>)"
    (is "boxes_ok asked made ?s")
proof -
  note ok = boxes_okD[OF assms(1)]
  have t: "t < length asked" using assms(2) ok(1) by simp
  have th: "threads ?s ! u = (if u = t then Calling (call_of b) else threads s ! u)" if "u < length asked" for u
    using that ok(1) by simp
  have b: "call_of b = asked ! t" using ok(2)[OF t assms(3)] assms(4) by simp
  have other: "y \<noteq> x" if "u < length asked" "u \<noteq> t" "threads s ! u = Created gn y" for u gn y
    using ok(4)[OF that(1) t, of gn y fn] that(2,3) assms(3) by auto
  show ?thesis
  proof (rule boxes_okI)
    show "\<exists>c. cells ?s y = Some c \<and> gn = entry_for c \<and> call_of c = asked ! u"
      if u: "u < length asked" "threads ?s ! u = Created gn y" for u gn y
      using u th[OF u(1)] ok(2)[OF u(1), of gn y] other[OF u(1), of gn y] by (auto split: if_splits)
    show "f = asked ! u" if u: "u < length asked" "threads ?s ! u = Calling f" for u f
      using u th[OF u(1)] ok(3)[OF u(1), of f] b by (auto split: if_splits)
    show "u = v" if a: "u < length asked" "v < length asked" "threads ?s ! u = Created hn y" "threads ?s ! v = Created gn y" for u v hn gn y
      using a th[OF a(1)] th[OF a(2)] ok(4)[OF a(1,2), of hn y gn] by (auto split: if_splits)
    show "\<exists>u gn. u < length asked \<and> threads ?s ! u = Created gn y" if y: "cells ?s y \<noteq> None" for y
    proof -
      obtain u gn where u: "u < length asked" "threads s ! u = Created gn y" "y \<noteq> x" using ok(5)[of y] y by (auto split: if_splits)
      then have "u \<noteq> t" using assms(3) by auto
      then show ?thesis using u th[OF u(1)] by auto
    qed
    show "threads ?s ! u = Returned \<longleftrightarrow> u \<in> fst ` set made" if u: "u < length asked" for u
      using th[OF u] ok(8)[OF u] assms(3) by (auto split: if_splits)
  qed (use ok(1,6,7) in simp_all)
qed

lemma boxes_ok_call:
  assumes "boxes_ok asked made s" "t < length (threads s)" "threads s ! t = Calling f"
  shows "boxes_ok asked (made @ [(t, f)]) (s\<lparr>world := w, threads := (threads s)[t := Returned]\<rparr>)"
    (is "boxes_ok asked ?made ?s")
proof -
  note ok = boxes_okD[OF assms(1)]
  have t: "t < length asked" using assms(2) ok(1) by simp
  have th: "threads ?s ! u = (if u = t then Returned else threads s ! u)" if "u < length asked" for u
    using that ok(1) by simp
  have new: "t \<notin> fst ` set made" using ok(8)[OF t] assms(3) by simp
  show ?thesis
  proof (rule boxes_okI)
    show "\<exists>c. cells ?s y = Some c \<and> gn = entry_for c \<and> call_of c = asked ! u"
      if u: "u < length asked" "threads ?s ! u = Created gn y" for u gn y
      using u th[OF u(1)] ok(2)[OF u(1), of gn y] by (auto split: if_splits)
    show "g = asked ! u" if u: "u < length asked" "threads ?s ! u = Calling g" for u g
      using u th[OF u(1)] ok(3)[OF u(1), of g] by (auto split: if_splits)
    show "u = v" if a: "u < length asked" "v < length asked" "threads ?s ! u = Created hn y" "threads ?s ! v = Created gn y" for u v hn gn y
      using a th[OF a(1)] th[OF a(2)] ok(4)[OF a(1,2), of hn y gn] by (auto split: if_splits)
    show "\<exists>u gn. u < length asked \<and> threads ?s ! u = Created gn y" if y: "cells ?s y \<noteq> None" for y
    proof -
      obtain u gn where u: "u < length asked" "threads s ! u = Created gn y" using ok(5)[of y] y by auto
      then have "u \<noteq> t" using assms(3) by auto
      then show ?thesis using u th[OF u(1)] by auto
    qed
    show "threads ?s ! u = Returned \<longleftrightarrow> u \<in> fst ` set ?made" if u: "u < length asked" for u
      using th[OF u] ok(8)[OF u] by auto
    show "u < length asked \<and> g = asked ! u" if "(u, g) \<in> set ?made" for u g
      using that ok(7)[of u g] ok(3)[OF t assms(3)] t by auto
  qed (use ok(1,6) new in simp_all)
qed

lemma turns_boxes_ok: "turns w asked made s \<Longrightarrow> boxes_ok asked made s"
proof (induction rule: turns.induct)
  case turns_start
  show ?case by (simp add: boxes_ok_def)
next
  case (turns_thread_0 asked made s x de ob detach m th s')
  then show ?case using boxes_ok_spawn[of asked made s x "Box_0 ob m"] method_thread_eq(1)[OF turns_thread_0(3)] by simp
next
  case (turns_thread_1 asked made s x de ob detach m a th s')
  then show ?case using boxes_ok_spawn[of asked made s x "Box_1 ob m a"] method_thread_eq(2)[OF turns_thread_1(3)] by simp
next
  case (turns_thread_2 asked made s x de ob detach m a b th s')
  then show ?case using boxes_ok_spawn[of asked made s x "Box_2 ob m a b"] method_thread_eq(3)[OF turns_thread_2(3)] by simp
next
  case (turns_thread_3 asked made s x de ob detach m a b c th s')
  then show ?case using boxes_ok_spawn[of asked made s x "Box_3 ob m a b c"] method_thread_eq(4)[OF turns_thread_3(3)] by simp
next
  case (turns_enter asked made s t fn x f s1)
  then show ?case using enter_eq_Inr[OF turns_enter(4)] boxes_ok_enter[of asked made s t fn x] by auto
next
  case (turns_call asked made s t f)
  then show ?case by (intro boxes_ok_call)
qed

lemma turns_world: "turns w asked made s \<Longrightarrow> world s = fold snd made w"
proof (induction rule: turns.induct)
  case (turns_thread_0 asked made s x de ob detach m th s')
  then show ?case using method_thread_eq(1)[OF turns_thread_0(3)] by simp
next
  case (turns_thread_1 asked made s x de ob detach m a th s')
  then show ?case using method_thread_eq(2)[OF turns_thread_1(3)] by simp
next
  case (turns_thread_2 asked made s x de ob detach m a b th s')
  then show ?case using method_thread_eq(3)[OF turns_thread_2(3)] by simp
next
  case (turns_thread_3 asked made s x de ob detach m a b c th s')
  then show ?case using method_thread_eq(4)[OF turns_thread_3(3)] by simp
next
  case (turns_enter asked made s t fn x f s1)
  then show ?case using enter_eq_Inr[OF turns_enter(4)] by auto
qed simp_all

text \<open>
  C7: However the threads take their turns, a thread makes the call that was asked for when it was
  started, at most once and never with another's arguments; no thread finds its box gone, no call stays
  unmade while every thread has returned, and then no box is left on the heap.
\<close>

theorem threads_call_once:
  assumes "turns w asked made s"
  shows "world s = fold snd made w \<and> distinct (map fst made) \<and> (\<forall>(t, f) \<in> set made. t < length asked \<and> f = asked ! t)
    \<and> (\<forall>t fn x. t < length asked \<and> threads s ! t = Created fn x \<longrightarrow> (\<exists>s1. enter fn 0 0 x s = Inr (asked ! t, s1)))
    \<and> ((\<forall>t < length asked. threads s ! t = Returned) \<longrightarrow> fst ` set made = {..<length asked} \<and> cells s = Map.empty)"
proof -
  note ok = boxes_okD[OF turns_boxes_ok[OF assms]]
  have "\<exists>s1. enter fn 0 0 x s = Inr (asked ! t, s1)" if "t < length asked" "threads s ! t = Created fn x" for t fn x
    using ok(2)[OF that] enter_box[of s x] by auto
  moreover have "fst ` set made = {..<length asked} \<and> cells s = Map.empty" if r: "\<forall>t < length asked. threads s ! t = Returned"
  proof
    show "fst ` set made = {..<length asked}" using ok(7,8) r by force
    have "cells s x = None" for x using ok(5)[of x] r by (cases "cells s x") auto
    then show "cells s = Map.empty" by blast
  qed
  ultimately show ?thesis using ok(6,7) turns_world[OF assms] by blast
qed

theorem threads_call_once_witness:
  "\<exists>s :: (unit, nat, unit, unit, nat) proc. turns 0 [(+) 5] [(0, (+) 5)] s \<and> world s = 5 \<and> cells s = Map.empty"
proof -
  let ?s0 = "\<lparr>cells = Map.empty, threads = [], world = 0\<rparr> :: (unit, nat, unit, unit, nat) proc"
  let ?m = "\<lambda>(_ :: unit) (a :: nat) (w :: nat). a + w"
  let ?s1 = "\<lparr>cells = [7 \<mapsto> Box_1 () ?m 5], threads = [Created YYY_1 7], world = 0\<rparr> :: (unit, nat, unit, unit, nat) proc"
  have "turns 0 [] [] ?s0" by (rule turns_start)
  then have "turns 0 ([] @ [?m () 5]) [] ?s1"
    by (rule turns_thread_1[where x = 7 and de = 0 and detach = True and th = 0])
      (simp_all add: method_thread_1_def method_thread_parent_def new_box_def Let_def)
  then have "turns 0 [?m () 5] [] (?s1\<lparr>cells := Map.empty\<rparr>\<lparr>threads := [Calling (?m () 5)]\<rparr>)"
    using turns_enter[of 0 "[?m () 5]" "[]" ?s1 0 YYY_1 7 "?m () 5" "?s1\<lparr>cells := Map.empty\<rparr>"]
    by (simp add: yyy_1_def delete_box_def method_thread_child_def)
  then have "turns 0 [?m () 5] [(0, ?m () 5)]
      (\<lparr>cells = Map.empty, threads = [Returned], world = 5\<rparr> :: (unit, nat, unit, unit, nat) proc)"
    using turns_call[of 0 "[?m () 5]" "[]" "?s1\<lparr>cells := Map.empty\<rparr>\<lparr>threads := [Calling (?m () 5)]\<rparr>" 0 "?m () 5"]
    by simp
  then obtain s :: "(unit, nat, unit, unit, nat) proc" where s: "turns 0 [(+) 5] [(0, (+) 5)] s" "threads s = [Returned]"
    by (metis process.select_convs(2))
  from threads_call_once[OF s(1)] s show ?thesis by (intro exI[of _ s]) simp
qed

subsection \<open>Jobs of the thread pool\<close>

text \<open>
  \<open>addJob\<close> is in the library: it is an argument, which takes the address of the box and the queue of the pool
  and tells whether it has put the job there.
\<close>

datatype ('c, 'a, 'w) job_box = Job_box 'c "'c \<Rightarrow> 'a \<Rightarrow> 'w \<Rightarrow> 'w" 'a

record ('x, 'w, 'q) pool = "('x, 'w) process" +
  jobq :: 'q

definition addObjJob :: "(nat \<Rightarrow> 'q \<Rightarrow> bool \<times> 'q) \<Rightarrow> nat \<Rightarrow> 'c \<Rightarrow> ('c \<Rightarrow> 'a \<Rightarrow> 'w \<Rightarrow> 'w) \<Rightarrow> 'a
    \<Rightarrow> (('c, 'a, 'w) job_box, 'w, 'q) pool \<Rightarrow> bool \<times> (('c, 'a, 'w) job_box, 'w, 'q) pool" where
  "addObjJob addJob x ob m a s =
     (let s1 = new_box x (Job_box ob m a) s; (added, q) = addJob x (jobq s1) in (added, s1\<lparr>jobq := q\<rparr>))"

definition objfunc_wrapper_func :: "nat \<Rightarrow> (('c, 'a, 'w) job_box, 'w, 'q) pool \<Rightarrow> fault + (('c, 'a, 'w) job_box, 'w, 'q) pool" where
  "objfunc_wrapper_func vvv s = (case cells s vvv of
       Some (Job_box ob m a) \<Rightarrow> delete_box vvv (s\<lparr>world := m ob a (world s)\<rparr>)
     | None \<Rightarrow> Inl Out_of_bounds)"

text \<open>
  A job that was added runs its method on its argument in whatever state it is taken, and frees its box; a
  job that was refused leaves its box on the heap, and nothing has its address.
\<close>

lemma job_runs_or_leaks:
  assumes "cells s x = None" "addObjJob addJob x ob m a s = (added, s')"
  shows "added = fst (addJob x (jobq s)) \<and> cells s' x = Some (Job_box ob m a)
    \<and> (\<forall>t. cells t x = cells s' x \<longrightarrow>
         objfunc_wrapper_func x t = Inr (t\<lparr>world := m ob a (world t), cells := (cells t)(x := None)\<rparr>))"
  using assms by (auto simp: addObjJob_def new_box_def objfunc_wrapper_func_def delete_box_def Let_def split: prod.splits)

end
