(* ===== verification/Pointer_Safety.thy ===== *)
theory Pointer_Safety imports Fuse_Properties begin

text \<open>
  What every request keeps, whatever its arguments are, large files and overflowing directories included: no
  inode comes to point into the bitmap or the inode table. A method that may fail is described by what holds after it
  (\<open>after\<close>), and the collection \<open>wp\<close> has the rule of each.
\<close>

named_theorems wp "what is left to show after a step that may fail"

subsection \<open>What holds after a step that may fail\<close>

definition after :: "fault + 'a \<Rightarrow> ('a \<Rightarrow> bool) \<Rightarrow> bool" where
  "after r P \<longleftrightarrow> (\<forall>x. r = Inr x \<longrightarrow> P x)"

lemma after_simps [simp]:
  "after (Inl e) P" "after (Inr x) P \<longleftrightarrow> P x" "after (bindF r f) P \<longleftrightarrow> after r (\<lambda>x. after (f x) P)"
  "after (if c then r1 else r2) P \<longleftrightarrow> (if c then after r1 P else after r2 P)"
  "after (let y = z in g y) P \<longleftrightarrow> (let y = z in after (g y) P)"
  by (auto simp: after_def bindF_eq_Inr Let_def)

lemma after_any: "(\<And>x. P x) \<Longrightarrow> after r P"
  by (simp add: after_def)

lemma after_mono: "after r Q \<Longrightarrow> (\<And>x. Q x \<Longrightarrow> P x) \<Longrightarrow> after r P"
  by (auto simp: after_def)

lemmas after_pure [wp] = after_any[of _ "bm_read b m" for b m] after_any[of _ "copy_in n src" for n src]
  after_any[of _ "dir_block i n" for i n] after_any[of _ "get_ino_block_num i m" for i m]
  after_any[of _ "find_free_inode m" for m] after_any[of _ "get_file_size f i m" for f i m]

subsection \<open>What no request can break\<close>

text \<open>
  The pointers of every inode are 0 or lead to data blocks, and the blocks that belong neither to the bitmap
  nor to the inode table nor to the data are blank: the superblock's and the two in front of the inode table.
\<close>

definition ptr_ok :: "u32 \<Rightarrow> bool" where
  "ptr_ok b \<longleftrightarrow> b = 0 \<or> data_block b"

definition ptrs_ok :: "inode \<Rightarrow> bool" where
  "ptrs_ok x \<longleftrightarrow> length (iblocks x) = 101 \<and> (\<forall>b \<in> set (iblocks x). ptr_ok b)"

definition unused_area :: "u32 set" where
  "unused_area = {1, 514, 515}"

definition safe :: "inode_manager \<Rightarrow> bool" where
  "safe m \<longleftrightarrow> ok m \<and> (\<forall>i. inum_ok i \<longrightarrow> ptrs_ok (inode_at m i)) \<and> (\<forall>b \<in> unused_area. data m b = replicate 512 0)"

lemma safe_ok: "safe m \<Longrightarrow> ok m"
  by (simp add: safe_def)

lemma ptr_ok_zero [simp]: "ptr_ok 0"
  by (simp add: ptr_ok_def)

lemma ptrs_ok_simps [simp]:
  "ptrs_ok (x\<lparr>isize := n\<rparr>) = ptrs_ok x" "ptrs_ok (x\<lparr>mtime := t\<rparr>) = ptrs_ok x" "ptrs_ok (x\<lparr>ctime := t\<rparr>) = ptrs_ok x"
  by (simp_all add: ptrs_ok_def)

lemma ptrs_ok_update [simp]: "ptrs_ok x \<Longrightarrow> ptr_ok b \<Longrightarrow> ptrs_ok (x\<lparr>iblocks := (iblocks x)[i := b]\<rparr>)"
  using set_update_subset_insert[of "iblocks x" i b] by (auto simp: ptrs_ok_def)

lemma ptrs_ok_nth [simp]: "ptrs_ok x \<Longrightarrow> i \<le> 100 \<Longrightarrow> ptr_ok (iblocks x ! i)"
  by (simp add: ptrs_ok_def)

lemma ptrs_ok_take: "ptrs_ok x \<Longrightarrow> b \<in> set (take n (iblocks x)) \<Longrightarrow> ptr_ok b"
  by (auto simp: ptrs_ok_def dest: in_set_takeD)

lemma ptrs_ok_new: "ptrs_ok zero_inode" "ptrs_ok \<lparr>itype = t, isize = n, atime = a, mtime = b, ctime = d, iblocks = replicate 101 0\<rparr>"
  by (simp_all add: ptrs_ok_def zero_inode_def)

lemma safe_time [simp]: "safe (snd (time_now m)) = safe m"
  by (simp add: safe_def)

text \<open>A change of blocks outside of the inode table and of the unused blocks keeps it.\<close>

lemma safe_blocks:
  assumes "safe m" "fmt (bm m')" "\<And>i. inum_ok i \<Longrightarrow> data m' (iblk i) = data m (iblk i)"
    and "\<And>b. b \<in> unused_area \<Longrightarrow> data m' b = data m b"
  shows "safe m'"
  using assms by (simp add: safe_def inode_at_def)

lemma not_unused: "ptr_ok b \<Longrightarrow> b \<notin> unused_area" "inum_ok i \<Longrightarrow> iblk i \<notin> unused_area"
  "b < 2097152 \<Longrightarrow> b div 4096 + 2 \<notin> unused_area"
proof -
  show "ptr_ok b \<Longrightarrow> b \<notin> unused_area" by (auto simp: ptr_ok_def data_block_iff unused_area_def)
  show "inum_ok i \<Longrightarrow> iblk i \<notin> unused_area" using iblk_range[of i] unfolding unused_area_def by unat_arith
  show "b < 2097152 \<Longrightarrow> b div 4096 + 2 \<notin> unused_area" 
  proof -
    assume "b < 2097152"
    moreover have "x \<notin> {1, 514, 515}" if "2 \<le> x \<and> x < 514" for x :: u32 using that by (auto simp: word_less_nat_alt word_le_nat_alt)
    ultimately show ?thesis using bitmap_range[of b] unfolding unused_area_def by blast
  qed
qed

lemma not_inode: "ptr_ok b \<Longrightarrow> inum_ok i \<Longrightarrow> iblk i \<noteq> b"
  using data_not_inode[of b i] iblk_nonzero[of i] by (auto simp: ptr_ok_def)

lemma safe_bm_write [wp]:
  assumes "safe m" "ptr_ok b" "\<And>m'. safe m' \<Longrightarrow> P m'"
  shows "after (bm_write b buf m) P"
proof -
  have "safe m'" if w: "bm_write b buf m = Inr m'" for m'
  proof (rule safe_blocks[OF assms(1)])
    have x: "512 \<le> length buf" "bm m' = put_blk b (take 512 buf) (bm m)" using w by (auto simp: bm_write_Inr write_block_Inr)
    show "fmt (bm m')" unfolding x(2) using safe_ok[OF assms(1)] x(1) by (intro fmt_put_blk) simp_all
    show "data m' (iblk i) = data m (iblk i)" if "inum_ok i" for i using not_inode[OF assms(2) that] by (simp add: x(2))
    show "data m' c = data m c" if "c \<in> unused_area" for c using not_unused(1)[OF assms(2)] that by (auto simp: x(2))
  qed
  then show ?thesis using assms(3) by (simp add: after_def)
qed

text \<open>Changing the bit of a block.\<close>

lemma safe_bit:
  assumes "safe m" "b < 2097152" "fmt (put_blk (b div 4096 + 2) bs (bm m))"
  shows "safe (m\<lparr>bm := put_blk (b div 4096 + 2) bs (bm m)\<rparr>)"
proof (rule safe_blocks[OF assms(1)])
  show "data (m\<lparr>bm := put_blk (b div 4096 + 2) bs (bm m)\<rparr>) (iblk i) = data m (iblk i)" if "inum_ok i" for i
    using inode_not_bitmap[OF that assms(2)] by auto
  show "data (m\<lparr>bm := put_blk (b div 4096 + 2) bs (bm m)\<rparr>) c = data m c" if "c \<in> unused_area" for c
    using not_unused(3)[OF assms(2)] that by auto
qed (use assms(3) in simp)

lemma safe_bm_alloc [wp]:
  assumes "safe m" "\<And>b m'. ptr_ok b \<Longrightarrow> safe m' \<Longrightarrow> P (b, m')"
  shows "after (bm_alloc m) P"
  using safe_ok[OF assms(1)]
proof (rule alloc_block_cases)
  fix b assume b: "data_block b" "alloc_block (bm m) = Inr (b, marked b (bm m))"
  have "safe (m\<lparr>bm := marked b (bm m)\<rparr>)"
    unfolding marked_def using data_block_lt[OF b(1)] fmt_marked[of "bm m" b] safe_ok[OF assms(1)]
    by (intro safe_bit[OF assms(1)]) (simp_all add: marked_def)
  then show ?thesis using assms(2)[of b] b by (simp add: bm_alloc_def ptr_ok_def)
next
  assume "alloc_block (bm m) = Inr (0, bm m)"
  then show ?thesis using assms by (simp add: bm_alloc_def)
qed

lemma safe_bm_free [wp]:
  assumes "safe m" "ptr_ok b" "\<And>m'. safe m' \<Longrightarrow> P m'"
  shows "after (bm_free b m) P"
proof (cases "data_block b \<and> used (bm m) b")
  case True
  then have b: "data_block b" "used (bm m) b" by simp_all
  let ?u = "m\<lparr>bm := unmarked b (bm m)\<rparr>"
  have "safe ?u"
    unfolding unmarked_def using data_block_lt[OF b(1)] fmt_unmarked[of "bm m" b] safe_ok[OF assms(1)]
    by (intro safe_bit[OF assms(1)]) (simp_all add: unmarked_def)
  from safe_bm_write[OF this assms(2), of P "replicate 512 0"] have "after (bm_write b (replicate 512 0) ?u) P" using assms(3) .
  moreover have "bm_free b m = bm_write b (replicate 512 0) ?u"
    using free_block_used[OF safe_ok[OF assms(1)] b] data_block_lt[OF b(1)] by (simp add: bm_free_def bm_write_def write_block_ok)
  ultimately show ?thesis by simp
next
  case False
  then have "\<not> used (bm m) b \<or> b \<le> 1539" using assms(2) by (auto simp: ptr_ok_def)
  then have "bm_free b m = Inr m" using free_block_noop[OF safe_ok[OF assms(1)]] by (simp add: bm_free_def)
  then show ?thesis using assms(1,3) by simp
qed

lemma safe_get_inode [wp]: "safe m \<Longrightarrow> (\<And>r. (\<And>x. r = Some x \<Longrightarrow> ptrs_ok x) \<Longrightarrow> P r) \<Longrightarrow> after (get_inode i m) P"
  using get_inode_ok[of m i] by (cases "inum_ok i") (auto simp: safe_def)

lemma safe_put_inode [wp]:
  assumes "safe m" "ptrs_ok x" "\<And>m'. safe m' \<Longrightarrow> P m'"
  shows "after (put_inode i x m) P"
proof (cases "inum_ok i")
  case True
  have ok: "ok m" using assms(1) by (rule safe_ok)
  have len: "length (iblocks x) = 101" using assms(2) by (simp add: ptrs_ok_def)
  have "safe (set_inode i x m)"
    unfolding safe_def
  proof (intro conjI allI impI ballI)
    show "ok (set_inode i x m)" using ok len by (simp add: fmt_set_inode)
    show "ptrs_ok (inode_at (set_inode i x m) j)" if "inum_ok j" for j
      using that assms(1,2) ok len by (simp add: inode_at_set_inode safe_def)
    show "data (set_inode i x m) b = replicate 512 0" if "b \<in> unused_area" for b
      using that assms(1) not_unused(2)[OF True] blk_set_inode[of b i x m] by (auto simp: safe_def)
  qed
  then show ?thesis using put_inode_ok[OF ok True len] assms(3) by simp
next
  case False
  then show ?thesis using assms(1,3) by (auto simp: put_inode_def inum_ok_iff)
qed

lemma safe_alloc_inode [wp]: "safe m \<Longrightarrow> (\<And>b m'. safe m' \<Longrightarrow> P (b, m')) \<Longrightarrow> after (alloc_inode t m) P"
  unfolding alloc_inode_def by (simp add: Let_def case_prod_beta) (intro conjI impI wp; simp add: ptrs_ok_new)

lemma safe_free_inode [wp]: "safe m \<Longrightarrow> (\<And>m'. safe m' \<Longrightarrow> P m') \<Longrightarrow> after (free_inode i m) P"
  unfolding free_inode_def by (auto intro!: wp simp: ptrs_ok_new split: option.splits)

lemma safe_each_st [wp]:
  "safe m \<Longrightarrow> (\<And>x s Q. x \<in> set xs \<Longrightarrow> safe s \<Longrightarrow> (\<And>s'. safe s' \<Longrightarrow> Q s') \<Longrightarrow> after (f x s) Q) \<Longrightarrow> (\<And>m'. safe m' \<Longrightarrow> P m') \<Longrightarrow> after (each_st f xs m) P"
  by (induction xs arbitrary: m) auto

lemma safe_each_sub_st [wp]:
  "safe m \<Longrightarrow> (\<And>x s Q. x \<in> set xs \<Longrightarrow> safe s \<Longrightarrow> (\<And>s'. safe s' \<Longrightarrow> Q s') \<Longrightarrow> after (f x s) Q) \<Longrightarrow> (\<And>m'. safe m' \<Longrightarrow> P m') \<Longrightarrow> after (each_sub_st f xs m) P"
  by (induction xs arbitrary: m) auto

lemma safe_each_sub_ix [wp]:
  "safe m \<Longrightarrow> (\<And>i x s Q. safe s \<Longrightarrow> (\<And>s'. safe s' \<Longrightarrow> Q s') \<Longrightarrow> after (f i x s) Q) \<Longrightarrow> (\<And>m'. safe m' \<Longrightarrow> P m') \<Longrightarrow> after (each_sub_ix f i xs m) P"
  by (induction xs arbitrary: i m) auto

lemma safe_write_direct [wp]:
  "safe m \<Longrightarrow> ptrs_ok ino \<Longrightarrow> (\<And>ino' m'. ptrs_ok ino' \<Longrightarrow> safe m' \<Longrightarrow> P (ino', m')) \<Longrightarrow> after (write_direct n i buf sz ino m) P"
  by (induction n arbitrary: i ino m) (auto simp: case_prod_beta intro!: wp)

lemma safe_write_subs:
  assumes "\<And>inum buf sz' s. sz' < sz \<Longrightarrow> safe s \<Longrightarrow> after (write_file inum buf sz' s) safe"
  shows "safe m \<Longrightarrow> after (write_subs i buf sz inodes m) (\<lambda>(_, _, m'). safe m')"
proof (induction "127 - i" arbitrary: i inodes m rule: less_induct)
  case less
  show ?case
    unfolding write_subs.simps[of i] using less.prems
    by (auto simp: case_prod_beta intro!: wp after_mono[OF assms] less.hyps)
qed

lemma safe_write_file: "safe m \<Longrightarrow> after (write_file inum buf sz m) safe"
proof (induction "nat sz" arbitrary: inum buf sz m rule: less_induct)
  case less
  have smaller: "after (write_file inum' buf' sz' s) safe" if "sz' < sz" "\<not> sz < 0" "safe s" for inum' buf' sz' s
  proof (cases "sz' < 0")
    case True
    then show ?thesis using that(3) by (simp add: write_file.simps[of inum'])
  next
    case False
    then show ?thesis using that by (intro less.hyps) simp_all
  qed
  show ?case
    unfolding write_file.simps[of inum] using less.prems
    by (auto simp: case_prod_beta Let_def intro!: wp after_mono[OF safe_write_subs] after_mono[OF smaller] smaller
        split: option.splits)
qed

lemma safe_write_file_wp [wp]: "safe m \<Longrightarrow> (\<And>m'. safe m' \<Longrightarrow> P m') \<Longrightarrow> after (write_file inum buf sz m) P"
  using after_mono[OF safe_write_file] .

lemma safe_remove_file [wp]: "safe m \<Longrightarrow> (\<And>m'. safe m' \<Longrightarrow> P m') \<Longrightarrow> after (remove_file f i m) P"
proof (induction f arbitrary: i m P)
  case (Suc f)
  then show ?case by (auto intro!: wp Suc.IH dest: ptrs_ok_take split: option.splits)
qed simp

lemma safe_truncate_file [wp]: "safe m \<Longrightarrow> (\<And>m'. safe m' \<Longrightarrow> P m') \<Longrightarrow> after (truncate_file f i sz m) P"
proof (induction f arbitrary: i sz m P)
  case (Suc f)
  then show ?case by (auto simp: Let_def case_prod_beta intro!: wp Suc.IH split: option.splits)
qed simp

lemma safe_pad_direct [wp]: "safe m \<Longrightarrow> ptrs_ok ino \<Longrightarrow> (\<And>ino' m'. ptrs_ok ino' \<Longrightarrow> safe m' \<Longrightarrow> P (ino', m')) \<Longrightarrow> after (pad_direct is ino m) P"
  by (induction "is" arbitrary: ino m) (auto simp: case_prod_beta intro!: wp)

lemma safe_pad_subs [wp]:
  "safe m \<Longrightarrow> (\<And>x sz s Q. safe s \<Longrightarrow> (\<And>s'. safe s' \<Longrightarrow> Q s') \<Longrightarrow> after (pad x sz s) Q) \<Longrightarrow> (\<And>m'. safe m' \<Longrightarrow> P m') \<Longrightarrow>
   after (pad_subs pad t n i xs m) P"
  by (induction xs arbitrary: i m) (auto simp: case_prod_beta Let_def intro!: wp)

lemma safe_padding_file [wp]: "safe m \<Longrightarrow> (\<And>m'. safe m' \<Longrightarrow> P m') \<Longrightarrow> after (padding_file f i sz m) P"
proof (induction f arbitrary: i sz m P)
  case (Suc f)
  then show ?case by (auto simp: Let_def case_prod_beta intro!: wp Suc.IH split: option.splits)
qed simp

lemma safe_set_attr [wp]: "safe m \<Longrightarrow> (\<And>m'. safe m' \<Longrightarrow> P m') \<Longrightarrow> after (set_attr f i sz m) P"
  by (auto simp: set_attr_def intro!: wp)

lemma safe_add_slots [wp]:
  assumes "safe m" "ptr_ok b" and add: "\<And>x s Q. safe s \<Longrightarrow> (\<And>s'. safe s' \<Longrightarrow> Q s') \<Longrightarrow> after (add x s) Q" and "\<And>m'. safe m' \<Longrightarrow> P m'"
  shows "after (add_slots add b buf i xs m) P"
  by (induction xs arbitrary: i) (use assms(1,2,4) in \<open>auto simp: case_prod_beta intro!: wp add\<close>)

lemma safe_add_to_dir [wp]: "safe m \<Longrightarrow> (\<And>m'. safe m' \<Longrightarrow> P m') \<Longrightarrow> after (add_to_dir f p i n m) P"
proof (induction f arbitrary: p m P)
  case (Suc f)
  then show ?case by (auto simp: add_to_dir.simps(2) Let_def case_prod_beta intro!: wp Suc.IH split: option.splits)
qed simp

lemma safe_each_sub:
  assumes "\<And>x Q. (\<And>y. G y \<Longrightarrow> Q y) \<Longrightarrow> after (f x) Q" "\<And>ys. (\<forall>y \<in> set ys. G y) \<Longrightarrow> P ys"
  shows "after (each_sub f xs) P"
  using assms(2) by (induction xs arbitrary: P) (auto intro!: assms(1))

lemma safe_read_blockid [wp]:
  "safe m \<Longrightarrow> (\<And>bs. (\<forall>b \<in> set bs. ptr_ok b) \<Longrightarrow> P bs) \<Longrightarrow> after (read_blockid f p m) P"
proof (induction f arbitrary: p P)
  case (Suc f)
  note sub = safe_each_sub[of "\<lambda>bs. \<forall>b \<in> set bs. ptr_ok b" "\<lambda>i. read_blockid f i m"]
  show ?case
    unfolding read_blockid.simps(2) using Suc.prems
    by (auto intro!: wp Suc.prems sub Suc.IH dest: ptrs_ok_take split: option.splits)
qed simp

lemma safe_find_entry [wp]: "safe m \<Longrightarrow> \<forall>b \<in> set bs. ptr_ok b \<Longrightarrow> (\<And>k m'. safe m' \<Longrightarrow> P (k, m')) \<Longrightarrow> after (find_entry i k bs m) P"
  by (induction bs arbitrary: k) (auto intro!: wp)

lemma safe_free_and_find_last [wp]:
  "safe m \<Longrightarrow> (\<And>x y z m'. ptr_ok y \<Longrightarrow> safe m' \<Longrightarrow> P (x, y, z, m')) \<Longrightarrow> after (free_and_find_last f p i m) P"
  by (auto simp: free_and_find_last_def intro!: wp split: option.splits)

lemma safe_set_subs [wp]:
  assumes "safe m" "ptrs_ok ino" and set_id: "\<And>x k s Q. safe s \<Longrightarrow> (\<And>a b s'. safe s' \<Longrightarrow> Q (a, b, s')) \<Longrightarrow> after (set_id x k s) Q"
    and "\<And>a m'. safe m' \<Longrightarrow> P (a, m')"
  shows "after (set_subs set_id p ino k i xs m) P"
  using assms(1)
  by (induction xs arbitrary: i m) (use assms(2,4) in \<open>auto simp: case_prod_beta intro!: wp set_id\<close>)

lemma safe_set_ino_block_id [wp]:
  "safe m \<Longrightarrow> ptr_ok b \<Longrightarrow> (\<And>x y m'. safe m' \<Longrightarrow> P (x, y, m')) \<Longrightarrow> after (set_ino_block_id f p k b fr m) P"
proof (induction f arbitrary: p k fr m P)
  case (Suc f)
  then show ?case by (auto simp: set_ino_block_id.simps(2) Let_def case_prod_beta intro!: wp Suc.IH split: option.splits)
qed simp

lemma safe_remove_from_dir [wp]: "safe m \<Longrightarrow> (\<And>m'. safe m' \<Longrightarrow> P m') \<Longrightarrow> after (remove_from_dir f p i m) P"
  by (auto simp: remove_from_dir_def Let_def case_prod_beta intro!: wp split: option.splits)

subsection \<open>The layers above\<close>

lemmas after_get [wp] = after_any[of _ "ec_get i c" for i c] after_any[of _ "readdir p c" for p c]
  after_any[of _ "lookup p n c" for p n c] after_any[of _ "getattr i c" for i c] after_any[of _ "chfs_read i sz off c" for i sz off c]
  after_any[of _ "copy_bytes i off ed buf str" for i off ed buf str] after_any[of _ "isdir i c" for i c]
  after_any[of _ "resize n str" for n str] after_any[of _ "reply_buf_limited b off sz" for b off sz]

lemma safe_ec [wp]:
  "safe c \<Longrightarrow> (\<And>r i c'. safe c' \<Longrightarrow> P (r, i, c')) \<Longrightarrow> after (ec_create t c) P"
  "safe c \<Longrightarrow> (\<And>r c'. safe c' \<Longrightarrow> Q (r, c')) \<Longrightarrow> after (ec_put i buf c) Q"
  "safe c \<Longrightarrow> (\<And>r c'. safe c' \<Longrightarrow> Q (r, c')) \<Longrightarrow> after (ec_remove i c) Q"
  "safe c \<Longrightarrow> (\<And>r c'. safe c' \<Longrightarrow> Q (r, c')) \<Longrightarrow> after (ec_add_to_dir p i n c) Q"
  "safe c \<Longrightarrow> (\<And>r c'. safe c' \<Longrightarrow> Q (r, c')) \<Longrightarrow> after (ec_remove_from_dir p i c) Q"
  "safe c \<Longrightarrow> (\<And>r c'. safe c' \<Longrightarrow> Q (r, c')) \<Longrightarrow> after (ec_set_attr i sz c) Q"
  unfolding ec_defs es_defs
  by (auto simp: case_prod_beta Let_def simp del: remove_file.simps add_to_dir.simps set_attr_def intro!: wp)

lemma safe_chfs [wp]:
  "safe c \<Longrightarrow> (\<And>r i c'. safe c' \<Longrightarrow> P (r, i, c')) \<Longrightarrow> after (create p n x c) P"
  "safe c \<Longrightarrow> (\<And>r i c'. safe c' \<Longrightarrow> P (r, i, c')) \<Longrightarrow> after (mkdir p n x c) P"
  "safe c \<Longrightarrow> (\<And>r i c'. safe c' \<Longrightarrow> P (r, i, c')) \<Longrightarrow> after (ln p n x c) P"
  "safe c \<Longrightarrow> (\<And>r c'. safe c' \<Longrightarrow> Q (r, c')) \<Longrightarrow> after (unlink p n c) Q"
  "safe c \<Longrightarrow> (\<And>r c'. safe c' \<Longrightarrow> Q (r, c')) \<Longrightarrow> after (setattr i sz c) Q"
  "safe c \<Longrightarrow> (\<And>r sz' c'. safe c' \<Longrightarrow> R (r, sz', c')) \<Longrightarrow> after (chfs_write i sz off buf c) R"
  unfolding create_def mkdir_def ln_def unlink_def setattr_def chfs_write_def
  by (auto simp: case_prod_beta Let_def intro!: wp split: option.splits)

lemma safe_helper [wp]: "safe c \<Longrightarrow> (\<And>r c'. safe c' \<Longrightarrow> P (r, c')) \<Longrightarrow> after (fuseserver_createhelper p n t c) P"
  unfolding fuseserver_createhelper_def by (auto simp: case_prod_beta intro!: wp)

lemmas handler_defs = fuseserver_getattr_def fuseserver_setattr_def fuseserver_read_def fuseserver_write_def fuseserver_open_def
  fuseserver_create_def fuseserver_mknod_def fuseserver_lookup_def fuseserver_mkdir_def fuseserver_unlink_def
  fuseserver_statfs_def fuseserver_symlink_def fuseserver_readlink_def fuseserver_readdir_def

lemma safe_request: "safe c \<Longrightarrow> after (fuseserver_oper bt de ds q c) (\<lambda>(_, c'). safe c')"
  by (cases q) (auto simp: handler_defs case_prod_beta intro!: wp split: option.splits)

end
