(* ===== verification/Fuse_Runs.thy ===== *)
theory Fuse_Runs imports Pointer_Safety begin

text \<open>
  Sequences of requests: what the server keeps on its disk, whatever the requests are, and which requests
  change nothing.
\<close>

subsection \<open>Runs\<close>

text \<open>
  The states that \<open>fuse_session_loop\<close> can bring about: it calls one handler after another, for requests
  that the kernel chooses.
\<close>

inductive served :: "u32 \<Rightarrow> (bytes \<Rightarrow> stat \<Rightarrow> u64 \<Rightarrow> bytes) \<Rightarrow> (nat \<Rightarrow> nat) \<Rightarrow> (nat \<Rightarrow> u32) \<Rightarrow> chfs_client \<Rightarrow> bool"
  for bt de ds clk where
  start: "chfs_init clk = Inr (Some c) \<Longrightarrow> served bt de ds clk c"
| step: "served bt de ds clk c \<Longrightarrow> fuseserver_oper bt de ds q c = Inr (r, c') \<Longrightarrow> served bt de ds clk c'"

inductive_cases served_cases: "served bt de ds clk c"

lemma init_safe: "after (inode_manager_init clk) (\<lambda>r. \<forall>m. r = Some m \<longrightarrow> safe m)"
proof -
  let ?m = "\<lparr>bm = block_manager_init, clock = clk, ticks = 0\<rparr>"
  have "iblocks (inode_at ?m i) = replicate 101 0" for i
    by (simp add: inode_at_def block_manager_init_def disk_init_def decode_inode_def array_of_zeros)
  then have "ptrs_ok (inode_at ?m i)" for i by (simp add: ptrs_ok_def)
  moreover have "data ?m b = replicate 512 0" for b by (simp add: block_manager_init_def disk_init_def)
  ultimately have "safe ?m" using fmt_init by (simp add: safe_def)
  then show ?thesis unfolding inode_manager_init_def by (auto intro!: wp)
qed

lemma served_safe: "served bt de ds clk c \<Longrightarrow> safe c"
proof (induction rule: served.induct)
  case (start c)
  then show ?case using init_safe[of clk] by (simp add: chfs_init_def after_def)
next
  case (step c q r c')
  then show ?case using safe_request[of c bt de ds q] by (simp add: after_def)
qed

text \<open>
  C14: Whatever requests have been served, in whatever order and with whatever arguments, every pointer
  in every inode is 0 or the number of a data block: none leads into the bitmap or the inode table, and none
  past the end of the disk. And nothing is written to the three blocks that belong to neither.
\<close>

theorem served_keeps_metadata_apart:
  assumes "served bt de ds clk c"
  shows "(\<forall>i x b. get_inode i c = Inr (Some x) \<and> b \<in> set (iblocks x) \<longrightarrow> b = 0 \<or> data_block b)
    \<and> (\<forall>b \<in> {1, 514, 515}. blocks (bdisk (bm c)) b = replicate BLOCK_SIZE 0)"
proof -
  have s: "safe c" using assms by (rule served_safe)
  have "b = 0 \<or> data_block b" if "get_inode i c = Inr (Some x)" "b \<in> set (iblocks x)" for i x b
    using that get_inode_ok[OF safe_ok[OF s], of i] s by (auto simp: safe_def ptrs_ok_def ptr_ok_def split: if_splits)
  then show ?thesis using s by (auto simp: safe_def unused_area_def)
qed

theorem served_keeps_metadata_apart_witness:
  "\<exists>c r c' x. chfs_init (\<lambda>n. 0) = Inr (Some c) \<and> fuseserver_oper 8 (\<lambda>n st e. n) id (Create 1 [97]) c = Inr (r, c')
     \<and> get_inode 1 c' = Inr (Some x) \<and> (\<forall>b \<in> set (iblocks x). b = 0 \<or> data_block b)"
proof -
  obtain c where c: "chfs_init (\<lambda>n. 0) = Inr (Some c)" "dir_of c 1 []" "free_blocks c \<noteq> {}" "free_inodes c \<noteq> {}"
    by (rule example_root) (rule that)
  have "length ([] :: dir_entries) < 100" "name_ok [97]" "[97] \<notin> snd ` set ([] :: dir_entries)" by (simp_all add: name_ok_def)
  from create_then_lookup[OF c(2) this(1,2) c(3,4) this(3), of 0] obtain e c' where
    r: "fuseserver_oper 8 (\<lambda>n st e. n) id (Create 1 [97]) c = Inr (Some (Reply_create e), c')" by auto
  have s: "served 8 (\<lambda>n st e. n) id (\<lambda>n. 0) c'" using served.step[OF served.start[OF c(1)] r] .
  have "get_inode 1 c' = Inr (Some (inode_at c' 1))"
    using get_inode_ok[OF safe_ok[OF served_safe[OF s]]] by (simp add: inum_ok_def)
  then show ?thesis using c(1) r served_keeps_metadata_apart[OF s] by blast
qed

subsection \<open>Requests that only look\<close>

fun looks_only :: "request \<Rightarrow> bool" where
  "looks_only (Getattr ino) = True"
| "looks_only Statfs = True"
| "looks_only (Readdir ino sz off) = True"
| "looks_only (Lookup parent name) = True"
| "looks_only (Open ino) = True"
| "looks_only (Read ino sz off) = True"
| "looks_only (Readlink ino) = True"
| "looks_only q = False"

text \<open>
  GETATTR, STATFS, READDIR, LOOKUP, OPEN, READ and READLINK change nothing: not the contents, and not
  the access times either.
\<close>

lemma looking_changes_nothing:
  assumes "looks_only q" "fuseserver_oper bt de ds q c = Inr (r, c')"
  shows "c' = c"
  using assms by (cases q) (auto simp: handler_defs bindF_eq_Inr split: option.splits if_splits)

end
