(* ===== verification/Store_Properties.thy ===== *)
theory Store_Properties imports File_Progress begin

text \<open>
  The properties of the block allocator and of the inode table: which block and which inode an allocation
  returns, what it leaves alone, and what happens when there is none left.
\<close>

subsection \<open>Blocks\<close>

lemma used_after_alloc: "fmt m \<Longrightarrow> alloc_block m = Inr (b, m') \<Longrightarrow> b \<noteq> 0 \<Longrightarrow> used m' c \<longleftrightarrow> c = b \<or> used m c"
  using bs.alloc_got by blast

text \<open>
  C39: \<open>alloc_block\<close> returns the lowest free data block, marks it and no other, and changes nothing outside
  the bitmap. When no data block is free it returns 0 and changes nothing.
\<close>

theorem alloc_block_lowest:
  assumes "fmt m"
  shows "if \<exists>c. data_block c \<and> \<not> used m c
    then \<exists>b m'. alloc_block m = Inr (b, m') \<and> data_block b \<and> \<not> used m b \<and> (\<forall>c. data_block c \<and> c < b \<longrightarrow> used m c)
           \<and> (\<forall>c. used m' c \<longleftrightarrow> c = b \<or> used m c) \<and> (\<forall>c. off_bitmap c \<longrightarrow> blk m' c = blk m c)
    else alloc_block m = Inr (0, m)"
  using assms
proof (rule alloc_block_cases)
  fix b assume b: "data_block b" "\<not> used m b" "\<forall>c. data_block c \<and> c < b \<longrightarrow> used m c" "alloc_block m = Inr (b, marked b m)"
  moreover have "\<forall>c. used (marked b m) c \<longleftrightarrow> c = b \<or> used m c" using assms by (simp add: used_marked)
  moreover have "\<forall>c. off_bitmap c \<longrightarrow> blk (marked b m) c = blk m c" using blk_alloc_block[OF assms b(4)] by blast
  ultimately show ?thesis by auto
qed auto

theorem alloc_block_lowest_witness: "\<exists>m'. alloc_block block_manager_init = Inr (1540, m') \<and> used m' 1540 \<and> \<not> used m' 1541"
proof -
  have f: "fmt block_manager_init" by (rule fmt_init)
  have d: "data_block 1540" by (simp add: data_block_iff)
  then have "\<exists>c. data_block c \<and> \<not> used block_manager_init c" using used_init by blast
  with alloc_block_lowest[OF f] obtain b m' where b: "alloc_block block_manager_init = Inr (b, m')" "data_block b"
    "\<forall>c. data_block c \<and> c < b \<longrightarrow> used block_manager_init c" "\<forall>c. used m' c \<longleftrightarrow> c = b \<or> used block_manager_init c" by auto
  have "\<not> 1540 < b" using b(3) d used_init by blast
  moreover have "1539 < b" using b(2) by (simp add: data_block_iff)
  ultimately have "b = 1540" by (simp add: word_less_nat_alt word_unat_eq_iff)
  then show ?thesis using b(1,4) used_init by auto
qed

text \<open>
  Freeing a block that was just allocated brings the disk back to what it was, if the block was blank:
  \<open>alloc_block\<close> and \<open>free_block\<close> are inverse.
\<close>

lemma free_undoes_alloc:
  assumes "fmt m" "alloc_block m = Inr (b, m')" "b \<noteq> 0" "blk m b = replicate BLOCK_SIZE 0"
  shows "free_block b m' = Inr m"
  using assms by (rule alloc_free_restores)

subsection \<open>Inodes\<close>

text \<open>
  \<open>put_inode\<close> stores every field of an inode so that \<open>get_inode\<close> reads it back, and changes no other
  inode, no data block and nothing in the bitmap.
\<close>

lemma put_then_get:
  assumes "ok m" "inum_ok i" "length (iblocks x) = 101"
  shows "\<exists>m'. put_inode i x m = Inr m' \<and> get_inode i m' = Inr (Some x)
    \<and> (\<forall>j. j \<noteq> i \<longrightarrow> get_inode j m' = get_inode j m)
    \<and> (\<forall>b. data_block b \<longrightarrow> data m' b = data m b \<and> in_use m' b = in_use m b)"
proof -
  note f = set_inode_frame[OF assms]
  have "put_inode i x m = Inr (set_inode i x m)" using assms by (rule put_inode_ok)
  then show ?thesis using assms f by (simp add: get_inode_ok)
qed

text \<open>
  C40: \<open>alloc_inode\<close> returns the lowest number whose inode is free and writes a new empty inode of the type
  there. When all 1024 are taken it does not throw \<open>bad_alloc\<close>: it reads through a null pointer.
\<close>

theorem alloc_inode_lowest:
  assumes "ok m" "t \<in> {T_DIR, T_FILE, T_LNK}"
  shows "if \<exists>j. inum_ok j \<and> itype (inode_at m j) = 0
    then \<exists>i m' now. alloc_inode t m = Inr (i, m') \<and> inum_ok i \<and> itype (inode_at m i) = 0
           \<and> (\<forall>j. inum_ok j \<and> j < i \<longrightarrow> itype (inode_at m j) \<noteq> 0)
           \<and> inode_at m' i = new_inode t now \<and> (\<forall>j. inum_ok j \<and> j \<noteq> i \<longrightarrow> inode_at m' j = inode_at m j)
    else alloc_inode t m = Inl Null_deref"
  using assms
proof (rule alloc_inode_cases)
  fix i
  assume i: "inum_ok i" "itype (inode_at m i) = 0" "\<forall>j. inum_ok j \<and> j < i \<longrightarrow> itype (inode_at m j) \<noteq> 0"
    "alloc_inode t m = Inr (i, set_inode i (new_inode t (clock m (ticks m))) (m\<lparr>ticks := Suc (ticks m)\<rparr>))"
  moreover note vol.create_does[OF assms(1,2) i(4)]
  ultimately show ?thesis by auto
qed auto

theorem alloc_inode_lowest_witness:
  "\<exists>m m'. inode_manager_init (\<lambda>n. 0) = Inr (Some m) \<and> alloc_inode 2 m = Inr (2, m')"
proof -
  obtain m where m: "inode_manager_init (\<lambda>n. 0) = Inr (Some m)" "ok m" "\<forall>j. inum_ok j \<and> j \<noteq> 1 \<longrightarrow> itype (inode_at m j) = 0"
    "inode_at m 1 = new_inode 1 0"
    by (rule init_does[of "\<lambda>n. 0"]) (rule that)
  have two: "inum_ok 2" "itype (inode_at m 2) = 0" using m(3) by (simp_all add: inum_ok_def)
  have t: "(2 :: u32) \<in> {1, 2, 3}" by simp
  have ex: "\<exists>j. inum_ok j \<and> itype (inode_at m j) = 0" using two by blast
  obtain i m' where i: "alloc_inode 2 m = Inr (i, m')" "inum_ok i" "itype (inode_at m i) = 0"
    "\<forall>j. inum_ok j \<and> j < i \<longrightarrow> itype (inode_at m j) \<noteq> 0"
    using alloc_inode_lowest[OF m(2) t] unfolding if_P[OF ex] by blast
  have "\<not> 2 < i" using i(4) two by blast
  moreover have "i \<noteq> 1" using i(3) m(4) by (auto simp: new_inode_def)
  moreover have "i \<noteq> 0" using i(2) by (auto simp: inum_ok_def)
  ultimately have "i = 2" by (simp add: word_less_nat_alt word_unat_eq_iff)
  then show ?thesis using m(1) i(1) by blast
qed

end
