(* ===== verification/Rpc_Fifo.thy ===== *)
theory Rpc_Fifo imports Prelude "HOL-Library.Multiset" begin

text \<open>
  \<open>rpc/fifo.h\<close>: the queue between threads of the RPC library. One turn of the loop of \<open>enq\<close> or \<open>deq\<close> runs
  with the mutex held, so the turns are the atomic steps; \<open>pthread_cond_wait\<close> gives the mutex up and
  puts the thread to sleep until a signal, or spuriously. The threads inside a call are counted, not
  named: those that are about to take their next turn, and those that sleep on each condition.
\<close>

subsection \<open>One turn of the loops\<close>

record 'a fifo =
  fq :: "'a list"
  fmax :: u32

text \<open>The limit is an \<open>int\<close> and is stored in an \<open>unsigned int\<close>; 0 means none.\<close>

definition fifo_init :: "int \<Rightarrow> 'a fifo" where
  "fifo_init limit = \<lparr>fq = [], fmax = word_of_int limit\<rparr>"

text \<open>\<open>size\<close> is declared to return a \<open>bool\<close>.\<close>

definition fifo_size :: "'a fifo \<Rightarrow> bool" where
  "fifo_size f \<longleftrightarrow> length (fq f) \<noteq> 0"

definition has_space :: "'a fifo \<Rightarrow> bool" where
  "has_space f \<longleftrightarrow> fmax f = 0 \<or> length (fq f) < unat (fmax f)"

text \<open>A turn returns a value, with or without a signal to the other side, or waits.\<close>

datatype 'r turn = Return 'r bool | Wait

definition enq_turn :: "'a \<Rightarrow> bool \<Rightarrow> 'a fifo \<Rightarrow> bool turn \<times> 'a fifo" where
  "enq_turn e blocking f =
     (if has_space f then (Return True True, f\<lparr>fq := fq f @ [e]\<rparr>)
      else if blocking then (Wait, f)
      else (Return False False, f))"

definition deq_turn :: "'a fifo \<Rightarrow> 'a turn \<times> 'a fifo" where
  "deq_turn f = (case fq f of
       [] \<Rightarrow> (Wait, f)
     | e # q \<Rightarrow> (Return e (fmax f \<noteq> 0 \<and> length q < unat (fmax f)), f\<lparr>fq := q\<rparr>))"

subsection \<open>Threads\<close>

record 'a threads =
  fifo :: "'a fifo"
  enq_ready :: "('a \<times> bool) multiset"
  enq_asleep :: "('a \<times> bool) multiset"
  deq_ready :: nat
  deq_asleep :: nat
  entered :: "'a list"
  left :: "'a list"

text \<open>
  \<open>entered\<close> and \<open>left\<close> record the values that \<open>enq\<close> has stored and \<open>deq\<close> has handed out, in their order. A
  signal wakes one of the threads asleep on the condition, if there is one.
\<close>

definition threads_init :: "int \<Rightarrow> 'a threads" where
  "threads_init limit = \<lparr>fifo = fifo_init limit, enq_ready = {#}, enq_asleep = {#}, deq_ready = 0, deq_asleep = 0,
     entered = [], left = []\<rparr>"

definition wake_deq :: "bool \<Rightarrow> 'a threads \<Rightarrow> 'a threads" where
  "wake_deq signal t =
     (if signal \<and> 0 < deq_asleep t then t\<lparr>deq_asleep := deq_asleep t - 1, deq_ready := deq_ready t + 1\<rparr> else t)"

inductive thread_step :: "'a threads \<Rightarrow> 'a threads \<Rightarrow> bool" where
  call_enq: "thread_step t (t\<lparr>enq_ready := add_mset x (enq_ready t)\<rparr>)"
| call_deq: "thread_step t (t\<lparr>deq_ready := Suc (deq_ready t)\<rparr>)"
| enq_stores: "(e, b) \<in># enq_ready t \<Longrightarrow> enq_turn e b (fifo t) = (Return True s, f') \<Longrightarrow>
    thread_step t (wake_deq s (t\<lparr>fifo := f', enq_ready := enq_ready t - {# (e, b) #}, entered := entered t @ [e]\<rparr>))"
| enq_refuses: "(e, b) \<in># enq_ready t \<Longrightarrow> enq_turn e b (fifo t) = (Return False s, f') \<Longrightarrow>
    thread_step t (t\<lparr>fifo := f', enq_ready := enq_ready t - {# (e, b) #}\<rparr>)"
| enq_waits: "(e, b) \<in># enq_ready t \<Longrightarrow> enq_turn e b (fifo t) = (Wait, f') \<Longrightarrow>
    thread_step t (t\<lparr>fifo := f', enq_ready := enq_ready t - {# (e, b) #}, enq_asleep := add_mset (e, b) (enq_asleep t)\<rparr>)"
| deq_takes: "deq_ready t = Suc n \<Longrightarrow> deq_turn (fifo t) = (Return e False, f') \<Longrightarrow>
    thread_step t (t\<lparr>fifo := f', deq_ready := n, left := left t @ [e]\<rparr>)"
| deq_takes_alone: "deq_ready t = Suc n \<Longrightarrow> deq_turn (fifo t) = (Return e True, f') \<Longrightarrow> enq_asleep t = {#} \<Longrightarrow>
    thread_step t (t\<lparr>fifo := f', deq_ready := n, left := left t @ [e]\<rparr>)"
| deq_takes_wakes: "deq_ready t = Suc n \<Longrightarrow> deq_turn (fifo t) = (Return e True, f') \<Longrightarrow> x \<in># enq_asleep t \<Longrightarrow>
    thread_step t (t\<lparr>fifo := f', deq_ready := n, left := left t @ [e], enq_asleep := enq_asleep t - {# x #},
      enq_ready := add_mset x (enq_ready t)\<rparr>)"
| deq_waits: "deq_ready t = Suc n \<Longrightarrow> deq_turn (fifo t) = (Wait, f') \<Longrightarrow>
    thread_step t (t\<lparr>fifo := f', deq_ready := n, deq_asleep := Suc (deq_asleep t)\<rparr>)"
| enq_spurious: "x \<in># enq_asleep t \<Longrightarrow>
    thread_step t (t\<lparr>enq_asleep := enq_asleep t - {# x #}, enq_ready := add_mset x (enq_ready t)\<rparr>)"
| deq_spurious: "deq_asleep t = Suc n \<Longrightarrow> thread_step t (t\<lparr>deq_asleep := n, deq_ready := Suc (deq_ready t)\<rparr>)"

inductive thread_run :: "int \<Rightarrow> 'a threads \<Rightarrow> bool" for limit where
  start: "thread_run limit (threads_init limit)"
| step: "thread_run limit t \<Longrightarrow> thread_step t t' \<Longrightarrow> thread_run limit t'"

inductive_cases thread_step_cases: "thread_step t t'"

subsection \<open>Invariants\<close>

lemma enq_turn_simps:
  "enq_turn e b f = (Return True s, f') \<longleftrightarrow> has_space f \<and> s \<and> f' = f\<lparr>fq := fq f @ [e]\<rparr>"
  "enq_turn e b f = (Return False s, f') \<longleftrightarrow> \<not> has_space f \<and> \<not> b \<and> \<not> s \<and> f' = f"
  "enq_turn e b f = (Wait, f') \<longleftrightarrow> \<not> has_space f \<and> b \<and> f' = f"
  by (auto simp: enq_turn_def)

lemma deq_turn_simps:
  "deq_turn f = (Return e s, f') \<longleftrightarrow> (\<exists>q. fq f = e # q \<and> s = (fmax f \<noteq> 0 \<and> length q < unat (fmax f)) \<and> f' = f\<lparr>fq := q\<rparr>)"
  "deq_turn f = (Wait, f') \<longleftrightarrow> fq f = [] \<and> f' = f"
  by (auto simp: deq_turn_def split: list.splits)

lemmas turn_simps = enq_turn_simps deq_turn_simps wake_deq_def has_space_def

definition in_order :: "int \<Rightarrow> 'a threads \<Rightarrow> bool" where
  "in_order limit t \<longleftrightarrow> fmax (fifo t) = word_of_int limit \<and> entered t = left t @ fq (fifo t)
     \<and> (fmax (fifo t) \<noteq> 0 \<longrightarrow> length (fq (fifo t)) \<le> unat (fmax (fifo t)))"

lemma run_in_order: "thread_run limit t \<Longrightarrow> in_order limit t"
proof (induction rule: thread_run.induct)
  case start
  then show ?case by (simp add: in_order_def threads_init_def fifo_init_def)
next
  case (step t t')
  from step(2) show ?case
    by cases (use step(3) in \<open>auto simp: in_order_def turn_simps\<close>)
qed

text \<open>
  C37: The queue is first in, first out: what \<open>deq\<close> has handed out, followed by what is in the queue, is
  what \<open>enq\<close> has stored, in that order, and the queue never holds more than its limit, if it has one.
\<close>

theorem fifo_refines_queue:
  assumes "thread_run limit t"
  shows "entered t = left t @ fq (fifo t)
    \<and> (word_of_int limit \<noteq> (0 :: u32) \<longrightarrow> length (fq (fifo t)) \<le> unat (word_of_int limit :: u32))"
  using run_in_order[OF assms] by (auto simp: in_order_def)

text \<open>A run with limit 1, for the witnesses: 7 is stored, and the thread that wants to store 8 falls asleep.\<close>

lemma example_run:
  obtains t :: "int threads" where "thread_run 1 t" "entered t = [7]" "fq (fifo t) = [7]" "enq_asleep t = {# (8, True) #}"
proof -
  let ?t0 = "threads_init 1 :: int threads"
  let ?t1 = "?t0\<lparr>enq_ready := {# (7, True) #}\<rparr>"
  let ?t2 = "?t1\<lparr>fifo := \<lparr>fq = [7], fmax = 1\<rparr>, enq_ready := {#}, entered := [7]\<rparr>"
  let ?t3 = "?t2\<lparr>enq_ready := {# (8, True) #}\<rparr>"
  let ?t4 = "?t3\<lparr>enq_ready := {#}, enq_asleep := {# (8, True) #}\<rparr>"
  note init = threads_init_def fifo_init_def
  have "thread_step ?t0 ?t1" using thread_step.call_enq[of ?t0 "(7, True)"] by (simp add: init)
  moreover have "thread_step ?t1 ?t2"
    using thread_step.enq_stores[of 7 True ?t1 True "\<lparr>fq = [7], fmax = 1\<rparr>"] by (simp add: init turn_simps)
  moreover have "thread_step ?t2 ?t3" using thread_step.call_enq[of ?t2 "(8, True)"] by (simp add: init)
  moreover have "thread_step ?t3 ?t4"
    using thread_step.enq_waits[of 8 True ?t3 "\<lparr>fq = [7], fmax = 1\<rparr>"] by (simp add: init turn_simps)
  ultimately have "thread_run 1 ?t4" by (meson thread_run.intros)
  then show thesis by (rule that) simp_all
qed

theorem fifo_refines_queue_witness:
  "\<exists>t :: int threads. thread_run 1 t \<and> entered t = [7] \<and> left t @ fq (fifo t) = [7] \<and> length (fq (fifo t)) \<le> 1"
proof -
  obtain t :: "int threads" where t: "thread_run 1 t" "entered t = [7]" by (rule example_run) (rule that)
  from fifo_refines_queue[OF t(1)] t show ?thesis by (intro exI[of _ t]) simp
qed

definition no_lost_wakeup :: "'a threads \<Rightarrow> bool" where
  "no_lost_wakeup t \<longleftrightarrow> (0 < deq_asleep t \<longrightarrow> length (fq (fifo t)) \<le> deq_ready t)
     \<and> (enq_asleep t \<noteq> {#} \<longrightarrow> fmax (fifo t) \<noteq> 0 \<and> unat (fmax (fifo t)) \<le> length (fq (fifo t)) + size (enq_ready t))"

lemma size_minus_one: "x \<in># A \<Longrightarrow> size A = Suc (size (A - {#x#}))"
  by (metis insert_DiffM size_add_mset)

lemma step_wakeup: "thread_step t t' \<Longrightarrow> no_lost_wakeup t \<Longrightarrow> in_order limit t \<Longrightarrow> no_lost_wakeup t'"
proof (induction rule: thread_step.induct)
  case (deq_takes_wakes t n e f' x)
  then show ?case by (auto simp: no_lost_wakeup_def in_order_def turn_simps size_minus_one)
qed (auto simp: no_lost_wakeup_def in_order_def turn_simps dest!: size_minus_one)

lemma run_wakeup: "thread_run limit t \<Longrightarrow> no_lost_wakeup t"
proof (induction rule: thread_run.induct)
  case start
  then show ?case by (simp add: no_lost_wakeup_def threads_init_def fifo_init_def)
next
  case (step t t')
  then show ?case using step_wakeup[OF step(2) step(3) run_in_order[OF step(1)]] by simp
qed

text \<open>
  C38: No wake-up is lost: while a thread sleeps in \<open>deq\<close>, for every value in the queue another thread is
  about to take it; while one sleeps in \<open>enq\<close>, the queue has a limit and for every free place another
  thread is about to fill it. So nobody sleeps beside work that no one is going to do.
\<close>

theorem fifo_no_lost_wakeup:
  assumes "thread_run limit t"
  shows "(0 < deq_asleep t \<longrightarrow> length (fq (fifo t)) \<le> deq_ready t)
    \<and> (enq_asleep t \<noteq> {#} \<longrightarrow> fmax (fifo t) \<noteq> 0 \<and> unat (fmax (fifo t)) \<le> length (fq (fifo t)) + size (enq_ready t))"
  using run_wakeup[OF assms] by (simp add: no_lost_wakeup_def)

theorem fifo_no_lost_wakeup_witness:
  "\<exists>t :: int threads. thread_run 1 t \<and> enq_asleep t = {# (8, True) #} \<and> 1 \<le> length (fq (fifo t)) + size (enq_ready t)"
proof -
  obtain t :: "int threads" where t: "thread_run 1 t" "fq (fifo t) = [7]" "enq_asleep t = {# (8, True) #}"
    by (rule example_run) (rule that)
  from fifo_no_lost_wakeup[OF t(1)] t show ?thesis by (intro exI[of _ t]) simp
qed

end
