(* ===== verification/Rpc_Marshall.thy ===== *)
theory Rpc_Marshall imports Prelude begin

text \<open>
  \<open>rpc/marshall.h\<close>: the buffers that requests and replies are written to and read from. The operators for
  the basic types, \<open>pack\<close>, \<open>unpack\<close> and \<open>okdone\<close> are in a library without sources and are arguments
  here; what the header file adds to them is modelled: the headers, the contents, vectors and maps.
  \<open>codes\<close> says what is expected of a pair of operators.
\<close>

subsection \<open>Headers and sizes\<close>

record req_header =
  req_xid :: u32
  req_proc :: u32
  clt_nonce :: u32
  srv_nonce :: u32
  xid_rep :: u32

record reply_header =
  rep_xid :: u32
  rep_ret :: u32

definition static_max :: "int \<Rightarrow> int \<Rightarrow> int" where
  "static_max a b = (if a > b then a else b)"

text \<open>
  Five and two 4-byte integers, behind the 4 bytes that the channel fills with the size. The build does
  not define \<open>RPC_CHECKSUMMING\<close>, so there is no checksum.
\<close>

abbreviation (input) sizeof_rpc_sz :: nat where "sizeof_rpc_sz \<equiv> 4"

definition RPC_HEADER_SZ :: nat where
  "RPC_HEADER_SZ = nat (static_max 20 8) + sizeof_rpc_sz"

abbreviation (input) DEFAULT_RPC_SZ :: nat where "DEFAULT_RPC_SZ \<equiv> 1024"

lemma header_size [simp]: "RPC_HEADER_SZ = 24"
  by (simp add: RPC_HEADER_SZ_def static_max_def)

subsection \<open>class marshall\<close>

text \<open>\<open>m_buf\<close> is all of the allocated buffer, so its length is \<open>_capa\<close>. What \<open>malloc\<close> leaves in it is an argument.\<close>

record marshall =
  m_buf :: bytes
  m_ind :: nat

definition marshall_init :: "bytes \<Rightarrow> marshall" where
  "marshall_init garbage = \<lparr>m_buf = take DEFAULT_RPC_SZ garbage, m_ind = RPC_HEADER_SZ\<rparr>"

definition get_content :: "marshall \<Rightarrow> bytes" where
  "get_content m = take (m_ind m - RPC_HEADER_SZ) (drop RPC_HEADER_SZ (m_buf m))"

definition pack_req_header :: "(u32 \<Rightarrow> marshall \<Rightarrow> marshall) \<Rightarrow> req_header \<Rightarrow> marshall \<Rightarrow> marshall" where
  "pack_req_header pack h m =
     (let saved_sz = m_ind m;
          m1 = m\<lparr>m_ind := sizeof_rpc_sz\<rparr>;
          m2 = pack (xid_rep h) (pack (srv_nonce h) (pack (clt_nonce h) (pack (req_proc h) (pack (req_xid h) m1))))
      in m2\<lparr>m_ind := saved_sz\<rparr>)"

definition pack_reply_header :: "(u32 \<Rightarrow> marshall \<Rightarrow> marshall) \<Rightarrow> reply_header \<Rightarrow> marshall \<Rightarrow> marshall" where
  "pack_reply_header pack h m =
     (let saved_sz = m_ind m;
          m1 = m\<lparr>m_ind := sizeof_rpc_sz\<rparr>;
          m2 = pack (rep_ret h) (pack (rep_xid h) m1)
      in m2\<lparr>m_ind := saved_sz\<rparr>)"

text \<open>\<open>take_buf\<close>: the buffer and its size; the object is left without a buffer.\<close>

definition marshall_take_buf :: "marshall \<Rightarrow> (bytes \<times> nat) \<times> marshall" where
  "marshall_take_buf m = ((m_buf m, m_ind m), \<lparr>m_buf = [], m_ind = 0\<rparr>)"

subsection \<open>class unmarshall\<close>

record unmarshall =
  u_buf :: bytes
  u_sz :: nat
  u_ind :: nat
  u_ok :: bool

definition unmarshall_init :: unmarshall where
  "unmarshall_init = \<lparr>u_buf = [], u_sz = 0, u_ind = 0, u_ok = False\<rparr>"

definition unmarshall_of :: "bytes \<Rightarrow> nat \<Rightarrow> unmarshall" where
  "unmarshall_of b sz = \<lparr>u_buf = b, u_sz = sz, u_ind = 0, u_ok = True\<rparr>"

text \<open>What \<open>realloc\<close> leaves in front of the content is an argument.\<close>

definition take_content :: "bytes \<Rightarrow> bytes \<Rightarrow> unmarshall \<Rightarrow> unmarshall" where
  "take_content front s u =
     u\<lparr>u_sz := length s + RPC_HEADER_SZ, u_buf := take RPC_HEADER_SZ front @ s, u_ind := RPC_HEADER_SZ, u_ok := True\<rparr>"

definition unmarshall_take_buf :: "unmarshall \<Rightarrow> (bytes \<times> nat) \<times> unmarshall" where
  "unmarshall_take_buf u = ((u_buf u, u_sz u), u\<lparr>u_sz := 0, u_ind := 0, u_buf := []\<rparr>)"

definition unpack_req_header :: "(unmarshall \<Rightarrow> u32 \<times> unmarshall) \<Rightarrow> unmarshall \<Rightarrow> req_header \<times> unmarshall" where
  "unpack_req_header unpack u =
     (let (x, u1) = unpack (u\<lparr>u_ind := sizeof_rpc_sz\<rparr>);
          (p, u2) = unpack u1;
          (c, u3) = unpack u2;
          (s, u4) = unpack u3;
          (r, u5) = unpack u4
      in (\<lparr>req_xid = x, req_proc = p, clt_nonce = c, srv_nonce = s, xid_rep = r\<rparr>, u5\<lparr>u_ind := RPC_HEADER_SZ\<rparr>))"

definition unpack_reply_header :: "(unmarshall \<Rightarrow> u32 \<times> unmarshall) \<Rightarrow> unmarshall \<Rightarrow> reply_header \<times> unmarshall" where
  "unpack_reply_header unpack u =
     (let (x, u1) = unpack (u\<lparr>u_ind := sizeof_rpc_sz\<rparr>);
          (r, u2) = unpack u1
      in (\<lparr>rep_xid = x, rep_ret = r\<rparr>, u2\<lparr>u_ind := RPC_HEADER_SZ\<rparr>))"

subsection \<open>Vectors and maps\<close>

text \<open>The size is converted to \<open>unsigned int\<close>. The reader pushes behind what the vector holds.\<close>

definition out_vector :: "(u32 \<Rightarrow> marshall \<Rightarrow> marshall) \<Rightarrow> ('c \<Rightarrow> marshall \<Rightarrow> marshall) \<Rightarrow> 'c list \<Rightarrow> marshall \<Rightarrow> marshall" where
  "out_vector out_size out v m = fold out v (out_size (of_nat (length v)) m)"

fun in_items :: "nat \<Rightarrow> (unmarshall \<Rightarrow> 'c \<times> unmarshall) \<Rightarrow> 'c list \<Rightarrow> unmarshall \<Rightarrow> 'c list \<times> unmarshall" where
  "in_items 0 inp v u = (v, u)"
| "in_items (Suc n) inp v u = (let (z, u1) = inp u in in_items n inp (v @ [z]) u1)"

definition in_vector :: "(unmarshall \<Rightarrow> u32 \<times> unmarshall) \<Rightarrow> (unmarshall \<Rightarrow> 'c \<times> unmarshall) \<Rightarrow> 'c list \<Rightarrow> unmarshall
    \<Rightarrow> 'c list \<times> unmarshall" where
  "in_vector in_size inp v u = (let (n, u1) = in_size u in in_items (unat n) inp v u1)"

text \<open>A map is written as the list of its pairs in the order of the keys. The reader clears the map first.\<close>

definition out_map :: "(u32 \<Rightarrow> marshall \<Rightarrow> marshall) \<Rightarrow> ('a \<Rightarrow> marshall \<Rightarrow> marshall) \<Rightarrow> ('b \<Rightarrow> marshall \<Rightarrow> marshall)
    \<Rightarrow> ('a \<times> 'b) list \<Rightarrow> marshall \<Rightarrow> marshall" where
  "out_map out_size out_a out_b d m = fold (\<lambda>(a, b) m. out_b b (out_a a m)) d (out_size (of_nat (length d)) m)"

fun in_pairs :: "nat \<Rightarrow> (unmarshall \<Rightarrow> 'a \<times> unmarshall) \<Rightarrow> (unmarshall \<Rightarrow> 'b \<times> unmarshall) \<Rightarrow> ('a \<rightharpoonup> 'b) \<Rightarrow> unmarshall
    \<Rightarrow> ('a \<rightharpoonup> 'b) \<times> unmarshall" where
  "in_pairs 0 in_a in_b d u = (d, u)"
| "in_pairs (Suc n) in_a in_b d u =
     (let (a, u1) = in_a u; (b, u2) = in_b u1 in in_pairs n in_a in_b (d(a \<mapsto> b)) u2)"

definition in_map :: "(unmarshall \<Rightarrow> u32 \<times> unmarshall) \<Rightarrow> (unmarshall \<Rightarrow> 'a \<times> unmarshall) \<Rightarrow> (unmarshall \<Rightarrow> 'b \<times> unmarshall)
    \<Rightarrow> ('a \<rightharpoonup> 'b) \<Rightarrow> unmarshall \<Rightarrow> ('a \<rightharpoonup> 'b) \<times> unmarshall" where
  "in_map in_size in_a in_b d u = (let (n, u1) = in_size u in in_pairs (unat n) in_a in_b Map.empty u1)"

subsection \<open>Pairs of operators\<close>

text \<open>
  What is left to read; the object that reads what \<open>m\<close> holds, as it is after its header has been taken off;
  and what a pair of operators does for the values in \<open>D\<close>: it appends some bytes, and reads them off the
  front.
\<close>

definition remaining :: "unmarshall \<Rightarrow> bytes" where
  "remaining u = drop (u_ind u) (take (u_sz u) (u_buf u))"

definition received :: "marshall \<Rightarrow> unmarshall" where
  "received m = \<lparr>u_buf = m_buf m, u_sz = m_ind m, u_ind = RPC_HEADER_SZ, u_ok = True\<rparr>"

definition m_wf :: "marshall \<Rightarrow> bool" where
  "m_wf m \<longleftrightarrow> RPC_HEADER_SZ \<le> m_ind m \<and> m_ind m \<le> length (m_buf m)"

definition codes :: "('a \<Rightarrow> bool) \<Rightarrow> ('a \<Rightarrow> bytes) \<Rightarrow> ('a \<Rightarrow> marshall \<Rightarrow> marshall) \<Rightarrow> (unmarshall \<Rightarrow> 'a \<times> unmarshall) \<Rightarrow> bool" where
  "codes D f out inp \<longleftrightarrow> (\<forall>x m. D x \<and> m_wf m \<longrightarrow> m_wf (out x m) \<and> get_content (out x m) = get_content m @ f x)
     \<and> (\<forall>x u rest. D x \<and> u_ok u \<and> remaining u = f x @ rest \<longrightarrow>
          (\<exists>u'. inp u = (x, u') \<and> u_ok u' \<and> remaining u' = rest))"

lemma codes_out: "codes D f out inp \<Longrightarrow> D x \<Longrightarrow> m_wf m \<Longrightarrow> m_wf (out x m) \<and> get_content (out x m) = get_content m @ f x"
  by (simp add: codes_def)

lemma codes_in:
  assumes "codes D f out inp" "D x" "u_ok u" "remaining u = f x @ rest"
  obtains u' where "inp u = (x, u')" "u_ok u'" "remaining u' = rest"
  using assms unfolding codes_def by blast

lemma remaining_received [simp]: "remaining (received m) = get_content m"
  by (simp add: remaining_def received_def get_content_def drop_take)

lemma ok_received [simp]: "u_ok (received m)"
  by (simp add: received_def)

lemma out_fold: "codes D f out inp \<Longrightarrow> \<forall>x \<in> set v. D x \<Longrightarrow> m_wf m \<Longrightarrow> m_wf (fold out v m) \<and> get_content (fold out v m) = get_content m @ concat (map f v)"
  by (induction v arbitrary: m) (simp_all add: codes_out)

lemma in_items_reads:
  assumes "codes D f out inp" "\<forall>x \<in> set v. D x" "u_ok u" "remaining u = concat (map f v) @ rest"
  shows "\<exists>u'. in_items (length v) inp w u = (w @ v, u') \<and> u_ok u' \<and> remaining u' = rest"
  using assms(2-)
proof (induction v arbitrary: u w)
  case (Cons x v)
  obtain u1 where u1: "inp u = (x, u1)" "u_ok u1" "remaining u1 = concat (map f v) @ rest"
    using codes_in[OF assms(1) _ Cons.prems(2), of x "concat (map f v) @ rest"] Cons.prems(1,3) by auto
  from Cons.IH[OF _ u1(2,3), of "w @ [x]"] u1(1) Cons.prems(1) show ?case by simp
qed simp

lemma codes_vector:
  assumes "codes (\<lambda>_. True) g out_size in_size" "codes D f out inp" "\<forall>x \<in> set v. D x"
  shows "m_wf m \<Longrightarrow> m_wf (out_vector out_size out v m) \<and> get_content (out_vector out_size out v m) = get_content m @ g (of_nat (length v)) @ concat (map f v)"
    and "u_ok u \<Longrightarrow> remaining u = g (of_nat (length v)) @ concat (map f v) @ rest \<Longrightarrow> length v < 2 ^ 32 \<Longrightarrow>
      \<exists>u'. in_vector in_size inp w u = (w @ v, u') \<and> u_ok u' \<and> remaining u' = rest"
proof -
  show "m_wf (out_vector out_size out v m) \<and> get_content (out_vector out_size out v m) = get_content m @ g (of_nat (length v)) @ concat (map f v)"
    if "m_wf m" using that by (simp add: out_vector_def out_fold[OF assms(2,3)] codes_out[OF assms(1)])
  assume u: "u_ok u" "remaining u = g (of_nat (length v)) @ concat (map f v) @ rest" "length v < 2 ^ 32"
  obtain u1 where u1: "in_size u = (of_nat (length v), u1)" "u_ok u1" "remaining u1 = concat (map f v) @ rest"
    using TrueI u(1,2) by (rule codes_in[OF assms(1)])
  have "unat (of_nat (length v) :: u32) = length v" using u(3) by (simp add: unat_of_nat take_bit_nat_eq_self)
  then show "\<exists>u'. in_vector in_size inp w u = (w @ v, u') \<and> u_ok u' \<and> remaining u' = rest"
    using in_items_reads[OF assms(2,3) u1(2,3), of w] u1(1) by (simp add: in_vector_def)
qed

lemma in_pairs_reads:
  assumes "codes D f out_a in_a" "codes E g out_b in_b" "\<forall>(a, b) \<in> set v. D a \<and> E b" "u_ok u"
    "remaining u = concat (map (\<lambda>(a, b). f a @ g b) v) @ rest"
  shows "\<exists>u'. in_pairs (length v) in_a in_b d u = (d ++ map_of (rev v), u') \<and> u_ok u' \<and> remaining u' = rest"
  using assms(3-)
proof (induction v arbitrary: u d)
  case (Cons x v)
  obtain a b where x: "x = (a, b)" by (cases x)
  obtain u1 where u1: "in_a u = (a, u1)" "u_ok u1" "remaining u1 = g b @ concat (map (\<lambda>(a, b). f a @ g b) v) @ rest"
    using codes_in[OF assms(1) _ Cons.prems(2), of a "g b @ concat (map (\<lambda>(a, b). f a @ g b) v) @ rest"] Cons.prems(1,3) x by auto
  obtain u2 where u2: "in_b u1 = (b, u2)" "u_ok u2" "remaining u2 = concat (map (\<lambda>(a, b). f a @ g b) v) @ rest"
    using _ u1(2,3) by (rule codes_in[OF assms(2)]) (use Cons.prems(1) x in simp)
  have "d(a \<mapsto> b) ++ map_of (rev v) = d ++ map_of (rev (x # v))" by (simp add: x)
  moreover have "in_pairs (length (x # v)) in_a in_b d u = in_pairs (length v) in_a in_b (d(a \<mapsto> b)) u2"
    using u1(1) u2(1) by simp
  moreover have "\<forall>(a, b) \<in> set v. D a \<and> E b" using Cons.prems(1) by simp
  ultimately show ?case using Cons.IH[OF _ u2(2,3), of "d(a \<mapsto> b)"] by (simp only: simp_thms)
qed simp

lemma out_pairs:
  "codes D f out_a in_a \<Longrightarrow> codes E g out_b in_b \<Longrightarrow> \<forall>(a, b) \<in> set v. D a \<and> E b \<Longrightarrow> m_wf m \<Longrightarrow> m_wf (fold (\<lambda>(a, b) m. out_b b (out_a a m)) v m) \<and>
   get_content (fold (\<lambda>(a, b) m. out_b b (out_a a m)) v m) = get_content m @ concat (map (\<lambda>(a, b). f a @ g b) v)"
  by (induction v arbitrary: m) (auto simp: codes_out)

subsection \<open>The properties\<close>

text \<open>
  C35: Vectors and maps survive being written and read: a vector is read behind the elements that the
  receiving vector already holds, a map replaces what the receiving map holds.
\<close>

theorem containers_round_trip:
  assumes "codes (\<lambda>_. True) n out_size in_size" "codes D f out_a in_a" "codes E g out_b in_b"
    and "\<forall>x \<in> set v. D x" "\<forall>(a, b) \<in> set d. D a \<and> E b" "m_wf m" "get_content m = []"
    and "length v < 2 ^ 32" "length d < 2 ^ 32" "distinct (map fst d)"
  shows "fst (in_vector in_size in_a w (received (out_vector out_size out_a v m))) = w @ v
    \<and> fst (in_map in_size in_a in_b old (received (out_map out_size out_a out_b d m))) = map_of d"
proof -
  have "remaining (received (out_vector out_size out_a v m)) = n (of_nat (length v)) @ concat (map f v) @ []"
    using codes_vector(1)[OF assms(1,2,4,6)] assms(7) by simp
  from codes_vector(2)[OF assms(1,2,4) ok_received this assms(8), of w]
  have vec: "fst (in_vector in_size in_a w (received (out_vector out_size out_a v m))) = w @ v" by auto
  let ?u = "received (out_map out_size out_a out_b d m)"
  have u: "remaining ?u = n (of_nat (length d)) @ concat (map (\<lambda>(a, b). f a @ g b) d) @ []"
    using out_pairs[OF assms(2,3,5)] codes_out[OF assms(1) TrueI assms(6)] assms(7) by (simp add: out_map_def)
  obtain u1 where u1: "in_size ?u = (of_nat (length d), u1)" "u_ok u1" "remaining u1 = concat (map (\<lambda>(a, b). f a @ g b) d) @ []"
    by (rule codes_in[OF assms(1) TrueI ok_received u])
  have "unat (of_nat (length d) :: u32) = length d" using assms(9) by (simp add: unat_of_nat take_bit_nat_eq_self)
  moreover have "map_of (rev d) = map_of d" using assms(10) by (subst map_of_inject_set) (simp_all flip: rev_map)
  ultimately have "fst (in_map in_size in_a in_b old ?u) = map_of d"
    using in_pairs_reads[OF assms(2,3,5) u1(2,3), of Map.empty] u1(1) by (auto simp: in_map_def)
  then show ?thesis using vec by simp
qed

text \<open>Operators that store the low byte first, for the witnesses.\<close>

definition example_out :: "('a \<Rightarrow> bytes) \<Rightarrow> 'a \<Rightarrow> marshall \<Rightarrow> marshall" where
  "example_out f x m = \<lparr>m_buf = take (m_ind m) (m_buf m) @ f x, m_ind = m_ind m + length (f x)\<rparr>"

definition example_in :: "nat \<Rightarrow> (bytes \<Rightarrow> 'a) \<Rightarrow> unmarshall \<Rightarrow> 'a \<times> unmarshall" where
  "example_in n g u = (g (take n (remaining u)), u\<lparr>u_ind := u_ind u + n\<rparr>)"

lemma example_codes: "codec f g n \<Longrightarrow> codes (\<lambda>_. True) f (example_out f) (example_in n g)"
proof -
  assume c: "codec f g n"
  have "\<exists>u'. example_in n g u = (x, u') \<and> u_ok u' \<and> remaining u' = rest" if "u_ok u" "remaining u = f x @ rest" for x u rest
  proof -
    have "remaining (u\<lparr>u_ind := u_ind u + n\<rparr>) = drop n (remaining u)" by (simp add: remaining_def add.commute)
    then show ?thesis using that codec.width_enc[OF c, of x] codec.dec_enc[OF c, of x] by (simp add: example_in_def)
  qed
  moreover have "m_wf (example_out f x m) \<and> get_content (example_out f x m) = get_content m @ f x" if "m_wf m" for x m
    using that by (auto simp: example_out_def m_wf_def get_content_def drop_take)
  ultimately show ?thesis by (simp add: codes_def)
qed

lemma example_u32: "codes (\<lambda>_. True) bytes_of_u32 (example_out bytes_of_u32) (example_in 4 u32_of_bytes)"
  by (rule example_codes) (rule c32.codec_axioms)

lemma example_marshall: "m_wf (marshall_init (replicate 1024 0))" "get_content (marshall_init (replicate 1024 0)) = []"
  by (simp_all add: m_wf_def marshall_init_def get_content_def)

theorem containers_round_trip_witness:
  "let out = example_out bytes_of_u32; inp = example_in 4 u32_of_bytes; m = marshall_init (replicate 1024 0)
   in fst (in_vector inp inp [5] (received (out_vector out out [6, 7] m))) = [5, 6, 7]
    \<and> fst (in_map inp inp inp [9 \<mapsto> 9] (received (out_map out out out [(1, 2), (3, 4)] m))) = [1 \<mapsto> 2, 3 \<mapsto> 4]"
  using containers_round_trip[OF example_u32 example_u32 example_u32 _ _ example_marshall, of "[6, 7]" "[(1, 2), (3, 4)]" "[5]" "[9 \<mapsto> 9]"]
  by (simp add: Let_def fun_upd_twist)

text \<open>What \<open>pack\<close> and \<open>unpack\<close> do: four bytes at the head, which moves behind them.\<close>

definition packs :: "(u32 \<Rightarrow> bytes) \<Rightarrow> (u32 \<Rightarrow> marshall \<Rightarrow> marshall) \<Rightarrow> (unmarshall \<Rightarrow> u32 \<times> unmarshall) \<Rightarrow> bool" where
  "packs f pack unpack \<longleftrightarrow> (\<forall>w. length (f w) = 4)
     \<and> (\<forall>w m. m_ind m + 4 \<le> length (m_buf m) \<longrightarrow>
          pack w m = m\<lparr>m_buf := take (m_ind m) (m_buf m) @ f w @ drop (m_ind m + 4) (m_buf m), m_ind := m_ind m + 4\<rparr>)
     \<and> (\<forall>w u. u_ok u \<and> u_ind u + 4 \<le> u_sz u \<and> take 4 (drop (u_ind u) (u_buf u)) = f w \<longrightarrow>
          unpack u = (w, u\<lparr>u_ind := u_ind u + 4\<rparr>))"

lemma pack_many:
  assumes "packs f pack unpack"
  shows "m_ind m + 4 * length ws \<le> length (m_buf m) \<Longrightarrow> fold pack ws m
    = m\<lparr>m_buf := take (m_ind m) (m_buf m) @ concat (map f ws) @ drop (m_ind m + 4 * length ws) (m_buf m),
        m_ind := m_ind m + 4 * length ws\<rparr>"
proof (induction ws arbitrary: m)
  case (Cons w ws)
  have f: "length (f w) = 4" "pack w m = m\<lparr>m_buf := take (m_ind m) (m_buf m) @ f w @ drop (m_ind m + 4) (m_buf m), m_ind := m_ind m + 4\<rparr>"
    using assms Cons.prems unfolding packs_def by auto
  show ?case
    using Cons.IH[of "pack w m"] Cons.prems f by (simp add: min_def add.commute)
qed simp

lemma unpack_next:
  assumes "packs f pack unpack" "u_ok u" "u_buf u = pre @ f w @ post" "length pre = u_ind u" "u_ind u + 4 \<le> u_sz u"
  shows "unpack u = (w, u\<lparr>u_ind := u_ind u + 4\<rparr>)"
proof -
  have "length (f w) = 4" using assms(1) unfolding packs_def by blast
  then have "take 4 (drop (u_ind u) (u_buf u)) = f w" using assms(3) by (simp add: assms(4)[symmetric])
  then show ?thesis using assms(1,2,5) unfolding packs_def by blast
qed

text \<open>
  C36: The header of a request comes back from the buffer it was packed into, and packing it changes
  nothing of the content behind it.
\<close>

theorem req_header_round_trip:
  assumes "packs f pack unpack" "RPC_HEADER_SZ \<le> length (m_buf m)" "RPC_HEADER_SZ \<le> m_ind m"
  shows "let m' = pack_req_header pack h m
    in unpack_req_header unpack (unmarshall_of (m_buf m') (m_ind m')) = (h, received m') \<and> get_content m' = get_content m"
proof -
  let ?m' = "pack_req_header pack h m"
  let ?ws = "[req_xid h, req_proc h, clt_nonce h, srv_nonce h, xid_rep h]"
  let ?pre = "take 4 (m_buf m)" and ?post = "drop 24 (m_buf m)"
  have len: "length (f w) = 4" for w using assms(1) unfolding packs_def by blast
  have "fold pack ?ws (m\<lparr>m_ind := 4\<rparr>) = m\<lparr>m_buf := ?pre @ concat (map f ?ws) @ ?post, m_ind := 24\<rparr>"
    using pack_many[OF assms(1), of "m\<lparr>m_ind := 4\<rparr>" ?ws] assms(2) by simp
  then have m': "?m' = m\<lparr>m_buf := ?pre @ concat (map f ?ws) @ ?post\<rparr>"
    by (simp add: pack_req_header_def Let_def)
  have "drop 24 (?pre @ concat (map f ?ws) @ ?post) = ?post" using assms(2) len by simp
  then have content: "get_content ?m' = get_content m" unfolding m' by (simp add: get_content_def)
  let ?u = "\<lambda>i. \<lparr>u_buf = ?pre @ concat (map f ?ws) @ ?post, u_sz = m_ind m, u_ind = i, u_ok = True\<rparr>"
  have sz: "24 \<le> m_ind m" "length ?pre = 4" using assms(2,3) by simp_all
  have 1: "unpack (?u 4) = (req_xid h, ?u 8)"
    using unpack_next[OF assms(1), of "?u 4" ?pre "req_xid h"] sz by simp
  have 2: "unpack (?u 8) = (req_proc h, ?u 12)"
    using unpack_next[OF assms(1), of "?u 8" "?pre @ f (req_xid h)" "req_proc h"] sz len by simp
  have 3: "unpack (?u 12) = (clt_nonce h, ?u 16)"
    using unpack_next[OF assms(1), of "?u 12" "?pre @ f (req_xid h) @ f (req_proc h)" "clt_nonce h"] sz len by simp
  have 4: "unpack (?u 16) = (srv_nonce h, ?u 20)"
    using unpack_next[OF assms(1), of "?u 16" "?pre @ f (req_xid h) @ f (req_proc h) @ f (clt_nonce h)" "srv_nonce h"] sz len by simp
  have 5: "unpack (?u 20) = (xid_rep h, ?u 24)"
    using unpack_next[OF assms(1), of "?u 20" "?pre @ f (req_xid h) @ f (req_proc h) @ f (clt_nonce h) @ f (srv_nonce h)" "xid_rep h"] sz len
    by simp
  have "(unmarshall_of (m_buf ?m') (m_ind ?m'))\<lparr>u_ind := 4\<rparr> = ?u 4" unfolding m' by (simp add: unmarshall_of_def)
  then have "unpack_req_header unpack (unmarshall_of (m_buf ?m') (m_ind ?m')) = (h, received ?m')"
    unfolding unpack_req_header_def Let_def by (simp only: 1 2 3 4 5 case_prod_conv) (simp add: received_def m')
  then show ?thesis using content by (simp add: Let_def)
qed

lemma example_packs: "packs bytes_of_u32
    (\<lambda>w m. m\<lparr>m_buf := take (m_ind m) (m_buf m) @ bytes_of_u32 w @ drop (m_ind m + 4) (m_buf m), m_ind := m_ind m + 4\<rparr>)
    (\<lambda>u. (u32_of_bytes (take 4 (drop (u_ind u) (u_buf u))), u\<lparr>u_ind := u_ind u + 4\<rparr>))"
  by (auto simp: packs_def c32.width_enc c32.dec_enc)

theorem req_header_round_trip_witness:
  "\<exists>pack unpack. let m' = pack_req_header pack \<lparr>req_xid = 1, req_proc = 0x6001, clt_nonce = 3, srv_nonce = 4, xid_rep = 5\<rparr>
       (marshall_init (replicate 1024 0))
     in fst (unpack_req_header unpack (unmarshall_of (m_buf m') (m_ind m')))
          = \<lparr>req_xid = 1, req_proc = 0x6001, clt_nonce = 3, srv_nonce = 4, xid_rep = 5\<rparr>"
proof -
  have len: "RPC_HEADER_SZ \<le> length (m_buf (marshall_init (replicate 1024 0)))" "RPC_HEADER_SZ \<le> m_ind (marshall_init (replicate 1024 0))"
    by (simp_all add: marshall_init_def)
  note rt = req_header_round_trip[OF example_packs len, unfolded Let_def, THEN conjunct1]
  from arg_cong[OF rt, of fst] show ?thesis unfolding Let_def fst_conv by blast
qed

end
