(* ===== verification/Rpc_Call.thy ===== *)
theory Rpc_Call imports Rpc_Marshall begin

text \<open>
  The templates of \<open>rpc/rpc.h\<close>: \<open>rpcc::call\<close> for up to seven arguments, and the handlers that \<open>rpcs::reg\<close>
  makes of methods with as many. Sending a request and waiting for its reply (\<open>call1\<close>), and the operators for
  the types, are arguments. Arguments are written and read one after the other, which \<open>out_then\<close>
  and \<open>in_then\<close> compose.
\<close>

subsection \<open>Constants of class rpc_const\<close>

abbreviation (input) unmarshal_args_failure :: int where "unmarshal_args_failure \<equiv> - 2"
abbreviation (input) unmarshal_reply_failure :: int where "unmarshal_reply_failure \<equiv> - 3"

subsection \<open>One value after the other\<close>

type_synonym 'a writer = "'a \<Rightarrow> marshall \<Rightarrow> marshall"
type_synonym 'a reader = "unmarshall \<Rightarrow> 'a \<times> unmarshall"

definition out_then :: "'a writer \<Rightarrow> 'b writer \<Rightarrow> ('a \<times> 'b) writer" where
  "out_then out1 out2 x m = out2 (snd x) (out1 (fst x) m)"

definition in_then :: "'a reader \<Rightarrow> 'b reader \<Rightarrow> ('a \<times> 'b) reader" where
  "in_then in1 in2 u = (let (a, u1) = in1 u; (b, u2) = in2 u1 in ((a, b), u2))"

lemma codes_then: "codes D f out1 in1 \<Longrightarrow> codes E g out2 in2 \<Longrightarrow>
  codes (\<lambda>x. D (fst x) \<and> E (snd x)) (\<lambda>x. f (fst x) @ g (snd x)) (out_then out1 out2) (in_then in1 in2)"
proof -
  assume c: "codes D f out1 in1" "codes E g out2 in2"
  have "\<exists>u'. in_then in1 in2 u = (x, u') \<and> u_ok u' \<and> remaining u' = rest"
    if D: "D (fst x)" "E (snd x)" and u: "u_ok u" "remaining u = (f (fst x) @ g (snd x)) @ rest" for x u rest
  proof -
    have "remaining u = f (fst x) @ g (snd x) @ rest" using u(2) by simp
    from codes_in[OF c(1) D(1) u(1) this] obtain u1 where u1: "in1 u = (fst x, u1)" "u_ok u1" "remaining u1 = g (snd x) @ rest" .
    from codes_in[OF c(2) D(2) u1(2,3)] obtain u2 where "in2 u1 = (snd x, u2)" "u_ok u2" "remaining u2 = rest" .
    then show ?thesis using u1(1) by (simp add: in_then_def)
  qed
  then show ?thesis by (simp add: codes_def out_then_def codes_out[OF c(1)] codes_out[OF c(2)])
qed

subsection \<open>Calling\<close>

text \<open>
  \<open>call1\<close> returns the result of the call and the object that the reply is read from. A reply that cannot be
  read fails a \<open>VERIFY\<close>. The reference parameter \<open>r\<close> has the value \<open>r0\<close> before.
\<close>

type_synonym 's call1 = "u32 \<Rightarrow> marshall \<Rightarrow> int \<Rightarrow> 's \<Rightarrow> fault + int \<times> unmarshall \<times> 's"

definition call_m :: "'s call1 \<Rightarrow> 'r reader \<Rightarrow> (unmarshall \<Rightarrow> bool) \<Rightarrow> u32 \<Rightarrow> marshall \<Rightarrow> 'r \<Rightarrow> int \<Rightarrow> 's \<Rightarrow> fault + int \<times> 'r \<times> 's" where
  "call_m call1 inr okdone proc req r0 tmo s = bindF (call1 proc req tmo s) (\<lambda>(intret, u, s1).
     if intret < 0 then Inr (intret, r0, s1)
     else let (r, u1) = inr u in if okdone u1 \<noteq> True then Inl Aborted else Inr (intret, r, s1))"

definition call_0 :: "bytes \<Rightarrow> 's call1 \<Rightarrow> 'r reader \<Rightarrow> (unmarshall \<Rightarrow> bool) \<Rightarrow> u32 \<Rightarrow> 'r \<Rightarrow> int \<Rightarrow> 's \<Rightarrow> fault + int \<times> 'r \<times> 's" where
  "call_0 garbage call1 inr okdone proc r0 tmo s = call_m call1 inr okdone proc (marshall_init garbage) r0 tmo s"

definition call_1 :: "bytes \<Rightarrow> 's call1 \<Rightarrow> 'r reader \<Rightarrow> (unmarshall \<Rightarrow> bool) \<Rightarrow> 'a1 writer \<Rightarrow> u32 \<Rightarrow> 'a1 \<Rightarrow> 'r \<Rightarrow> int \<Rightarrow> 's
    \<Rightarrow> fault + int \<times> 'r \<times> 's" where
  "call_1 garbage call1 inr okdone out proc a1 r0 tmo s = call_m call1 inr okdone proc (out a1 (marshall_init garbage)) r0 tmo s"

definition call_2 where
  "call_2 garbage call1 inr okdone out1 out2 proc a1 a2 r0 tmo s =
     call_m call1 inr okdone proc (out2 a2 (out1 a1 (marshall_init garbage))) r0 tmo s"

definition call_3 where
  "call_3 garbage call1 inr okdone out1 out2 out3 proc a1 a2 a3 r0 tmo s =
     call_m call1 inr okdone proc (out3 a3 (out2 a2 (out1 a1 (marshall_init garbage)))) r0 tmo s"

definition call_4 where
  "call_4 garbage call1 inr okdone out1 out2 out3 out4 proc a1 a2 a3 a4 r0 tmo s =
     call_m call1 inr okdone proc (out4 a4 (out3 a3 (out2 a2 (out1 a1 (marshall_init garbage))))) r0 tmo s"

definition call_5 where
  "call_5 garbage call1 inr okdone out1 out2 out3 out4 out5 proc a1 a2 a3 a4 a5 r0 tmo s =
     call_m call1 inr okdone proc (out5 a5 (out4 a4 (out3 a3 (out2 a2 (out1 a1 (marshall_init garbage)))))) r0 tmo s"

definition call_6 where
  "call_6 garbage call1 inr okdone out1 out2 out3 out4 out5 out6 proc a1 a2 a3 a4 a5 a6 r0 tmo s =
     call_m call1 inr okdone proc (out6 a6 (out5 a5 (out4 a4 (out3 a3 (out2 a2 (out1 a1 (marshall_init garbage))))))) r0 tmo s"

definition call_7 where
  "call_7 garbage call1 inr okdone out1 out2 out3 out4 out5 out6 out7 proc a1 a2 a3 a4 a5 a6 a7 r0 tmo s =
     call_m call1 inr okdone proc (out7 a7 (out6 a6 (out5 a5 (out4 a4 (out3 a3 (out2 a2 (out1 a1 (marshall_init garbage)))))))) r0 tmo s"

subsection \<open>Handlers\<close>

text \<open>
  The function \<open>fn\<close> of the handler for a method: it reads the arguments, refuses them if they are not all
  there or not all, and otherwise writes the result of the method. The result variable \<open>r\<close> is not
  initialised: \<open>r0\<close> stands for what it holds.
\<close>

type_synonym 's handler = "unmarshall \<Rightarrow> marshall \<Rightarrow> 's \<Rightarrow> fault + int \<times> marshall \<times> 's"

definition handler_fn :: "'a reader \<Rightarrow> (unmarshall \<Rightarrow> bool) \<Rightarrow> 'r writer \<Rightarrow> ('a \<Rightarrow> 'r \<Rightarrow> 's \<Rightarrow> fault + int \<times> 'r \<times> 's) \<Rightarrow> 'r \<Rightarrow> 's handler" where
  "handler_fn inp okdone outr meth r0 args ret s =
     (let (a, args1) = inp args
      in if \<not> okdone args1 then Inr (unmarshal_args_failure, ret, s)
         else bindF (meth a r0 s) (\<lambda>(b, r, s1). Inr (b, outr r ret, s1)))"

definition reg_1 where
  "reg_1 in1 okdone outr meth = handler_fn in1 okdone outr meth"

definition reg_2 where
  "reg_2 in1 in2 okdone outr meth = handler_fn (in_then in1 in2) okdone outr (\<lambda>(a1, a2). meth a1 a2)"

definition reg_3 where
  "reg_3 in1 in2 in3 okdone outr meth =
     handler_fn (in_then (in_then in1 in2) in3) okdone outr (\<lambda>((a1, a2), a3). meth a1 a2 a3)"

definition reg_4 where
  "reg_4 in1 in2 in3 in4 okdone outr meth =
     handler_fn (in_then (in_then (in_then in1 in2) in3) in4) okdone outr (\<lambda>(((a1, a2), a3), a4). meth a1 a2 a3 a4)"

definition reg_5 where
  "reg_5 in1 in2 in3 in4 in5 okdone outr meth =
     handler_fn (in_then (in_then (in_then (in_then in1 in2) in3) in4) in5) okdone outr
       (\<lambda>((((a1, a2), a3), a4), a5). meth a1 a2 a3 a4 a5)"

definition reg_6 where
  "reg_6 in1 in2 in3 in4 in5 in6 okdone outr meth =
     handler_fn (in_then (in_then (in_then (in_then (in_then in1 in2) in3) in4) in5) in6) okdone outr
       (\<lambda>(((((a1, a2), a3), a4), a5), a6). meth a1 a2 a3 a4 a5 a6)"

definition reg_7 where
  "reg_7 in1 in2 in3 in4 in5 in6 in7 okdone outr meth =
     handler_fn (in_then (in_then (in_then (in_then (in_then (in_then in1 in2) in3) in4) in5) in6) in7) okdone outr
       (\<lambda>((((((a1, a2), a3), a4), a5), a6), a7). meth a1 a2 a3 a4 a5 a6 a7)"

subsection \<open>A call that arrives\<close>

text \<open>
  What is expected of \<open>call1\<close> when the request and the reply arrive: the handler of the number runs once, on
  the content of the request, and its reply comes back. And of \<open>okdone\<close>: it accepts an object without
  errors that has been read to its end.
\<close>

definition delivers :: "bytes \<Rightarrow> 's call1 \<Rightarrow> (u32 \<Rightarrow> 's handler option) \<Rightarrow> bool" where
  "delivers garbage call1 procs \<longleftrightarrow> (\<forall>proc h req tmo s. procs proc = Some h \<longrightarrow>
     call1 proc req tmo s = bindF (h (received req) (marshall_init garbage) s) (\<lambda>(b, ret, s1). Inr (b, received ret, s1)))"

definition accepts_done :: "(unmarshall \<Rightarrow> bool) \<Rightarrow> bool" where
  "accepts_done okdone \<longleftrightarrow> (\<forall>u. u_ok u \<and> remaining u = [] \<longrightarrow> okdone u)"

definition refuses_rest :: "(unmarshall \<Rightarrow> bool) \<Rightarrow> bool" where
  "refuses_rest okdone \<longleftrightarrow> (\<forall>u. okdone u \<longrightarrow> remaining u = [])"

lemma init_wf: "24 \<le> length garbage \<Longrightarrow> m_wf (marshall_init garbage)" "get_content (marshall_init garbage) = []"
  by (simp_all add: m_wf_def marshall_init_def get_content_def)

lemma handler_reads:
  assumes "codes D f outa ina" "accepts_done okdone" "D a" "get_content m = f a"
  shows "handler_fn ina okdone outr meth rj (received m) ret s = bindF (meth a rj s) (\<lambda>(b, r, s1). Inr (b, outr r ret, s1))"
proof -
  obtain u where u: "ina (received m) = (a, u)" "u_ok u" "remaining u = []"
    using codes_in[OF assms(1,3) ok_received, of m "[]"] assms(4) by auto
  then have "okdone u" using assms(2) by (simp add: accepts_done_def)
  then show ?thesis using u(1) by (simp add: handler_fn_def)
qed

lemma handler_refuses:
  assumes "codes D f outa ina" "refuses_rest okdone" "D a" "get_content m = f a @ rest" "rest \<noteq> []"
  shows "handler_fn ina okdone outr meth rj (received m) ret s = Inr (unmarshal_args_failure, ret, s)"
proof -
  have r: "remaining (received m) = f a @ rest" using assms(4) by simp
  obtain u where u: "ina (received m) = (a, u)" "remaining u = rest"
    by (rule codes_in[OF assms(1,3) ok_received r]) (rule that)
  then have "\<not> okdone u" using assms(2,5) by (auto simp: refuses_rest_def)
  then show ?thesis using u(1) by (simp add: handler_fn_def)
qed

lemma call_m_reads:
  assumes "codes E g outr inr" "accepts_done okdone" "24 \<le> length garbage" "E r"
    and "call1 proc req tmo s = Inr (b, received (outr r (marshall_init garbage)), s1)"
  shows "call_m call1 inr okdone proc req r0 tmo s = Inr (b, (if b < 0 then r0 else r), s1)"
proof -
  have "get_content (outr r (marshall_init garbage)) = g r"
    using codes_out[OF assms(1,4) init_wf(1)[OF assms(3)]] init_wf(2) by simp
  then obtain u where "inr (received (outr r (marshall_init garbage))) = (r, u)" "u_ok u" "remaining u = []"
    using codes_in[OF assms(1,4) ok_received, of "outr r (marshall_init garbage)" "[]"] by auto
  then show ?thesis using assms(2,5) by (simp add: call_m_def accepts_done_def)
qed

lemma call_arrives:
  assumes "codes D f outa ina" "codes E g outr inr" "accepts_done okdone" "delivers garbage call1 procs" "24 \<le> length garbage"
    and "procs proc = Some (handler_fn ina okdone outr meth rj)" "D a" "\<And>b r s1. meth a rj s = Inr (b, r, s1) \<Longrightarrow> E r"
  shows "call_m call1 inr okdone proc (outa a (marshall_init garbage)) r0 tmo s
    = bindF (meth a rj s) (\<lambda>(b, r, s1). Inr (b, (if b < 0 then r0 else r), s1))"
proof -
  let ?m = "marshall_init garbage"
  have "get_content (outa a ?m) = f a" using codes_out[OF assms(1,7) init_wf(1)[OF assms(5)]] init_wf(2) by simp
  note h = handler_reads[OF assms(1,3,7) this]
  have c: "call1 proc (outa a ?m) tmo s = bindF (bindF (meth a rj s) (\<lambda>(b, r, s1). Inr (b, outr r ?m, s1))) (\<lambda>(b, ret, s1). Inr (b, received ret, s1))"
    using assms(4,6) by (simp add: delivers_def h)
  show ?thesis
  proof (cases "meth a rj s")
    case (Inr x)
    obtain b r s1 where x: "x = (b, r, s1)" by (cases x)
    have "call1 proc (outa a ?m) tmo s = Inr (b, received (outr r ?m), s1)" using c Inr x by simp
    with assms(8) Inr x show ?thesis by (subst call_m_reads[OF assms(2,3,5), of r]) auto
  qed (simp add: call_m_def c)
qed

subsection \<open>Properties\<close>

text \<open>For the witnesses: a delivery in one step, and an \<open>okdone\<close>.\<close>

definition example_call1 :: "bytes \<Rightarrow> (u32 \<Rightarrow> 's handler option) \<Rightarrow> 's call1" where
  "example_call1 garbage procs proc req tmo s = (case procs proc of None \<Rightarrow> Inl Aborted
     | Some h \<Rightarrow> bindF (h (received req) (marshall_init garbage) s) (\<lambda>(b, ret, s1). Inr (b, received ret, s1)))"

definition example_okdone :: "unmarshall \<Rightarrow> bool" where
  "example_okdone u \<longleftrightarrow> u_ok u \<and> remaining u = []"

lemma example_delivers: "delivers garbage (example_call1 garbage procs) procs"
  by (simp add: delivers_def example_call1_def)

lemma example_accepts: "accepts_done example_okdone"
  by (simp add: accepts_done_def example_okdone_def)

lemma example_refuses: "refuses_rest example_okdone"
  by (simp add: refuses_rest_def example_okdone_def)

text \<open>
  C34: With operators that read back what they write, \<open>call\<close> with seven arguments hands
  \<open>call1\<close> one request, from which the handler that \<open>reg\<close> makes of a method with
  seven runs the method on just these arguments and writes its result, while that of a method with six
  refuses it and runs nothing. And when \<open>call1\<close> returns what such a handler writes,
  \<open>call\<close> returns the result, or leaves the caller's as it was when the status is negative.
\<close>

theorem request_fits_handler:
  assumes "codes D1 f1 o1 i1" "codes D2 f2 o2 i2" "codes D3 f3 o3 i3" "codes D4 f4 o4 i4" "codes D5 f5 o5 i5"
    "codes D6 f6 o6 i6" "codes D7 f7 o7 i7" "codes E g outr inr" "accepts_done okdone" "refuses_rest okdone" "24 \<le> length garbage"
    and "D1 a1" "D2 a2" "D3 a3" "D4 a4" "D5 a5" "D6 a6" "D7 a7" "f7 a7 \<noteq> []"
  shows "\<exists>req. (\<forall>call1 r0 tmo s. call_7 garbage call1 inr okdone o1 o2 o3 o4 o5 o6 o7 proc a1 a2 a3 a4 a5 a6 a7 r0 tmo s
        = call_m call1 inr okdone proc req r0 tmo s)
    \<and> (\<forall>meth rj ret t. reg_7 i1 i2 i3 i4 i5 i6 i7 okdone outr meth rj (received req) ret t
        = bindF (meth a1 a2 a3 a4 a5 a6 a7 rj t) (\<lambda>(b, r, t1). Inr (b, outr r ret, t1)))
    \<and> (\<forall>meth rj ret t. reg_6 i1 i2 i3 i4 i5 i6 okdone outr meth rj (received req) ret t = Inr (unmarshal_args_failure, ret, t))
    \<and> (\<forall>call1 b r r0 tmo s s1. E r \<and> call1 proc req tmo s = Inr (b, received (outr r (marshall_init garbage)), s1)
        \<longrightarrow> call_m call1 inr okdone proc req r0 tmo s = Inr (b, (if b < 0 then r0 else r), s1))"
proof -
  note c6 = codes_then[OF codes_then[OF codes_then[OF codes_then[OF codes_then[OF assms(1,2)] assms(3)] assms(4)] assms(5)] assms(6)]
  let ?req6 = "o6 a6 (o5 a5 (o4 a4 (o3 a3 (o2 a2 (o1 a1 (marshall_init garbage))))))"
  let ?f6 = "f1 a1 @ f2 a2 @ f3 a3 @ f4 a4 @ f5 a5 @ f6 a6"
  have r6: "m_wf ?req6 \<and> get_content ?req6 = ?f6"
    using codes_out[OF c6, of "(((((a1, a2), a3), a4), a5), a6)" "marshall_init garbage"] init_wf(1)[OF assms(11)] init_wf(2) assms(12-17)
    by (simp add: out_then_def)
  then have req: "get_content (o7 a7 ?req6) = ?f6 @ f7 a7" using codes_out[OF assms(7,18)] by simp
  show ?thesis
  proof (intro exI[of _ "o7 a7 ?req6"] conjI allI impI)
    show "reg_7 i1 i2 i3 i4 i5 i6 i7 okdone outr meth rj (received (o7 a7 ?req6)) ret t
        = bindF (meth a1 a2 a3 a4 a5 a6 a7 rj t) (\<lambda>(b, r, t1). Inr (b, outr r ret, t1))" for meth rj ret t
      unfolding reg_7_def
      by (subst handler_reads[OF codes_then[OF c6 assms(7)] assms(9), of "((((((a1, a2), a3), a4), a5), a6), a7)"])
        (use req assms(12-18) in simp_all)
    show "reg_6 i1 i2 i3 i4 i5 i6 okdone outr meth rj (received (o7 a7 ?req6)) ret t = Inr (unmarshal_args_failure, ret, t)" for meth rj ret t
      unfolding reg_6_def
      by (rule handler_refuses[OF c6 assms(10), of "(((((a1, a2), a3), a4), a5), a6)" _ "f7 a7"])
        (use req assms(12-17,19) in simp_all)
    show "call_m call1 inr okdone proc (o7 a7 ?req6) r0 tmo s = Inr (b, (if b < 0 then r0 else r), s1)"
      if "E r \<and> call1 proc (o7 a7 ?req6) tmo s = Inr (b, received (outr r (marshall_init garbage)), s1)" for call1 b r r0 tmo s s1
      using that by (intro call_m_reads[OF assms(8,9,11)]) simp_all
  qed (simp add: call_7_def)
qed

theorem request_fits_handler_witness:
  "let o32 = example_out bytes_of_u32; i32 = example_in 4 u32_of_bytes; garbage = replicate 1024 0;
       meth = (\<lambda>a1 a2 a3 a4 a5 a6 a7 r s. Inr (0 :: int, a1 + 2 * a2 + 3 * a3 + 4 * a4 + 5 * a5 + 6 * a6 + 7 * a7, s + 1 :: nat))
   in \<exists>req. (\<forall>call1 :: nat call1. \<forall>r0 tmo s. call_7 garbage call1 i32 example_okdone o32 o32 o32 o32 o32 o32 o32 7 1 2 3 4 5 6 7 r0 tmo s
          = call_m call1 i32 example_okdone 7 req r0 tmo s)
     \<and> (\<forall>ret. reg_7 i32 i32 i32 i32 i32 i32 i32 example_okdone o32 meth 99 (received req) ret 5 = Inr (0, o32 140 ret, 6))"
proof -
  let ?meth = "\<lambda>a1 a2 a3 a4 a5 a6 a7 (r :: u32) s.
    Inr (0 :: int, a1 + 2 * a2 + 3 * a3 + 4 * a4 + 5 * a5 + 6 * a6 + 7 * a7, s + 1 :: nat) :: fault + int \<times> u32 \<times> nat"
  have g: "24 \<le> length (replicate 1024 (0 :: u8))" "bytes_of_u32 7 \<noteq> []" using c32.width_enc[of 7] by auto
  from request_fits_handler[OF example_u32 example_u32 example_u32 example_u32 example_u32 example_u32 example_u32 example_u32
      example_accepts example_refuses g(1) TrueI TrueI TrueI TrueI TrueI TrueI TrueI g(2), of 7 1 2 3 4 5 6]
  obtain req where req: "\<forall>(call1 :: nat call1) r0 tmo s. call_7 (replicate 1024 0) call1 (example_in 4 u32_of_bytes) example_okdone
        (example_out bytes_of_u32) (example_out bytes_of_u32) (example_out bytes_of_u32) (example_out bytes_of_u32)
        (example_out bytes_of_u32) (example_out bytes_of_u32) (example_out bytes_of_u32) 7 1 2 3 4 5 6 7 r0 tmo s
      = call_m call1 (example_in 4 u32_of_bytes) example_okdone 7 req r0 tmo s"
    and meth: "\<forall>(meth :: u32 \<Rightarrow> u32 \<Rightarrow> u32 \<Rightarrow> u32 \<Rightarrow> u32 \<Rightarrow> u32 \<Rightarrow> u32 \<Rightarrow> u32 \<Rightarrow> nat \<Rightarrow> fault + int \<times> u32 \<times> nat) rj ret t.
      reg_7 (example_in 4 u32_of_bytes) (example_in 4 u32_of_bytes) (example_in 4 u32_of_bytes) (example_in 4 u32_of_bytes)
        (example_in 4 u32_of_bytes) (example_in 4 u32_of_bytes) (example_in 4 u32_of_bytes) example_okdone (example_out bytes_of_u32)
        meth rj (received req) ret t = bindF (meth 1 2 3 4 5 6 7 rj t) (\<lambda>(b, r, t1). Inr (b, example_out bytes_of_u32 r ret, t1))"
    by (elim exE conjE) (rule that)
  have "reg_7 (example_in 4 u32_of_bytes) (example_in 4 u32_of_bytes) (example_in 4 u32_of_bytes) (example_in 4 u32_of_bytes)
      (example_in 4 u32_of_bytes) (example_in 4 u32_of_bytes) (example_in 4 u32_of_bytes) example_okdone (example_out bytes_of_u32)
      ?meth 99 (received req) ret 5 = Inr (0, example_out bytes_of_u32 140 ret, 6)" for ret
    unfolding meth[rule_format] by simp
  then show ?thesis using req by (simp only: Let_def) blast
qed

text \<open>
  A call with an argument more than the method takes is refused by the handler: the method is not
  run, the server's state does not change, and the caller's result stays as it was.
\<close>

lemma surplus_argument_refused:
  assumes "codes D f out1 in1" "codes E g out2 in2" "D a1" "E a2" "g a2 \<noteq> []"
    and "\<And>u. okdone u \<Longrightarrow> remaining u = []" "delivers garbage call1 procs" "24 \<le> length garbage"
    and "procs proc = Some (reg_1 in1 okdone outr meth rj)"
  shows "call_2 garbage call1 inr okdone out1 out2 proc a1 a2 r0 tmo s = Inr (unmarshal_args_failure, r0, s)"
proof -
  let ?m = "marshall_init garbage"
  have m1: "m_wf (out1 a1 ?m) \<and> get_content (out1 a1 ?m) = f a1"
    using codes_out[OF assms(1,3) init_wf(1)[OF assms(8)]] init_wf(2) by simp
  then have "get_content (out2 a2 (out1 a1 ?m)) = f a1 @ g a2" using codes_out[OF assms(2,4)] by simp
  then have r: "remaining (received (out2 a2 (out1 a1 ?m))) = f a1 @ g a2" by simp
  obtain u where u: "in1 (received (out2 a2 (out1 a1 ?m))) = (a1, u)" "remaining u = g a2"
    by (rule codes_in[OF assms(1,3) ok_received r]) (rule that)
  have "\<not> okdone u" using assms(5,6) u(2) by auto
  then have "reg_1 in1 okdone outr meth rj (received (out2 a2 (out1 a1 ?m))) ?m s = Inr (unmarshal_args_failure, ?m, s)"
    using u(1) by (simp add: reg_1_def handler_fn_def)
  then show ?thesis using assms(7,9) by (simp add: call_2_def call_m_def delivers_def)
qed

end
