(* ===== verification/Extent_Rpc.thy ===== *)
theory Extent_Rpc imports Rpc_Call Chfs_Files begin

text \<open>
  The RPC interface of \<open>extent_server\<close>: the numbers and the \<open>attr\<close> operators of \<open>extent_protocol.h\<close>, and the
  handlers that \<open>extent_smain.cc\<close> registers. The operators for the basic types are arguments,
  collected in a record.
\<close>

subsection \<open>Numbers and the \<open>attr\<close> operators\<close>

abbreviation (input) rpc_put :: u32 where "rpc_put \<equiv> 0x6001"
abbreviation (input) rpc_get :: u32 where "rpc_get \<equiv> 0x6002"
abbreviation (input) rpc_getattr :: u32 where "rpc_getattr \<equiv> 0x6003"
abbreviation (input) rpc_remove :: u32 where "rpc_remove \<equiv> 0x6004"

text \<open>The enumerators of a status count from 0.\<close>

fun status_code :: "status \<Rightarrow> int" where
  "status_code OK = 0"
| "status_code RPCERR = 1"
| "status_code NOENT = 2"
| "status_code IOERR = 3"
| "status_code EXIST = 4"

definition in_attr :: "u32 reader \<Rightarrow> attr reader" where
  "in_attr in32 u =
     (let (t, u1) = in32 u;
          (at, u2) = in32 u1;
          (mt, u3) = in32 u2;
          (ct, u4) = in32 u3;
          (sz, u5) = in32 u4
      in (\<lparr>a_type = t, a_atime = at, a_mtime = mt, a_ctime = ct, a_size = sz\<rparr>, u5))"

definition out_attr :: "u32 writer \<Rightarrow> attr writer" where
  "out_attr out32 a m = out32 (a_size a) (out32 (a_ctime a) (out32 (a_mtime a) (out32 (a_atime a) (out32 (a_type a) m))))"

lemma codes_attr:
  assumes "codes (\<lambda>_. True) f out32 in32"
  shows "codes (\<lambda>_. True) (\<lambda>a. f (a_type a) @ f (a_atime a) @ f (a_mtime a) @ f (a_ctime a) @ f (a_size a)) (out_attr out32) (in_attr in32)"
proof -
  note c = codes_then[OF codes_then[OF codes_then[OF codes_then[OF assms assms] assms] assms] assms]
  let ?x = "\<lambda>a. ((((a_type a, a_atime a), a_mtime a), a_ctime a), a_size a)"
  have o: "out_attr out32 a = out_then (out_then (out_then (out_then out32 out32) out32) out32) out32 (?x a)" for a
    by (rule ext) (simp add: out_attr_def out_then_def)
  have i: "in_attr in32 u = (let (x, u') = in_then (in_then (in_then (in_then in32 in32) in32) in32) in32 u
      in case x of ((((t, at), mt), ct), sz) \<Rightarrow> (\<lparr>a_type = t, a_atime = at, a_mtime = mt, a_ctime = ct, a_size = sz\<rparr>, u'))" for u
    by (simp add: in_attr_def in_then_def Let_def split_beta)
  show ?thesis using c unfolding codes_def o i by (fastforce split: prod.splits)
qed

subsection \<open>The server's table\<close>

text \<open>
  The operators for \<open>unsigned long long\<close>, \<open>std::string\<close>, \<open>unsigned int\<close> and \<open>int\<close>. \<open>put\<close> and \<open>remove\<close> do not set
  their result, so the handler sends what its variable holds, \<open>r0\<close>. An identifier is read before the text.
\<close>

record operators =
  out64 :: "u64 writer"
  in64 :: "u64 reader"
  outs :: "bytes writer"
  ins :: "bytes reader"
  out32 :: "u32 writer"
  in32 :: "u32 reader"

definition extent_procs :: "operators \<Rightarrow> (unmarshall \<Rightarrow> bool) \<Rightarrow> u32 \<Rightarrow> (u32 \<rightharpoonup> extent_server handler)" where
  "extent_procs p okdone r0 =
    [rpc_get \<mapsto> reg_1 (in64 p) okdone (outs p) (\<lambda>i r s. bindF (es_get i s) (\<lambda>(st, buf). Inr (status_code st, buf, s))) [],
     rpc_getattr \<mapsto> reg_1 (in64 p) okdone (out_attr (out32 p))
       (\<lambda>i r s. bindF (es_getattr i s) (\<lambda>(st, a). Inr (status_code st, a, s)))
       \<lparr>a_type = r0, a_atime = r0, a_mtime = r0, a_ctime = r0, a_size = r0\<rparr>,
     rpc_put \<mapsto> reg_2 (in64 p) (ins p) okdone (out32 p)
       (\<lambda>i buf r s. bindF (es_put i buf s) (\<lambda>(st, s1). Inr (status_code st, r, s1))) r0,
     rpc_remove \<mapsto> reg_1 (in64 p) okdone (out32 p) (\<lambda>i r s. bindF (es_remove i s) (\<lambda>(st, s1). Inr (status_code st, r, s1))) r0]"

definition operators_code :: "operators \<Rightarrow> (u64 \<Rightarrow> bytes) \<Rightarrow> (bytes \<Rightarrow> bytes) \<Rightarrow> (u32 \<Rightarrow> bytes) \<Rightarrow> bool" where
  "operators_code p f g h \<longleftrightarrow> codes (\<lambda>_. True) f (out64 p) (in64 p) \<and> codes (\<lambda>s. length s < 2 ^ 31) g (outs p) (ins p)
     \<and> codes (\<lambda>_. True) h (out32 p) (in32 p)"

subsection \<open>Properties\<close>

lemma call_1_arrives:
  assumes "codes D f outa ina" "codes E g outr inr" "accepts_done okdone" "delivers garbage call1 procs" "24 \<le> length garbage"
    and "procs proc = Some (reg_1 ina okdone outr meth rj)" "D a" "\<And>b r s1. meth a rj s = Inr (b, r, s1) \<Longrightarrow> E r"
  shows "call_1 garbage call1 inr okdone outa proc a r0 tmo s = bindF (meth a rj s) (\<lambda>(b, r, s1). Inr (b, (if b < 0 then r0 else r), s1))"
  using call_arrives[OF assms(1-5) assms(6)[unfolded reg_1_def] assms(7,8)] by (simp add: call_1_def)

lemma call_2_arrives:
  assumes "codes D1 f1 out1 in1" "codes D2 f2 out2 in2" "codes E g outr inr" "accepts_done okdone" "delivers garbage call1 procs"
    and "24 \<le> length garbage" "procs proc = Some (reg_2 in1 in2 okdone outr meth rj)" "D1 a1" "D2 a2"
    and "\<And>b r s1. meth a1 a2 rj s = Inr (b, r, s1) \<Longrightarrow> E r"
  shows "call_2 garbage call1 inr okdone out1 out2 proc a1 a2 r0 tmo s
    = bindF (meth a1 a2 rj s) (\<lambda>(b, r, s1). Inr (b, (if b < 0 then r0 else r), s1))"
  using call_arrives[OF codes_then[OF assms(1,2)] assms(3-6) assms(7)[unfolded reg_2_def], of "(a1, a2)" s r0 tmo] assms(8-10)
  by (simp add: call_2_def out_then_def)

lemma status_code_pos [simp]: "\<not> status_code st < 0"
  by (cases st) simp_all

text \<open>
  A remote call of \<open>extent_server\<close> whose request and reply arrive does what the local call does: the
  same status, value and state. The results of \<open>put\<close> and \<open>remove\<close> are whatever the handler's variable held.
\<close>

lemmas run_method = extent_procs_def bindF_def

lemma remote_get:
  assumes "operators_code p f g h" "accepts_done okdone" "delivers garbage call1 (extent_procs p okdone r0)" "24 \<le> length garbage"
    and "\<And>st v. es_get i s = Inr (st, v) \<Longrightarrow> length v < 2 ^ 31"
  shows "call_1 garbage call1 (ins p) okdone (out64 p) rpc_get i v tmo s = bindF (es_get i s) (\<lambda>(st, w). Inr (status_code st, w, s))"
proof -
  have c: "codes (\<lambda>_. True) f (out64 p) (in64 p)" "codes (\<lambda>s. length s < 2 ^ 31) g (outs p) (ins p)"
    using assms(1) by (simp_all add: operators_code_def)
  show ?thesis
    by (subst call_1_arrives[OF c assms(2-4)]) (use assms(5) in \<open>auto simp: run_method split: sum.splits prod.splits\<close>)
qed

lemma remote_getattr:
  assumes "operators_code p f g h" "accepts_done okdone" "delivers garbage call1 (extent_procs p okdone r0)" "24 \<le> length garbage"
  shows "call_1 garbage call1 (in_attr (in32 p)) okdone (out64 p) rpc_getattr i a tmo s
    = bindF (es_getattr i s) (\<lambda>(st, a). Inr (status_code st, a, s))"
proof -
  have c: "codes (\<lambda>_. True) f (out64 p) (in64 p)" "codes (\<lambda>_. True) h (out32 p) (in32 p)"
    using assms(1) by (simp_all add: operators_code_def)
  show ?thesis
    by (subst call_1_arrives[OF c(1) codes_attr[OF c(2)] assms(2-4)]) (auto simp: run_method split: sum.splits prod.splits)
qed

lemma remote_put:
  assumes "operators_code p f g h" "accepts_done okdone" "delivers garbage call1 (extent_procs p okdone r0)" "24 \<le> length garbage"
    and "length buf < 2 ^ 31"
  shows "call_2 garbage call1 (in32 p) okdone (out64 p) (outs p) rpc_put i buf r tmo s
    = bindF (es_put i buf s) (\<lambda>(st, s1). Inr (status_code st, r0, s1))"
proof -
  have c: "codes (\<lambda>_. True) f (out64 p) (in64 p)" "codes (\<lambda>s. length s < 2 ^ 31) g (outs p) (ins p)" "codes (\<lambda>_. True) h (out32 p) (in32 p)"
    using assms(1) by (simp_all add: operators_code_def)
  show ?thesis
    by (subst call_2_arrives[OF c assms(2-4)]) (use assms(5) in \<open>auto simp: run_method split: sum.splits prod.splits\<close>)
qed

lemma remote_remove:
  assumes "operators_code p f g h" "accepts_done okdone" "delivers garbage call1 (extent_procs p okdone r0)" "24 \<le> length garbage"
  shows "call_1 garbage call1 (in32 p) okdone (out64 p) rpc_remove i r tmo s
    = bindF (es_remove i s) (\<lambda>(st, s1). Inr (status_code st, r0, s1))"
proof -
  have c: "codes (\<lambda>_. True) f (out64 p) (in64 p)" "codes (\<lambda>_. True) h (out32 p) (in32 p)"
    using assms(1) by (simp_all add: operators_code_def)
  show ?thesis
    by (subst call_1_arrives[OF c assms(2-4)]) (auto simp: run_method split: sum.splits prod.splits)
qed

text \<open>For the witnesses: operators that store the low byte first, and text behind its length.\<close>

definition example_in_string :: "bytes reader" where
  "example_in_string u = (let n = unat (u32_of_bytes (take 4 (remaining u)))
     in (take n (drop 4 (remaining u)), u\<lparr>u_ind := u_ind u + (4 + n)\<rparr>))"

definition example_operators :: operators where
  "example_operators = \<lparr>
     out64 = (\<lambda>i. out_then (example_out bytes_of_u32) (example_out bytes_of_u32) (ucast i, ucast (drop_bit 32 i))),
     in64 = (\<lambda>u. let (x, u1) = in_then (example_in 4 u32_of_bytes) (example_in 4 u32_of_bytes) u
        in (ucast (fst x) OR push_bit 32 (ucast (snd x)), u1)),
     outs = example_out (\<lambda>s. bytes_of_u32 (of_nat (length s)) @ s), ins = example_in_string,
     out32 = example_out bytes_of_u32, in32 = example_in 4 u32_of_bytes\<rparr>"

lemma two_halves: "ucast (ucast i :: u32) OR push_bit 32 (ucast (ucast (drop_bit 32 i) :: u32)) = (i :: u64)"
  by (rule bit_word_eqI) (auto simp: bit_simps)

lemma remaining_advance [simp]: "remaining (u\<lparr>u_ind := u_ind u + n\<rparr>) = drop n (remaining u)"
  by (simp add: remaining_def add.commute)

lemma example_strings: "codes (\<lambda>s. length s < 2 ^ 31) (\<lambda>s. bytes_of_u32 (of_nat (length s)) @ s)
  (example_out (\<lambda>s. bytes_of_u32 (of_nat (length s)) @ s)) example_in_string"
proof -
  have "example_in_string u = (x, u\<lparr>u_ind := u_ind u + (4 + length x)\<rparr>) \<and> drop (4 + length x) (remaining u) = rest"
    if "length x < 2 ^ 31" "remaining u = (bytes_of_u32 (of_nat (length x)) @ x) @ rest" for x u rest
  proof -
    have "unat (of_nat (length x) :: u32) = length x" using that(1) by (simp add: unat_of_nat take_bit_nat_eq_self)
    then show ?thesis using that(2) by (simp add: example_in_string_def c32.width_enc c32.dec_enc)
  qed
  moreover have "m_wf (example_out f x m) \<and> get_content (example_out f x m) = get_content m @ f x" if "m_wf m" for f and x :: bytes and m
    using that by (auto simp: example_out_def m_wf_def get_content_def drop_take)
  ultimately show ?thesis unfolding codes_def by fastforce
qed

lemma example_operators_code: "operators_code example_operators
    (\<lambda>i. bytes_of_u32 (ucast i) @ bytes_of_u32 (ucast (drop_bit 32 i))) (\<lambda>s. bytes_of_u32 (of_nat (length s)) @ s) bytes_of_u32"
proof -
  have "codes (\<lambda>_. True) (\<lambda>i. bytes_of_u32 (ucast i) @ bytes_of_u32 (ucast (drop_bit 32 i))) (out64 example_operators) (in64 example_operators)"
    using codes_then[OF example_u32 example_u32] unfolding codes_def
    by (fastforce simp: example_operators_def two_halves)
  then show ?thesis using example_strings example_u32 by (simp add: operators_code_def example_operators_def)
qed

end
