(* ===== verification/Extent_Main.thy ===== *)
theory Extent_Main imports Extent_Rpc begin

text \<open>
  The process of \<open>extent_smain.cc\<close>: its arguments, the server it makes and the handlers it registers, and the
  runs of calls that its clients make. The loop that sleeps for ever does nothing else; the threads of the
  library answer the calls.
\<close>

subsection \<open>main\<close>

text \<open>
  \<open>atoi\<close> of the standard library. It promises nothing for numbers out of range, which keep their value here.
\<close>

definition atoi :: "bytes \<Rightarrow> int" where
  "atoi str = (let s = dropWhile is_space str;
                 t = (if s \<noteq> [] \<and> (hd s = 45 \<or> hd s = 43) then tl s else s);
                 v = int (digits_value (takeWhile is_digit t))
               in if s \<noteq> [] \<and> hd s = 45 then - v else v)"

text \<open>What \<open>rpcs\<close> is made with, and the handlers that are registered with it.\<close>

record rpcs =
  port :: u32
  counting :: int
  procs :: "u32 \<rightharpoonup> extent_server handler"

text \<open>
  \<open>Inl\<close> is the status of an exit, \<open>Inr\<close> the two objects of a process that has come to its loop.
  \<open>count_env\<close> is the value of \<open>RPC_COUNT\<close> in the environment.
\<close>

definition extent_smain :: "operators \<Rightarrow> (unmarshall \<Rightarrow> bool) \<Rightarrow> u32 \<Rightarrow> (nat \<Rightarrow> u32) \<Rightarrow> bytes option \<Rightarrow> bytes list
    \<Rightarrow> fault + (int + rpcs \<times> extent_server)" where
  "extent_smain p okdone r0 clk count_env argv =
     (if length argv \<noteq> 2 then Inr (Inl 1)
      else let count = (case count_env of None \<Rightarrow> 0 | Some e \<Rightarrow> atoi e);
               server = \<lparr>port = word_of_int (atoi (argv ! 1)), counting = count, procs = Map.empty\<rparr>
           in bindF (inode_manager_init clk) (\<lambda>r. case r of
                None \<Rightarrow> Inr (Inl 0)
              | Some ls \<Rightarrow> Inr (Inr (server\<lparr>procs := extent_procs p okdone r0\<rparr>, ls))))"

subsection \<open>Runs of calls\<close>

datatype extent_call = Get_text u64 | Get_attr u64 | Put_text u64 bytes | Remove_text u64

datatype extent_result = Text int bytes | Attr int attr | Value int u32

text \<open>A call as a client makes it, whose variables for the results hold what a fresh variable holds.\<close>

fun remote :: "operators \<Rightarrow> (unmarshall \<Rightarrow> bool) \<Rightarrow> bytes \<Rightarrow> extent_server call1 \<Rightarrow> int \<Rightarrow> extent_call \<Rightarrow> extent_server
    \<Rightarrow> fault + extent_result \<times> extent_server" where
  "remote p okdone garbage call1 tmo (Get_text i) s =
     bindF (call_1 garbage call1 (ins p) okdone (out64 p) rpc_get i [] tmo s) (\<lambda>(b, v, s1). Inr (Text b v, s1))"
| "remote p okdone garbage call1 tmo (Get_attr i) s =
     bindF (call_1 garbage call1 (in_attr (in32 p)) okdone (out64 p) rpc_getattr i
       \<lparr>a_type = 0, a_atime = 0, a_mtime = 0, a_ctime = 0, a_size = 0\<rparr> tmo s) (\<lambda>(b, a, s1). Inr (Attr b a, s1))"
| "remote p okdone garbage call1 tmo (Put_text i buf) s =
     bindF (call_2 garbage call1 (in32 p) okdone (out64 p) (outs p) rpc_put i buf 0 tmo s) (\<lambda>(b, r, s1). Inr (Value b r, s1))"
| "remote p okdone garbage call1 tmo (Remove_text i) s =
     bindF (call_1 garbage call1 (in32 p) okdone (out64 p) rpc_remove i 0 tmo s) (\<lambda>(b, r, s1). Inr (Value b r, s1))"

text \<open>The same as a call of the method on the server's own machine; \<open>put\<close> and \<open>remove\<close> leave \<open>r0\<close> as it was.\<close>

fun nearby :: "u32 \<Rightarrow> extent_call \<Rightarrow> extent_server \<Rightarrow> fault + extent_result \<times> extent_server" where
  "nearby r0 (Get_text i) s = bindF (es_get i s) (\<lambda>(st, v). Inr (Text (status_code st) v, s))"
| "nearby r0 (Get_attr i) s = bindF (es_getattr i s) (\<lambda>(st, a). Inr (Attr (status_code st) a, s))"
| "nearby r0 (Put_text i buf) s = bindF (es_put i buf s) (\<lambda>(st, s1). Inr (Value (status_code st) r0, s1))"
| "nearby r0 (Remove_text i) s = bindF (es_remove i s) (\<lambda>(st, s1). Inr (Value (status_code st) r0, s1))"

fun each_call :: "('q \<Rightarrow> 's \<Rightarrow> fault + 'r \<times> 's) \<Rightarrow> 'q list \<Rightarrow> 's \<Rightarrow> fault + 'r list \<times> 's" where
  "each_call f [] s = Inr ([], s)"
| "each_call f (q # qs) s = bindF (f q s) (\<lambda>(r, s1). bindF (each_call f qs s1) (\<lambda>(rs, s2). Inr (r # rs, s2)))"

text \<open>A text has to fit the length in front of it, which is an \<open>int\<close>.\<close>

fun fits :: "extent_call \<Rightarrow> extent_server \<Rightarrow> bool" where
  "fits (Get_text i) s = (case es_get i s of Inl e \<Rightarrow> True | Inr (st, v) \<Rightarrow> length v < 2 ^ 31)"
| "fits (Put_text i buf) s = (length buf < 2 ^ 31)"
| "fits q s = True"

fun all_fit :: "u32 \<Rightarrow> extent_call list \<Rightarrow> extent_server \<Rightarrow> bool" where
  "all_fit r0 [] s = True"
| "all_fit r0 (q # qs) s = (fits q s \<and> (case nearby r0 q s of Inl e \<Rightarrow> True | Inr (r, s1) \<Rightarrow> all_fit r0 qs s1))"

lemma remote_is_nearby:
  assumes "operators_code p f g h" "accepts_done okdone" "delivers garbage call1 (extent_procs p okdone r0)" "24 \<le> length garbage" "fits q s"
  shows "remote p okdone garbage call1 tmo q s = nearby r0 q s"
proof (cases q)
  case (Get_text i)
  have "length v < 2 ^ 31" if "es_get i s = Inr (st, v)" for st v using assms(5) that Get_text by simp
  then show ?thesis unfolding Get_text by (auto simp: bindF_def remote_get[OF assms(1-4)] split: sum.splits)
next
  case (Get_attr i)
  show ?thesis unfolding Get_attr
    by (auto simp: bindF_def remote_getattr[OF assms(1-4)] split: sum.splits)
next
  case (Put_text i buf)
  then show ?thesis using assms(5) by (auto simp: bindF_def remote_put[OF assms(1-4)] split: sum.splits)
next
  case (Remove_text i)
  then show ?thesis by (auto simp: bindF_def remote_remove[OF assms(1-4)] split: sum.splits)
qed

lemma each_call_cong:
  assumes "all_fit r0 qs s" "\<And>q s. fits q s \<Longrightarrow> f q s = nearby r0 q s"
  shows "each_call f qs s = each_call (nearby r0) qs s"
  using assms(1)
proof (induction qs arbitrary: s)
  case (Cons q qs)
  then show ?case using assms(2)[of q s] by (auto simp: bindF_def split: sum.splits)
qed simp

text \<open>
  C33: A process started with a port runs the calls of its clients, one after the other, as if each were
  a call of the method on the server itself, if the requests and replies arrive and the texts fit.
\<close>

theorem process_serves_calls:
  assumes "operators_code p f g h" "accepts_done okdone" "24 \<le> length garbage"
    and "\<And>server ls. extent_smain p okdone r0 clk env [prog, arg] = Inr (Inr (server, ls)) \<Longrightarrow>
      delivers garbage call1 (procs server) \<and> all_fit r0 qs ls"
  shows "\<exists>server ls. extent_smain p okdone r0 clk env [prog, arg] = Inr (Inr (server, ls)) \<and> port server = word_of_int (atoi arg)
    \<and> each_call (remote p okdone garbage call1 tmo) qs ls = each_call (nearby r0) qs ls"
proof -
  obtain ls where ls: "inode_manager_init clk = Inr (Some ls)" by (rule init_does)
  let ?n = "case env of None \<Rightarrow> 0 | Some e \<Rightarrow> atoi e"
  let ?server = "\<lparr>port = word_of_int (atoi arg), counting = ?n, procs = extent_procs p okdone r0\<rparr>"
  have run: "extent_smain p okdone r0 clk env [prog, arg] = Inr (Inr (?server, ls))"
    using ls by (simp add: extent_smain_def Let_def)
  have d: "delivers garbage call1 (extent_procs p okdone r0)" "all_fit r0 qs ls" using assms(4)[OF run] by simp_all
  have "each_call (remote p okdone garbage call1 tmo) qs ls = each_call (nearby r0) qs ls"
    using d(2) remote_is_nearby[OF assms(1,2) d(1) assms(3)] by (rule each_call_cong)
  then show ?thesis using run by auto
qed

theorem process_serves_calls_witness:
  "let p = example_operators; g = replicate 1024 0; c1 = example_call1 g (extent_procs p example_okdone 77)
   in \<exists>server ls s. extent_smain p example_okdone 77 (\<lambda>n. 0) None [[97], [56, 48]] = Inr (Inr (server, ls)) \<and> port server = 80
     \<and> each_call (remote p example_okdone g c1 0) [Put_text 1 [1, 2, 3], Get_text 1] ls = Inr ([Value 0 77, Text 0 [1, 2, 3]], s)"
proof -
  let ?p = example_operators and ?g = "replicate 1024 (0 :: u8)" and ?qs = "[Put_text 1 [1, 2, 3], Get_text 1]"
  let ?c = "example_call1 ?g (extent_procs ?p example_okdone 77)"
  obtain ls where ls: "inode_manager_init (\<lambda>n. 0) = Inr (Some ls)" "ok ls" "inode_at ls 1 = new_inode 1 0"
    "free_blocks ls = {b. data_block b}" by (rule init_does[of "\<lambda>n. 0"]) (rule that)
  have "small_file ls 1 []" using ls(2,3) by (simp add: small_file_def new_inode_def inum_ok_def)
  moreover have n: "n_blocks (int (length [1, 2, 3 :: u8])) = 1" by (simp add: n_blocks_def)
  ultimately obtain s where s: "ec_put 1 [1, 2, 3] ls = Inr (OK, s)" "small_file s 1 (strip0 [1, 2, 3])"
    using xs.put_small[of ls 1 "[]" "[1, 2, 3]"] ls(4) card_data_blocks by auto
  have get: "es_put 1 [1, 2, 3] ls = Inr (OK, s)" "es_get 1 s = Inr (OK, [1, 2, 3])"
    using s(1) xs.get_small[OF s(2)] by (simp_all add: ec_put_def ec_get_def strip0_id)
  have fits: "delivers ?g ?c (procs server) \<and> all_fit 77 ?qs l"
    if "extent_smain ?p example_okdone 77 (\<lambda>n. 0) None [[97], [56, 48]] = Inr (Inr (server, l))" for server l
    using that get ls(1) example_delivers by (auto simp: extent_smain_def)
  have "each_call (nearby 77) ?qs ls = Inr ([Value 0 77, Text 0 [1, 2, 3]], s)" using get by simp
  moreover have "atoi [56, 48] = 80" by (simp add: atoi_def is_space_def is_digit_def digits_value_def)
  moreover obtain server l where "extent_smain ?p example_okdone 77 (\<lambda>n. 0) None [[97], [56, 48]] = Inr (Inr (server, l))"
    "port server = word_of_int (atoi [56, 48])" "each_call (remote ?p example_okdone ?g ?c 0) ?qs l = each_call (nearby 77) ?qs l"
    using process_serves_calls[OF example_operators_code example_accepts, of ?g 77 "\<lambda>n. 0" None "[97]" "[56, 48]" ?c ?qs 0] fits
    by auto
  moreover from this(1) have "l = ls" using ls(1) by (simp add: extent_smain_def)
  ultimately show ?thesis unfolding Let_def by auto
qed

end
