(* ===== verification/File_Store.thy ===== *)
theory File_Store imports File_Attributes begin

text \<open>
  Several files side by side: \<open>files ns vs m\<close> says that the inodes \<open>ns\<close> hold the contents \<open>vs\<close>, that none
  of these files runs through the inode of another one, and that every other inode is a leaf. The
  lemmas say what creating, writing, reading and removing do to it, for files of up to two pieces.
\<close>

subsection \<open>Files\<close>

definition files :: "u32 list \<Rightarrow> bytes list \<Rightarrow> inode_manager \<Rightarrow> bool" where
  "files ns vs m \<longleftrightarrow> ok m \<and> distinct ns \<and> length vs = length ns \<and> (\<forall>j. inum_ok j \<longrightarrow> pointers_ok (inode_at m j))
     \<and> (\<forall>j. inum_ok j \<and> j \<notin> set ns \<longrightarrow> isize (inode_at m j) \<le> 100)
     \<and> (\<exists>Is Bs. \<forall>k < length ns. file_at m (ns ! k) (Is k) (Bs k) (vs ! k) \<and> Is k \<inter> set ns = {ns ! k})"

lemma files_ok: "files ns vs m \<Longrightarrow> ok m"
  by (simp add: files_def)

lemma files_none: "ok m \<Longrightarrow> \<forall>j. inum_ok j \<longrightarrow> leaf (inode_at m j) \<Longrightarrow> files [] [] m"
  by (simp add: files_def leaf_def)

lemma files_at:
  assumes "files ns vs m" "k < length ns"
  obtains I B where "file_at m (ns ! k) I B (vs ! k)" "I \<inter> set ns = {ns ! k}"
  using assms unfolding files_def by blast

lemma files_inode: "files ns vs m \<Longrightarrow> k < length ns \<Longrightarrow> inum_ok (ns ! k) \<and> itype (inode_at m (ns ! k)) \<noteq> 0"
  by (rule files_at) (auto dest: file_at_inodes)

lemma files_read: "files ns vs m \<Longrightarrow> k < length ns \<Longrightarrow> read_file max_depth (ns ! k) m = Inr (vs ! k)"
  by (rule files_at, assumption+) (use file_at_card in \<open>fastforce intro: read_file_at dest: files_ok\<close>)

lemma leaf_attr:
  assumes "ok m" "inum_ok i" "leaf (inode_at m i)"
  shows "\<exists>a. get_attr max_depth i m = Inr a \<and> a_type a = scast (itype (inode_at m i))"
proof -
  let ?x = "inode_at m i"
  have "\<exists>s. get_file_size (Suc 1024) i m = Inr s"
  proof (cases "isize ?x = 0")
    case False
    then have "unat (isize ?x) \<le> 100" "unat (isize ?x - 1) = unat (isize ?x) - 1"
      using assms(3) by (auto simp: leaf_def word_le_nat_alt unat_minus_one)
    then have n: "isize ?x < 101" "unat (isize ?x - 1) < 101" by (simp_all add: word_less_nat_alt)
    then have "iblocks ?x ! unat (isize ?x - 1) \<in> set (iblocks ?x)" by simp
    then have "iblocks ?x ! unat (isize ?x - 1) < 2097152" using assms(3) data_block_lt by (fastforce simp: leaf_def pointers_ok_def)
    then show ?thesis using False n assms(1,2) unfolding get_file_size.simps(2)
      by (simp add: get_inode_ok last_non_zero_element_index_in_block_def bm_read_ok)
  qed (use assms in \<open>unfold get_file_size.simps(2), simp add: get_inode_ok\<close>)
  then obtain s where "get_file_size max_depth i m = Inr s" by auto
  then show ?thesis using assms(1,2) by (simp add: get_attr_def get_inode_ok del: get_file_size.simps)
qed

lemma files_create:
  assumes "files ns vs m" "t \<in> {1, 2, 3}" "free_inodes m \<noteq> {}"
  obtains n m' now where "alloc_inode t m = Inr (n, m')" "files (ns @ [n]) (vs @ [[]]) m'" "n \<in> free_inodes m"
    "\<forall>j. inum_ok j \<and> j < n \<longrightarrow> itype (inode_at m j) \<noteq> 0" "inode_at m' n = new_inode t now"
    "\<forall>j. inum_ok j \<and> j \<noteq> n \<longrightarrow> inode_at m' j = inode_at m j" "free_blocks m' = free_blocks m"
proof -
  have ok: "ok m" using files_ok[OF assms(1)] .
  obtain n m' where al: "alloc_inode t m = Inr (n, m')" and low: "\<forall>j. inum_ok j \<and> j < n \<longrightarrow> itype (inode_at m j) \<noteq> 0"
    using ok assms(2) by (rule alloc_inode_cases) (use assms(3) in \<open>auto simp: free_inodes_def\<close>)
  note made = vol.create_does[OF ok assms(2) al]
  obtain now where new: "inode_at m' n = new_inode t now" using made by blast
  have n: "n \<notin> set ns" using files_inode[OF assms(1)] made by (auto simp: in_set_conv_nth)
  obtain Is Bs where each: "\<forall>k < length ns. file_at m (ns ! k) (Is k) (Bs k) (vs ! k) \<and> Is k \<inter> set ns = {ns ! k}"
    using assms(1) unfolding files_def by blast
  have len: "length vs = length ns" using assms(1) by (simp add: files_def)
  have t: "(ucast t :: u16) \<noteq> 0" using assms(2) by auto
  define Is' Bs' where "Is' k = (if k < length ns then Is k else {n})" and "Bs' k = (if k < length ns then Bs k else {})" for k
  have "file_at m' ((ns @ [n]) ! k) (Is' k) (Bs' k) ((vs @ [[]]) ! k) \<and> Is' k \<inter> set (ns @ [n]) = {(ns @ [n]) ! k}"
    if "k < length (ns @ [n])" for k
  proof (cases "k < length ns")
    case True
    then have "file_at m (ns ! k) (Is k) (Bs k) (vs ! k)" using each by blast
    moreover from this have "n \<notin> Is k" using file_at_inodes made by blast
    ultimately show ?thesis
      using True each len file_at_ext[OF _ vol.ext_create[OF ok assms(2) al], of _ _ _ _ "{}"]
      by (simp add: nth_append Is'_def Bs'_def)
  next
    case False
    then have "k = length ns" using that by simp
    then show ?thesis using new_file_at[OF _ new t] made n len by (auto simp: nth_append Is'_def Bs'_def)
  qed
  moreover have "pointers_ok (inode_at m' j)" "j \<noteq> n \<Longrightarrow> inode_at m' j = inode_at m j" if "inum_ok j" for j
    using that assms(1) made new leaf_new[of t now] by (auto simp: files_def leaf_def)
  ultimately have "files (ns @ [n]) (vs @ [[]]) m'"
    using assms(1) n made unfolding files_def by (auto simp del: nth_append_left)
  then show thesis
    using that[OF al _ _ low new] made vol.free_set_create[OF ok assms(2) al] by (auto simp: free_inodes_def)
qed

text \<open>
  Writing text of up to two pieces over one of the files. It takes at most one inode, and a block for every
  512 bytes and for the table.
\<close>

lemma files_put:
  assumes "files ns vs m" "k < length ns" "0 \<notin> set buf" "length buf \<le> 102400"
    and "0 < card (free_inodes m)" "n_blocks (int (length buf)) < card (free_blocks m)"
  obtains m' where "write_file (ns ! k) (buf @ [0]) (int (length buf)) m = Inr m'" "files ns (vs[k := buf]) m'"
    "card (free_inodes m) \<le> card (free_inodes m') + 1" "card (free_blocks m) \<le> card (free_blocks m') + n_blocks (int (length buf)) + 1"
    "length buf \<le> 51200 \<Longrightarrow> free_inodes m' = free_inodes m \<and> isize (inode_at m' (ns ! k)) \<le> 100"
    "itype (inode_at m' (ns ! k)) = itype (inode_at m (ns ! k))"
    "\<forall>j. inum_ok j \<and> itype (inode_at m j) \<noteq> 0 \<and> j \<noteq> ns ! k \<longrightarrow> inode_at m' j = inode_at m j"
proof -
  let ?i = "ns ! k" and ?sz = "int (length buf)" and ?buf = "buf @ [0]"
  have g: "ok m" "inum_ok ?i" "itype (inode_at m ?i) \<noteq> 0" "pointers_ok (inode_at m ?i)" "distinct ns" "length vs = length ns"
    using assms(1) files_inode[OF assms(1,2)] by (auto simp: files_def)
  have sz: "0 \<le> ?sz" "nat ?sz \<le> length ?buf" "take (nat ?sz) ?buf = buf" by simp_all
  obtain m' where m': "write_file ?i ?buf ?sz m = Inr m'" "leaves {?i} m m'" "pointers_ok (inode_at m' ?i)"
    "card (free_inodes m) \<le> card (free_inodes m') + 1" "card (free_blocks m) \<le> card (free_blocks m') + n_blocks ?sz + 1"
    "length buf \<le> 51200 \<Longrightarrow> free_inodes m' = free_inodes m \<and> isize (inode_at m' ?i) \<le> 100"
  proof (cases "length buf \<le> 51200")
    case True
    then have small: "?sz \<le> 51200" by simp
    obtain m' where w: "write_file ?i ?buf ?sz m = Inr m'" "card (free_blocks m') + n_blocks ?sz = card (free_blocks m)"
      using write_small_returns[OF g(1,2) sz(1) small sz(2)] assms(6) by (auto split: if_splits)
    note leaf = small_leaf[OF w(1) g(1,2) sz(1) small sz(2) g(4)]
    show thesis
      by (rule that[OF w(1)]) (use leaf w(2) small_keeps_inodes[OF w(1) g(1-3) sz(1) small sz(2)] in \<open>auto simp: leaves_def leaf_def\<close>)
  next
    case False
    then have large: "51200 < ?sz" "?sz \<le> 51200 * (1 + int 1)" "(1::nat) \<le> 126" "1 \<le> card (free_inodes m)" using assms(4,5) by auto
    from write_large_returns[OF g(1-3) sz(2) large assms(6)] obtain m' where "write_file ?i ?buf ?sz m = Inr m'" "leaves {?i} m m'"
      "pointers_ok (inode_at m' ?i)" "card (free_inodes m) \<le> card (free_inodes m') + 1"
      "card (free_blocks m') + n_blocks ?sz + 1 = card (free_blocks m)" using g(4) by blast
    then show thesis using False by (intro that[of m']) auto
  qed
  have "written m m' ?i (read_back buf)" using write_file_does[OF m'(1) g(1-3) sz(2)] sz(3) by simp
  then have ext: "vol.ext {?i} m m'" and ty: "itype (inode_at m' ?i) = itype (inode_at m ?i)"
    and "\<exists>I B. file_at m' ?i I B buf \<and> (\<forall>j \<in> I. j = ?i \<or> itype (inode_at m j) = 0)"
    using read_back_nonzero[OF assms(3)] by (auto simp: written_def)
  then obtain I B where fresh: "file_at m' ?i I B buf" "\<forall>j \<in> I. j = ?i \<or> itype (inode_at m j) = 0" by blast
  obtain Is Bs where each: "\<forall>l < length ns. file_at m (ns ! l) (Is l) (Bs l) (vs ! l) \<and> Is l \<inter> set ns = {ns ! l}"
    using assms(1) unfolding files_def by blast
  have used: "itype (inode_at m n) \<noteq> 0" if "n \<in> set ns" for n
    using that files_inode[OF assms(1)] by (auto simp: in_set_conv_nth)
  have "file_at m' (ns ! l) ((Is(k := I)) l) ((Bs(k := B)) l) (vs[k := buf] ! l) \<and> (Is(k := I)) l \<inter> set ns = {ns ! l}"
    if l: "l < length ns" for l
  proof (cases "l = k")
    case True
    have "?i \<in> I" using file_at_inodes[OF fresh(1)] by blast
    then have "I \<inter> set ns = {?i}" using fresh(2) used assms(2) by auto
    then show ?thesis using True fresh(1) assms(2) g(6) by simp
  next
    case False
    then have "?i \<noteq> ns ! l" using g(5) l assms(2) by (simp add: nth_eq_iff_index_eq)
    then have "Is l \<inter> {?i} = {}" using each l assms(2) nth_mem by blast
    then show ?thesis using False l each file_at_ext[OF _ ext] by simp
  qed
  then have "\<exists>Is Bs. \<forall>l < length ns. file_at m' (ns ! l) (Is l) (Bs l) (vs[k := buf] ! l) \<and> Is l \<inter> set ns = {ns ! l}" by blast
  moreover have "pointers_ok (inode_at m' j) \<and> (j \<notin> set ns \<longrightarrow> isize (inode_at m' j) \<le> 100)" if "inum_ok j" for j
    using that m'(2,3) assms(1,2) by (cases "j = ?i") (auto simp: files_def leaves_def leaf_def)
  ultimately have "files ns (vs[k := buf]) m'"
    using vol.ext_ok[OF ext] g(5,6) unfolding files_def by auto
  then show thesis using that[OF m'(1) _ m'(4-6) ty] vol.ext_inode[OF ext] by blast
qed

subsection \<open>Removing\<close>

text \<open>
  Freeing blocks clears them and freeing inodes clears those. A tidy volume has pointers in range and
  tables of leaves; it stays tidy, and removing any file of it returns.
\<close>

definition table :: "inode_manager \<Rightarrow> inode \<Rightarrow> u32 set" where
  "table m x = set (takeWhile (\<lambda>n. n \<noteq> 0) (u32s_of_block (data m (iblocks x ! 100))))"

definition tidy :: "inode_manager \<Rightarrow> bool" where
  "tidy m \<longleftrightarrow> ok m \<and> (\<forall>j. inum_ok j \<longrightarrow> pointers_ok (inode_at m j) \<and> (isize (inode_at m j) > 100 \<longrightarrow>
     data_block (iblocks (inode_at m j) ! 100) \<and> (\<forall>n \<in> table m (inode_at m j). inum_ok n \<and> isize (inode_at m n) \<le> 100)))"

definition clears :: "inode_manager \<Rightarrow> inode_manager \<Rightarrow> bool" where
  "clears m m' \<longleftrightarrow> ok m' \<and> (\<forall>j. inum_ok j \<longrightarrow> inode_at m' j = inode_at m j \<or> inode_at m' j = zero_inode)
     \<and> (\<forall>b. data_block b \<longrightarrow> (in_use m' b \<longrightarrow> in_use m b) \<and> (data m' b = data m b \<or> data m' b = replicate 512 0))"

lemma clears_refl: "ok m \<Longrightarrow> clears m m"
  by (simp add: clears_def)

lemma clears_trans: "clears m m1 \<Longrightarrow> clears m1 m2 \<Longrightarrow> clears m m2"
  unfolding clears_def by metis

lemma zero_inode_simps [simp]: "itype zero_inode = 0" "isize zero_inode = 0" "pointers_ok zero_inode" "length (iblocks zero_inode) = 101"
  by (simp_all add: zero_inode_def pointers_ok_def)

lemma u32s_of_zeros: "takeWhile (\<lambda>n. n \<noteq> 0) (u32s_of_block (replicate 512 0)) = []"
  by (simp add: u32s_of_block_def array_of_zeros)

lemma clears_table: "clears m m' \<Longrightarrow> data_block (iblocks x ! 100) \<Longrightarrow> table m' x \<subseteq> table m x"
  unfolding clears_def table_def using u32s_of_zeros by (metis empty_iff empty_set subsetI)

lemma clears_size: "clears m m' \<Longrightarrow> inum_ok n \<Longrightarrow> isize (inode_at m n) \<le> 100 \<Longrightarrow> isize (inode_at m' n) \<le> 100"
  unfolding clears_def by (metis word_zero_le zero_inode_simps(2))

lemma clears_tidy:
  assumes "clears m m'" "tidy m"
  shows "tidy m'"
proof -
  have "pointers_ok (inode_at m' j) \<and> (isize (inode_at m' j) > 100 \<longrightarrow>
      data_block (iblocks (inode_at m' j) ! 100) \<and> (\<forall>n \<in> table m' (inode_at m' j). inum_ok n \<and> isize (inode_at m' n) \<le> 100))"
    if j: "inum_ok j" for j
  proof -
    consider "inode_at m' j = inode_at m j" | "inode_at m' j = zero_inode" using assms(1) j by (auto simp: clears_def)
    then show ?thesis
    proof cases
      case 1
      then show ?thesis using assms j clears_table[OF assms(1)] clears_size[OF assms(1)] unfolding tidy_def by fastforce
    qed simp
  qed
  then show ?thesis using assms(1) by (auto simp: tidy_def clears_def)
qed

lemma free_clears:
  assumes "ok m" "data_block b"
  shows "\<exists>m'. bm_free b m = Inr m' \<and> clears m m' \<and> (\<forall>j. inum_ok j \<longrightarrow> inode_at m' j = inode_at m j)"
proof (cases "in_use m b")
  case True
  obtain m' where m': "bm_free b m = Inr m'" using vol.release_returns[OF assms] ..
  then show ?thesis using vol.release_does[OF assms True m'] vol.release_frame[OF assms m'] by (auto simp: clears_def)
next
  case False
  then show ?thesis using assms by (simp add: bm_free_def free_block_noop clears_refl)
qed

lemma free_all_clears:
  "ok m \<Longrightarrow> \<forall>b \<in> set bs. b = 0 \<or> data_block b \<Longrightarrow>
   \<exists>m'. each_sub_st bm_free bs m = Inr m' \<and> clears m m' \<and> (\<forall>j. inum_ok j \<longrightarrow> inode_at m' j = inode_at m j)"
proof (induction bs arbitrary: m)
  case (Cons b bs)
  show ?case
  proof (cases "b = 0")
    case False
    then have "data_block b" using Cons.prems(2) by simp
    then obtain m1 where m1: "bm_free b m = Inr m1" "clears m m1" "\<forall>j. inum_ok j \<longrightarrow> inode_at m1 j = inode_at m j"
      using free_clears[OF Cons.prems(1)] by blast
    obtain m' where "each_sub_st bm_free bs m1 = Inr m'" "clears m1 m'" "\<forall>j. inum_ok j \<longrightarrow> inode_at m' j = inode_at m1 j"
      using Cons.IH[of m1] m1(2) Cons.prems(2) by (auto simp: clears_def)
    then show ?thesis using False m1 clears_trans by auto
  qed (use Cons.prems clears_refl in simp)
qed (simp add: clears_refl)

lemma free_inode_clears:
  assumes "ok m" "inum_ok i"
  shows "\<exists>m'. free_inode i m = Inr m' \<and> clears m m' \<and> itype (inode_at m' i) = 0"
proof (cases "itype (inode_at m i) = 0")
  case False
  obtain m' where m': "put_inode i zero_inode m = Inr m'" using vol.save_returns[OF assms zero_inode_simps(4)] ..
  then show ?thesis using False assms vol.save_does[OF assms zero_inode_simps(4) m'] by (auto simp: free_inode_def get_inode_ok clears_def)
qed (use assms in \<open>simp add: free_inode_def get_inode_ok clears_refl\<close>)

text \<open>One file, given that the files of its table can be removed.\<close>

lemma remove_clears:
  assumes "tidy m" "inum_ok i"
    and subs: "\<And>m1. clears m m1 \<Longrightarrow> isize (inode_at m i) > 100 \<Longrightarrow>
      \<exists>m2. each_sub_st (remove_file f) (u32s_of_block (data m1 (iblocks (inode_at m i) ! 100))) m1 = Inr m2 \<and> clears m1 m2"
  shows "\<exists>m'. remove_file (Suc f) i m = Inr m' \<and> clears m m' \<and> itype (inode_at m' i) = 0"
proof (cases "itype (inode_at m i) = 0")
  case True
  then show ?thesis using assms(1,2) by (simp add: get_inode_ok tidy_def clears_refl)
next
  case False
  let ?ino = "inode_at m i"
  have g: "ok m" "pointers_ok ?ino" "isize ?ino > 100 \<Longrightarrow> data_block (iblocks ?ino ! 100)" using assms(1,2) by (auto simp: tidy_def)
  obtain m1 where m1: "each_sub_st bm_free (take 100 (iblocks ?ino)) m = Inr m1" "clears m m1"
    using free_all_clears[OF g(1), of "take 100 (iblocks ?ino)"] g(2) by (auto simp: pointers_ok_def dest: in_set_takeD)
  have ok1: "ok m1" using m1(2) by (simp add: clears_def)
  obtain m2 where m2: "(if isize ?ino > 100 then bindF (bm_read (iblocks ?ino ! 100) m1) (\<lambda>inodes.
      each_sub_st (remove_file f) (u32s_of_block inodes) m1) else Inr m1) = Inr m2" "clears m1 m2"
    using subs[OF m1(2)] g(3) ok1 by (cases "isize ?ino > 100") (auto simp: bm_read_ok data_block_lt clears_refl)
  obtain m' where m': "free_inode i m2 = Inr m'" "clears m2 m'" "itype (inode_at m' i) = 0"
    using free_inode_clears[OF _ assms(2), of m2] m2(2) unfolding clears_def by blast
  have "remove_file (Suc f) i m = Inr m'"
    using False g(1) assms(2) m1(1) m2(1) m'(1) by (simp add: get_inode_ok)
  then show ?thesis using m'(3) clears_trans[OF clears_trans[OF m1(2) m2(2)] m'(2)] by blast
qed

lemma remove_leaves:
  "tidy m \<Longrightarrow> \<forall>n \<in> set (takeWhile (\<lambda>n. n \<noteq> 0) ns). inum_ok n \<and> isize (inode_at m n) \<le> 100 \<Longrightarrow>
   \<exists>m'. each_sub_st (remove_file (Suc f)) ns m = Inr m' \<and> clears m m'"
proof (induction ns arbitrary: m)
  case (Cons n ns)
  show ?case
  proof (cases "n = 0")
    case False
    then have n: "inum_ok n" "\<not> isize (inode_at m n) > 100" using Cons.prems(2) by auto
    obtain m1 where m1: "remove_file (Suc f) n m = Inr m1" "clears m m1"
      using remove_clears[OF Cons.prems(1) n(1), of f] n(2) by blast
    have "\<forall>n \<in> set (takeWhile (\<lambda>n. n \<noteq> 0) ns). inum_ok n \<and> isize (inode_at m1 n) \<le> 100"
      using Cons.prems(2) clears_size[OF m1(2)] False by auto
    then obtain m' where "each_sub_st (remove_file (Suc f)) ns m1 = Inr m'" "clears m1 m'"
      using Cons.IH[OF clears_tidy[OF m1(2) Cons.prems(1)]] by blast
    then show ?thesis using False m1 clears_trans by (auto simp del: remove_file.simps)
  qed (use Cons.prems(1) in \<open>auto simp: tidy_def clears_refl\<close>)
qed (auto simp: tidy_def clears_refl)

lemma remove_tidy:
  assumes "tidy m" "inum_ok i"
  shows "\<exists>m'. remove_file (Suc (Suc f)) i m = Inr m' \<and> clears m m' \<and> itype (inode_at m' i) = 0"
proof (rule remove_clears[OF assms])
  fix m1
  let ?x = "inode_at m i"
  assume m1: "clears m m1" "isize ?x > 100"
  then have "data_block (iblocks ?x ! 100)" "\<forall>n \<in> table m ?x. inum_ok n \<and> isize (inode_at m n) \<le> 100"
    using assms by (auto simp: tidy_def)
  then have "\<forall>n \<in> table m1 ?x. inum_ok n \<and> isize (inode_at m1 n) \<le> 100"
    using clears_table[OF m1(1)] clears_size[OF m1(1)] by blast
  then show "\<exists>m2. each_sub_st (remove_file (Suc f)) (u32s_of_block (data m1 (iblocks ?x ! 100))) m1 = Inr m2 \<and> clears m1 m2"
    using remove_leaves[OF clears_tidy[OF m1(1) assms(1)]] by (simp add: table_def)
qed

lemma files_tidy:
  assumes "files ns vs m"
  shows "tidy m"
proof -
  have "data_block (iblocks (inode_at m j) ! 100) \<and> (\<forall>n \<in> table m (inode_at m j). inum_ok n \<and> isize (inode_at m n) \<le> 100)"
    if j: "inum_ok j" "isize (inode_at m j) > 100" for j
  proof -
    have "j \<in> set ns" using assms j by (auto simp: files_def not_less[symmetric])
    then obtain k where k: "k < length ns" "j = ns ! k" by (auto simp: in_set_conv_nth)
    obtain I B where at: "file_at m j I B (vs ! k)" "I \<inter> set ns = {j}" using assms k by (auto elim: files_at)
    from at(1) show ?thesis
    proof cases
      case (indirect ino xs Is Bs ws)
      have "inum_ok n \<and> isize (inode_at m n) \<le> 100" if n: "n \<in> set xs" for n
      proof -
        obtain l where l: "l < length xs" "n = xs ! l" using n by (auto simp: in_set_conv_nth)
        have sub: "file_at m n (Is ! l) (Bs ! l) (ws ! l)" "j \<notin> Is ! l" using indirect l by auto
        then have n_in: "n \<in> Is ! l" "inum_ok n" using file_at_inodes by blast+
        moreover have "Is ! l \<subseteq> I" using indirect(1) nth_Union[of l Is] l indirect by auto
        moreover have "n \<noteq> j" using n_in(1) sub(2) by blast
        ultimately have "n \<notin> set ns" using at(2) n_in(1) by blast
        then show ?thesis using assms n_in(2) by (simp add: files_def)
      qed
      moreover have "iblocks ino ! 100 \<in> set (iblocks ino)" using indirect by simp
      ultimately show ?thesis using indirect by (auto simp: table_def)
    qed (use j(2) in auto)
  qed
  then show ?thesis using assms by (auto simp: files_def tidy_def)
qed

lemma clears_free: "clears m m' \<Longrightarrow> free_blocks m \<subseteq> free_blocks m' \<and> free_inodes m \<subseteq> free_inodes m'"
  by (auto simp: clears_def vol.free_set_def free_inodes_def)

lemma clears_leaf: "clears m m' \<Longrightarrow> inum_ok j \<Longrightarrow> leaf (inode_at m j) \<Longrightarrow> leaf (inode_at m' j)"
  unfolding clears_def by (metis leaf_def word_zero_le zero_inode_simps(2,3))

text \<open>The new disk.\<close>

lemma files_init:
  obtains m where "inode_manager_init clk = Inr (Some m)" "files [] [] m" "free_inodes m = {j. inum_ok j \<and> j \<noteq> 1}"
    "free_blocks m = {b. data_block b}"
proof -
  let ?m = "\<lparr>bm = block_manager_init, clock = clk, ticks = 0\<rparr>"
  obtain m where m: "inode_manager_init clk = Inr (Some m)" "ok m" "inode_at m 1 = new_inode 1 (clk 0)"
    "\<forall>j. inum_ok j \<and> j \<noteq> 1 \<longrightarrow> itype (inode_at m j) = 0" "free_blocks m = {b. data_block b}" by (rule init_does)
  have ok: "ok ?m" by (simp add: fmt_init)
  obtain i where al: "alloc_inode 1 ?m = Inr (i, m)" using m(1) by (auto simp: inode_manager_init_def bindF_eq_Inr split: if_splits)
  note made = vol.create_does[OF ok _ al, simplified]
  have "inode_at ?m j = zero_inode" for j
    by (simp add: inode_at_def block_manager_init_def disk_init_def decode_inode_def zero_inode_def u32_of_zeros array_of_zeros numeral_2_eq_2)
  moreover have "leaf zero_inode" by (simp add: leaf_def)
  ultimately have "leaf (inode_at m j)" if "inum_ok j" for j
    using made that by (cases "j = i") auto
  then have "files [] [] m" using m(2) by (intro files_none) auto
  moreover have "free_inodes m = {j. inum_ok j \<and> j \<noteq> 1}" using m(3,4) by (auto simp: free_inodes_def)
  ultimately show thesis using that m(1,5) by blast
qed

end
