(* ===== verification/Chfs_Large.thy ===== *)
theory Chfs_Large imports Chfs_Files File_Store begin

text \<open>
  Reading and writing at offsets in text files of up to 127 pieces: contents without zero bytes, which
  are kept exactly whatever their size.
\<close>

subsection \<open>Emptying a file of any size\<close>

lemma get_file_size_at: "file_at m i I B v \<Longrightarrow> ok m \<Longrightarrow> card I \<le> f \<Longrightarrow> \<exists>s. get_file_size f i m = Inr s"
proof (induction arbitrary: f rule: file_at.induct)
  case (direct i ino)
  then obtain g where f: "f = Suc g" by (cases f) auto
  have "isize ino = 0 \<or> data_block (iblocks ino ! unat (isize ino - 1))"
  proof (cases "isize ino = 0")
    case False
    then have "unat (isize ino - 1) < unat (isize ino)" "unat (isize ino) \<le> 100"
      using direct.hyps(4) by (simp_all add: word_le_nat_alt unat_minus_one unat_gt_0)
    then have "iblocks ino ! unat (isize ino - 1) \<in> set (take (unat (isize ino)) (iblocks ino))"
      using direct.hyps(2) by (auto simp: in_set_conv_nth intro!: exI[of _ "unat (isize ino - 1)"])
    then show ?thesis using direct.hyps(5) by blast
  qed simp
  moreover have "isize ino < 101" using direct.hyps(4) by (simp add: word_le_nat_alt word_less_nat_alt)
  ultimately show ?case
    using direct.hyps(1,2) direct.prems(1) by (auto simp: f get_inode_ok last_non_zero_element_index_in_block_def bm_read_ok data_block_lt)
next
  case (indirect i ino ns Is Bs vs)
  define U where "U = \<Union> (set Is)"
  have "finite J \<and> i \<notin> J" if "J \<in> set Is" for J
    using indirect.hyps(7) _ that by (rule Union_nth) (use indirect.IH file_at_inodes in blast)
  then have fin: "finite U" "i \<notin> U" by (auto simp: U_def)
  have "Suc (card U) \<le> f" using indirect.prems(2) card_insert_disjoint[OF fin] by (simp only: U_def)
  then obtain g where f: "f = Suc g" and gU: "card U \<le> g" by (cases f) auto
  have "\<forall>k < length ns. \<exists>s. ns ! k \<noteq> 0 \<and> get_file_size g (ns ! k) m = Inr s"
  proof (intro allI impI)
    fix k assume k: "k < length ns"
    then have "ns ! k \<in> set ns" by simp
    then have "ns ! k \<noteq> 0" unfolding indirect.hyps(6) by (auto dest: set_takeWhileD)
    moreover have "card (Is ! k) \<le> card U"
      using fin(1) nth_Union[of k Is] k indirect.hyps(7) by (intro card_mono) (simp_all add: U_def)
    ultimately show "\<exists>s. ns ! k \<noteq> 0 \<and> get_file_size g (ns ! k) m = Inr s"
      using indirect.IH k indirect.prems(1) gU by simp
  qed
  then obtain s where s: "\<forall>k < length ns. ns ! k \<noteq> 0 \<and> get_file_size g (ns ! k) m = Inr (s k)" by metis
  have "each_sub (\<lambda>j. get_file_size g j m) ns = Inr (map s [0..<length ns])"
    by (rule each_sub_nth) (use s in simp_all)
  then have "each_sub (\<lambda>j. get_file_size g j m) (u32s_of_block (data m (iblocks ino ! 100))) = Inr (map s [0..<length ns])"
    unfolding indirect.hyps(6) each_sub_takeWhile .
  moreover have "bm_read (iblocks ino ! 100) m = Inr (data m (iblocks ino ! 100))"
    using indirect.hyps(2,5) indirect.prems(1) by (intro bm_read_ok data_block_lt) simp_all
  moreover have "isize ino \<noteq> 0" "\<not> isize ino < 101" using indirect.hyps(4) by (auto simp: word_less_nat_alt)
  ultimately show ?case using indirect.hyps(1,2) indirect.prems(1) by (simp add: f get_inode_ok)
qed

lemma empty_at:
  assumes "file_at m i I B v" "ok m"
  shows "\<exists>m'. set_attr max_depth i 0 m = Inr m' \<and> ok m' \<and> inum_ok i \<and> itype (inode_at m' i) \<noteq> 0
    \<and> (\<forall>j. inum_ok j \<and> j \<noteq> i \<longrightarrow> inode_at m' j = inode_at m j) \<and> (\<forall>b. data_block b \<longrightarrow> in_use m' b = in_use m b \<and> data m' b = data m b)"
proof -
  have i: "inum_ok i" "itype (inode_at m i) \<noteq> 0" using file_at_inodes[OF assms(1)] by auto
  obtain s where s: "get_file_size (Suc 1024) i m = Inr s" using get_file_size_at[OF assms, of "Suc 1024"] file_at_card[OF assms(1)] by auto
  then have sz: "get_file_size max_depth i m = Inr s" by simp
  show ?thesis
  proof (cases "(0 :: u64) < ucast s")
    case False
    then show ?thesis using assms(2) i by (simp add: set_attr_def sz del: get_file_size.simps)
  next
    case True
    let ?x = "(inode_at m i)\<lparr>isize := 0, mtime := fst (time_now m)\<rparr>" and ?m = "snd (time_now m)"
    have ok: "ok ?m" "length (iblocks ?x) = 101" using assms(2) by simp_all
    obtain m' where m': "put_inode i ?x ?m = Inr m'" using vol.save_returns[OF ok(1) i(1) ok(2)] by blast
    have "blocks_of_size 0 = 0" by (simp add: blocks_of_size_def)
    then have "padding_file (Suc 1024) i 0 m = Inr m'"
      using assms(2) i(1) m' unfolding padding_file.simps(2) by (simp add: get_inode_ok Let_def case_prod_beta)
    then have "padding_file max_depth i 0 m = Inr m'" by simp
    then have "set_attr max_depth i 0 m = Inr m'"
      using True by (simp add: set_attr_def sz del: get_file_size.simps padding_file.simps)
    then show ?thesis using vol.save_does[OF ok(1) i(1) ok(2) m'] i by auto
  qed
qed

subsection \<open>Writing\<close>

lemma write_text:
  assumes "ok m" "inum_ok i" "itype (inode_at m i) \<noteq> 0" "0 \<notin> set buf" "length buf \<le> 51200 * (1 + p)" "p \<le> 126"
    and "p \<le> card (free_inodes m)" "n_blocks (int (length buf)) < card (free_blocks m)"
  shows "\<exists>m'. write_file i (buf @ [0]) (int (length buf)) m = Inr m' \<and> written m m' i buf"
proof -
  let ?sz = "int (length buf)" and ?b = "buf @ [0]"
  have sz: "0 \<le> ?sz" "nat ?sz \<le> length ?b" "take (nat ?sz) ?b = buf" by simp_all
  have "\<exists>m'. write_file i ?b ?sz m = Inr m'"
  proof (cases "length buf \<le> 51200")
    case True
    then show ?thesis using write_small_returns[OF assms(1,2) sz(1) _ sz(2)] assms(8) by (auto split: if_splits)
  next
    case False
    have "int (length buf) \<le> int (51200 * (1 + p))" using assms(5) by (simp only: of_nat_le_iff)
    then have "51200 < ?sz" "?sz \<le> 51200 * (1 + int p)" using False by simp_all
    then show ?thesis using write_large_returns[OF assms(1-3) sz(2) _ _ assms(6-8)] by blast
  qed
  then obtain m' where m': "write_file i ?b ?sz m = Inr m'" ..
  then show ?thesis using write_file_does[OF m' assms(1-3) sz(2)] sz(3) read_back_nonzero[OF assms(4)] by auto
qed

lemma get_at:
  assumes "file_at m (ucast i) I B v" "ok m" "i \<le> 1024"
  shows "ec_get i m = Inr (OK, v)"
  using read_file_at[OF assms(1,2), of max_depth] file_at_card[OF assms(1)] assms(3)
  by (simp add: ec_get_def es_get_def id_inum_small del: read_file.simps)

text \<open>
  C12: Writing at an offset in a text file of up to 127 pieces, from inside the file or from its end on:
  the bytes are replaced or appended, reading at any offset afterwards gives that content, and no
  file that does not run through the written inode changes.
\<close>

theorem write_splices_text:
  assumes "ok c" "file_at c (ucast ino) I B v" "ino \<le> 1024" "0 \<notin> set v" "0 \<notin> set (take (unat sz) d)"
    and "unat off \<le> length v" "unat sz \<le> length d" "max (length v) (unat off + unat sz) \<le> 51200 * (1 + p)" "p \<le> 126"
    and "p \<le> card (free_inodes c)" "n_blocks (int (max (length v) (unat off + unat sz))) < card (free_blocks c)"
  shows "\<exists>c'. chfs_write ino sz off d c = Inr (OK, sz, c')
    \<and> (\<forall>pos n. unat pos + unat n < 2 ^ 63 \<longrightarrow> chfs_read ino n pos c'
         = Inr (OK, take (unat n) (drop (unat pos) (write_at (unat off) (take (unat sz) d) v))))
    \<and> (\<forall>j J C w. j \<le> 1024 \<and> file_at c (ucast j) J C w \<and> ucast ino \<notin> J \<longrightarrow> ec_get j c' = Inr (OK, w))"
proof -
  let ?i = "ucast ino :: u32" and ?w = "write_at (unat off) (take (unat sz) d) v"
  have len: "length ?w = max (length v) (unat off + unat sz)" using assms(7) by (simp add: write_at_length)
  have "(51200 :: nat) * (1 + p) \<le> 51200 * 127" using assms(9) by simp
  then have L: "max (length v) (unat off + unat sz) < 2 ^ 31" using assms(8) by simp
  then have bounds: "unat off + unat sz < 2 ^ 31" "length v < 2 ^ 31" by simp_all
  note copy = copy_at[OF bounds(1) assms(7) bounds(2)]
  have nz: "0 \<notin> set ?w" using assms(4-6) by (auto simp: write_at_def dest: in_set_takeD in_set_dropD)
  obtain c1 where c1: "set_attr max_depth ?i 0 c = Inr c1" "ok c1" "inum_ok ?i" "itype (inode_at c1 ?i) \<noteq> 0"
    "\<forall>j. inum_ok j \<and> j \<noteq> ?i \<longrightarrow> inode_at c1 j = inode_at c j" "\<forall>b. data_block b \<longrightarrow> in_use c1 b = in_use c b \<and> data c1 b = data c b"
    using empty_at[OF assms(2,1)] by blast
  have "itype (inode_at c ?i) \<noteq> 0" using file_at_inodes[OF assms(2)] by blast
  then have "free_inodes c1 = free_inodes c" using c1(4,5) unfolding free_inodes_def by metis
  moreover have "free_blocks c1 = free_blocks c" using c1(6) by (auto simp: vol.free_set_def)
  ultimately obtain c2 where c2: "write_file ?i (?w @ [0]) (int (length ?w)) c1 = Inr c2" "written c1 c2 ?i ?w"
    using write_text[OF c1(2-4) nz, of p] assms(8-11) unfolding len by auto
  have "sint (of_nat (length ?w) :: u32) = int (length ?w)" using L unfolding len[symmetric] by (simp add: signed_of_nat signed_take_bit_int_eq_self)
  then have put: "ec_put ino ?w c1 = Inr (OK, c2)" using c2(1) assms(3) by (simp add: ec_put_def es_put_def id_inum_small Let_def)
  have attr: "ec_set_attr ino 0 c = Inr (OK, c1)" using c1(1) by (simp add: ec_set_attr_def es_set_attr_def)
  have "chfs_write ino sz off d c = Inr (OK, sz, c2)"
    unfolding chfs_write_def get_at[OF assms(2,1,3)] setattr_def attr bindF_Inr case_prod_conv Let_def copy put by simp
  moreover obtain I' B' where at: "file_at c2 ?i I' B' ?w" and ext: "vol.ext {?i} c1 c2" using c2(2) by (auto simp: written_def)
  have "chfs_read ino n pos c2 = Inr (OK, take (unat n) (drop (unat pos) ?w))" if "unat pos + unat n < 2 ^ 63" for pos n
    using get_at[OF at vol.ext_ok[OF ext] assms(3)] L that unfolding len[symmetric] by (rule read_slice)
  moreover have "ec_get j c2 = Inr (OK, w)" if "j \<le> 1024" "file_at c (ucast j) J C w" "?i \<notin> J" for j J C w
  proof -
    have "file_at c1 (ucast j) J C w"
      using that(2) by (rule file_at_frame) (use that(3) c1(5,6) file_at_inodes[OF that(2)] file_at_blocks[OF that(2)] in auto)
    then have "file_at c2 (ucast j) J C w" using ext by (rule file_at_ext) (use that(3) in blast)
    then show ?thesis using vol.ext_ok[OF ext] that(1) by (rule get_at)
  qed
  ultimately show ?thesis by blast
qed

lemma example_text:
  obtains c I B where "ok c" "file_at c 1 I B (replicate 102401 7)" "2 \<le> card (free_inodes c)" "1000 < card (free_blocks c)"
proof -
  let ?b = "replicate 102401 (7 :: u8)"
  obtain m where m: "files [] [] m" "free_inodes m = {j. inum_ok j \<and> j \<noteq> 1}" "free_blocks m = {b. data_block b}"
    "inode_manager_init (\<lambda>n. 0) = Inr (Some m)" by (rule files_init)
  obtain m0 where m0: "inode_manager_init (\<lambda>n. 0) = Inr (Some m0)" "inode_at m0 1 = new_inode 1 0"
    by (rule init_does[of "\<lambda>n. 0"]) (rule that)
  have one: "inum_ok 1" by (simp add: inum_ok_def)
  have ty: "itype (inode_at m 1) \<noteq> 0" using m0 m(4) by simp
  have "{2, 3, 4, 5} \<subseteq> free_inodes m" unfolding m(2) by (auto simp: inum_ok_def)
  then have "card {2, 3, 4, 5 :: u32} \<le> card (free_inodes m)" by (intro card_mono) simp_all
  then have free: "4 \<le> card (free_inodes m)" "2 \<le> card (free_inodes m)" by simp_all
  have n: "n_blocks 102401 = 201" by (simp add: n_blocks_def)
  have blocks: "n_blocks 102401 < card (free_blocks m)" using m(3) card_data_blocks n by simp
  have b: "nat 102401 \<le> length ?b" "(51200 :: int) < 102401" "102401 \<le> 51200 * (1 + int 2)" "(2 :: nat) \<le> 126" by simp_all
  from write_large_returns[OF files_ok[OF m(1)] one ty b free(2) blocks] obtain c where
    c: "write_file 1 ?b 102401 m = Inr c" "card (free_inodes m) \<le> card (free_inodes c) + 2"
       "card (free_blocks c) + n_blocks 102401 + 1 = card (free_blocks m)" by blast
  have "written m c 1 (read_back (take (nat 102401) ?b))"
    using c(1) files_ok[OF m(1)] one ty b(1) by (rule write_file_does) simp
  then have "written m c 1 ?b" using read_back_nonzero[of ?b] by simp
  then obtain I B where "file_at c 1 I B ?b" "ok c" by (auto simp: written_def dest: vol.ext_ok)
  then show thesis using that c(2,3) free(1) n m(3) card_data_blocks by auto
qed

theorem write_splices_text_witness:
  "\<exists>c c'. ec_get 1 c = Inr (OK, replicate 102401 7) \<and> chfs_write 1 1 102401 [8] c = Inr (OK, 1, c')
     \<and> chfs_read 1 10 102400 c' = Inr (OK, [7, 8])"
proof -
  obtain c I B where c: "ok c" "file_at c 1 I B (replicate 102401 7)" "2 \<le> card (free_inodes c)" "1000 < card (free_blocks c)"
    by (rule example_text) (rule that)
  have at: "file_at c (ucast (1 :: u64)) I B (replicate 102401 7)" using c(2) by simp
  have n: "n_blocks 102402 = 201" by (simp add: n_blocks_def)
  have "\<exists>c'. chfs_write 1 1 102401 [8] c = Inr (OK, 1, c')
    \<and> (\<forall>pos n. unat pos + unat n < 2 ^ 63 \<longrightarrow> chfs_read 1 n pos c'
         = Inr (OK, take (unat n) (drop (unat pos) (write_at (unat (102401 :: u64)) (take (unat (1 :: u64)) [8]) (replicate 102401 7)))))
    \<and> (\<forall>j J C w. j \<le> 1024 \<and> file_at c (ucast j) J C w \<and> ucast (1 :: u64) \<notin> J \<longrightarrow> ec_get j c' = Inr (OK, w))"
    using c(1) at by (rule write_splices_text[where p = 2]) (use c(3,4) n in simp_all)
  then obtain c' where c': "chfs_write 1 1 102401 [8] c = Inr (OK, 1, c')"
    "\<forall>pos n. unat pos + unat n < 2 ^ 63 \<longrightarrow> chfs_read 1 n pos c'
         = Inr (OK, take (unat n) (drop (unat pos) (write_at (unat (102401 :: u64)) (take (unat (1 :: u64)) [8]) (replicate 102401 7))))" by blast
  have "write_at (unat (102401 :: u64)) (take (unat (1 :: u64)) [8]) (replicate 102401 7) = replicate 102401 7 @ [8]"
    by (simp add: write_at_def)
  moreover have "take 10 (drop 102400 (replicate 102401 7 @ [8])) = [7, 8 :: u8]" by (simp add: numeral_2_eq_2 drop_replicate)
  ultimately have "chfs_read 1 10 102400 c' = Inr (OK, [7, 8])" using c'(2)[rule_format, of 102400 10] by simp
  then show ?thesis using c'(1) get_at[OF at c(1)] by auto
qed

end
