(* ===== verification/Tester.thy ===== *)
theory Tester imports File_Store Chfs_Client begin

text \<open>
  \<open>part1_tester.cc\<close>: the tests of \<open>extent_client\<close> that print a score. Every test function seeds \<open>rand\<close> with
  the time; the numbers it returns from then on are an argument of the test, a function of the number
  of the call. A test returns its code, which is 0 when it passes, and the client; printing is left out.
\<close>

abbreviation (input) FILE_NUM :: nat where "FILE_NUM \<equiv> 50"
abbreviation (input) LARGE_FILE_SIZE_MIN :: nat where "LARGE_FILE_SIZE_MIN \<equiv> 512 * 10"
abbreviation (input) LARGE_FILE_SIZE_MAX :: nat where "LARGE_FILE_SIZE_MAX \<equiv> 512 * 200"

type_synonym rand = "nat \<Rightarrow> nat"

subsection \<open>Creating\<close>

text \<open>The two branches of the loop body differ in the type only. \<open>n\<close> counts the turns that are left.\<close>

fun create_turns :: "nat \<Rightarrow> nat \<Rightarrow> rand \<Rightarrow> extent_client \<Rightarrow> fault + int \<times> extent_client" where
  "create_turns 0 i rand ec = Inr (0, ec)"
| "create_turns (Suc n) i rand ec =
     (let rnum = rand i mod 10; type = if rnum < 3 then T_DIR else T_FILE
      in bindF (ec_create type ec) (\<lambda>(_, id, ec1).
         if (ucast id :: u32) = 0 then Inr (1, ec1)
         else bindF (ec_getattr id ec1) (\<lambda>(r, a).
           if r \<noteq> OK then Inr (2, ec1)
           else if a_type a \<noteq> type then Inr (3, ec1)
           else create_turns n (Suc i) rand ec1)))"

definition test_create_and_getattr :: "rand \<Rightarrow> extent_client \<Rightarrow> fault + int \<times> extent_client" where
  "test_create_and_getattr rand ec = create_turns FILE_NUM 0 rand ec"

subsection \<open>Small files\<close>

text \<open>
  \<open>sprintf\<close> of an \<open>int\<close> into the 10 bytes of \<open>temp\<close>, read back as a string. \<open>contents\<close> are the numbers
  stored in the array, which start uninitialised: what is in it then is an argument.
\<close>

definition sprint :: "int \<Rightarrow> fault + bytes" where
  "sprint d = (let s = (if d < 0 then 45 # dec_digits (nat (- d)) else dec_digits (nat d))
     in if length s < 10 then Inr s else Inl Out_of_bounds)"

text \<open>\<open>k\<close> counts the calls of \<open>rand\<close>, which is only called for files.\<close>

fun put_turns :: "nat \<Rightarrow> nat \<Rightarrow> nat \<Rightarrow> rand \<Rightarrow> (nat \<Rightarrow> int) \<Rightarrow> extent_client \<Rightarrow> fault + int \<times> (nat \<Rightarrow> int) \<times> extent_client" where
  "put_turns 0 i k rand contents ec = Inr (0, contents, ec)"
| "put_turns (Suc n) i k rand contents ec =
     (let id = of_nat (i + 2)
      in bindF (ec_getattr id ec) (\<lambda>(r, a).
         if r \<noteq> OK then Inr (1, contents, ec)
         else if a_type a = T_FILE
         then (let rnum = int (rand k mod 10000)
               in bindF (sprint rnum) (\<lambda>buf.
                  bindF (ec_put id buf ec) (\<lambda>(r, ec1).
                    if r \<noteq> OK then Inr (2, contents, ec1)
                    else put_turns n (Suc i) (Suc k) rand (contents(i := rnum)) ec1)))
         else put_turns n (Suc i) k rand contents ec))"

fun get_turns :: "nat \<Rightarrow> nat \<Rightarrow> (nat \<Rightarrow> int) \<Rightarrow> extent_client \<Rightarrow> fault + int" where
  "get_turns 0 i contents ec = Inr 0"
| "get_turns (Suc n) i contents ec =
     (let id = of_nat (i + 2)
      in bindF (ec_getattr id ec) (\<lambda>(r, a).
         if r \<noteq> OK then Inr 3
         else if a_type a = T_FILE
         then bindF (ec_get id ec) (\<lambda>(r, buf).
           if r \<noteq> OK then Inr 4
           else bindF (sprint (contents i)) (\<lambda>buf2.
             if buf \<noteq> buf2 then Inr 5 else get_turns n (Suc i) contents ec))
         else get_turns n (Suc i) contents ec))"

definition test_put_and_get :: "rand \<Rightarrow> (nat \<Rightarrow> int) \<Rightarrow> extent_client \<Rightarrow> fault + int \<times> extent_client" where
  "test_put_and_get rand contents ec = bindF (put_turns FILE_NUM 0 0 rand contents ec) (\<lambda>(r, contents1, ec1).
     if r \<noteq> 0 then Inr (r, ec1)
     else bindF (get_turns FILE_NUM 0 contents1 ec1) (\<lambda>r. Inr (r, ec1)))"

subsection \<open>Removing\<close>

text \<open>The status of \<open>getattr\<close> is not looked at here.\<close>

fun remove_turns :: "nat \<Rightarrow> nat \<Rightarrow> extent_client \<Rightarrow> fault + int \<times> extent_client" where
  "remove_turns 0 i ec = Inr (0, ec)"
| "remove_turns (Suc n) i ec =
     (let id = of_nat (i + 2)
      in bindF (ec_remove id ec) (\<lambda>(r, ec1).
         if r \<noteq> OK then Inr (1, ec1)
         else bindF (ec_getattr id ec1) (\<lambda>(_, a).
           if a_type a \<noteq> 0 then Inr (2, ec1) else remove_turns n (Suc i) ec1)))"

definition test_remove :: "extent_client \<Rightarrow> fault + int \<times> extent_client" where
  "test_remove ec = remove_turns FILE_NUM 0 ec"

subsection \<open>Large files\<close>

fun create_files :: "nat \<Rightarrow> u64 list \<Rightarrow> extent_client \<Rightarrow> fault + int \<times> u64 list \<times> extent_client" where
  "create_files 0 id_list ec = Inr (0, id_list, ec)"
| "create_files (Suc n) id_list ec = bindF (ec_create T_FILE ec) (\<lambda>(r, id, ec1).
     if r \<noteq> OK then Inr (1, id_list, ec1) else create_files n (id_list @ [id]) ec1)"

text \<open>
  The text of one file from the \<open>k\<close>-th call of \<open>rand\<close> on, and how many calls it takes. It lies in a
  buffer of zeros, so that the string ends behind it.
\<close>

definition large_text :: "rand \<Rightarrow> nat \<Rightarrow> bytes \<times> nat" where
  "large_text rand k =
     (let size = rand k mod (LARGE_FILE_SIZE_MAX - LARGE_FILE_SIZE_MIN) + LARGE_FILE_SIZE_MIN;
          temp = map (\<lambda>j. of_nat (97 + rand (k + 1 + j) mod 26)) [0..<size] @ replicate (LARGE_FILE_SIZE_MAX - size) 0
      in (takeWhile (\<lambda>ch. ch \<noteq> 0) temp, k + 1 + size))"

fun put_files :: "u64 list \<Rightarrow> nat \<Rightarrow> rand \<Rightarrow> bytes list \<Rightarrow> extent_client \<Rightarrow> fault + int \<times> nat \<times> bytes list \<times> extent_client" where
  "put_files [] k rand content ec = Inr (0, k, content, ec)"
| "put_files (eid # ids) k rand content ec =
     (let (text, k1) = large_text rand k
      in bindF (ec_put eid text ec) (\<lambda>(r, ec1).
         if r \<noteq> OK then Inr (1, k1, content @ [text], ec1)
         else put_files ids k1 rand (content @ [text]) ec1))"

fun get_files :: "(u64 \<times> bytes) list \<Rightarrow> extent_client \<Rightarrow> fault + int" where
  "get_files [] ec = Inr 0"
| "get_files ((eid, text) # xs) ec = bindF (ec_get eid ec) (\<lambda>(r, buf).
     if r \<noteq> OK then Inr 2 else if buf \<noteq> text then Inr 3 else get_files xs ec)"

fun rounds :: "nat \<Rightarrow> u64 list \<Rightarrow> nat \<Rightarrow> rand \<Rightarrow> extent_client \<Rightarrow> fault + int \<times> extent_client" where
  "rounds 0 id_list k rand ec = Inr (0, ec)"
| "rounds (Suc n) id_list k rand ec = bindF (put_files id_list k rand [] ec) (\<lambda>(r, k1, content, ec1).
     if r \<noteq> 0 then Inr (r, ec1)
     else bindF (get_files (zip id_list content) ec1) (\<lambda>r.
       if r \<noteq> 0 then Inr (r, ec1) else rounds n id_list k1 rand ec1))"

fun remove_files :: "u64 list \<Rightarrow> extent_client \<Rightarrow> fault + int \<times> extent_client" where
  "remove_files [] ec = Inr (0, ec)"
| "remove_files (eid # ids) ec = bindF (ec_remove eid ec) (\<lambda>(r, ec1).
     if r \<noteq> OK then Inr (4, ec1) else remove_files ids ec1)"

definition test_indirect :: "rand \<Rightarrow> extent_client \<Rightarrow> fault + int \<times> extent_client" where
  "test_indirect rand ec = bindF (create_files FILE_NUM [] ec) (\<lambda>(r, id_list, ec1).
     if r \<noteq> 0 then Inr (r, ec1)
     else bindF (rounds 10 id_list 0 rand ec1) (\<lambda>(r, ec2).
       if r \<noteq> 0 then Inr (r, ec2) else remove_files id_list ec2))"

subsection \<open>main\<close>

text \<open>
  The exit status, and the score that is printed last, if any. A test adds to the score when it passes, and the
  first one that fails ends the run. The constructor may exit the process, with status 0. The arguments are
  the number of words on the command line, the numbers for the tests, the array of the second test, and the clock.
\<close>

definition tester_main :: "int \<Rightarrow> rand \<Rightarrow> rand \<Rightarrow> (nat \<Rightarrow> int) \<Rightarrow> rand \<Rightarrow> (nat \<Rightarrow> u32) \<Rightarrow> fault + int \<times> int option" where
  "tester_main argc rand1 rand2 contents rand4 clk =
     (if argc \<noteq> 1 then Inr (1, None)
      else bindF (inode_manager_init clk) (\<lambda>start. case start of
          None \<Rightarrow> Inr (0, None)
        | Some ec \<Rightarrow>
            bindF (test_create_and_getattr rand1 ec) (\<lambda>(r, ec1). if r \<noteq> 0 then Inr (0, Some 0) else
            bindF (test_put_and_get rand2 contents ec1) (\<lambda>(r, ec2). if r \<noteq> 0 then Inr (0, Some 40) else
            bindF (test_remove ec2) (\<lambda>(r, ec3). if r \<noteq> 0 then Inr (0, Some (40 + 30)) else
            bindF (test_indirect rand4 ec3) (\<lambda>(r, ec4).
              if r \<noteq> 0 then Inr (0, Some (40 + 30 + 20)) else Inr (0, Some (40 + 30 + 20 + 10))))))))"

end
