(* ===== verification/Tester_Properties.thy ===== *)
theory Tester_Properties imports Tester Chfs_Files begin

text \<open>
  The tester scores 100 of 100 points, whatever numbers \<open>rand\<close> returns: each test finds the store in
  a state that \<open>files\<close> describes, returns 0 and leaves it in such a state.
\<close>

subsection \<open>Calls of the client with the number of an inode\<close>

lemma ucast_down: "inum_ok n \<Longrightarrow> (ucast n :: u64) \<le> 1024 \<and> (ucast (ucast n :: u64) :: u32) = n"
  by (simp add: inum_ok_def word_le_nat_alt)

lemma id_inum_ucast: "inum_ok n \<Longrightarrow> id_inum (ucast n) = n"
  using ucast_down[of n] by (simp add: id_inum_small)

lemma client_get: "inum_ok n \<Longrightarrow> ec_get (ucast n) m = bindF (read_file max_depth n m) (\<lambda>buf. Inr (OK, buf))"
  by (simp add: ec_get_def es_get_def id_inum_ucast)

lemma client_put: "inum_ok n \<Longrightarrow> length buf < 2 ^ 31 \<Longrightarrow>
  ec_put (ucast n) buf m = bindF (write_file n (buf @ [0]) (int (length buf)) m) (\<lambda>m1. Inr (OK, m1))"
proof -
  assume "inum_ok n" "length buf < 2 ^ 31"
  moreover from this have "sint (of_nat (length buf) :: u32) = int (length buf)"
    by (simp add: signed_of_nat signed_take_bit_int_eq_self)
  ultimately show ?thesis by (simp add: ec_put_def es_put_def id_inum_ucast Let_def)
qed

lemma client_attr: "ok m \<Longrightarrow> inum_ok n \<Longrightarrow> leaf (inode_at m n) \<Longrightarrow>
  \<exists>a. ec_getattr (ucast n) m = Inr (OK, a) \<and> a_type a = scast (itype (inode_at m n))"
  using leaf_attr[of m n] by (auto simp: ec_getattr_def es_getattr_def id_inum_ucast)

lemma client_remove: "tidy m \<Longrightarrow> inum_ok n \<Longrightarrow>
  \<exists>m'. ec_remove (ucast n) m = Inr (OK, m') \<and> clears m m' \<and> itype (inode_at m' n) = 0"
  using remove_tidy[of m n 1023] by (auto simp: ec_remove_def es_remove_def id_inum_ucast simp del: remove_file.simps)

lemma client_create: "ec_create t m = bindF (alloc_inode t m) (\<lambda>(i, m1). Inr (OK, ucast i, m1))"
  by (simp add: ec_create_def es_create_def)

subsection \<open>Creating\<close>

text \<open>The number of the \<open>i\<close>-th file, behind the root directory.\<close>

definition num :: "nat \<Rightarrow> u32" where
  "num i = of_nat (i + 2)"

lemma num_simps: "i < 1000 \<Longrightarrow> unat (num i) = i + 2" "i < 1000 \<Longrightarrow> inum_ok (num i)" "i < 1000 \<Longrightarrow> ucast (num i) = (of_nat (i + 2) :: u64)"
proof -
  have small: "unat (of_nat k :: u32) = k \<and> unat (of_nat k :: u64) = k" if "k < 2000" for k
    using that by (simp add: unat_of_nat take_bit_nat_eq_self)
  have n: "unat (num i) = i + 2" if "i < 1000" for i unfolding num_def using small[of "i + 2"] that by (simp del: of_nat_add)
  show "i < 1000 \<Longrightarrow> unat (num i) = i + 2" by (rule n)
  show "inum_ok (num i)" if "i < 1000" using n[OF that] that by (simp add: inum_ok_def word_le_nat_alt)
  have "unat (ucast (num i) :: u64) = unat (of_nat (i + 2) :: u64)" if "i < 1000"
    using n[OF that] small[of "i + 2"] that by (simp del: of_nat_add)
  then show "ucast (num i) = (of_nat (i + 2) :: u64)" if "i < 1000" using that word_unat_eq_iff by blast
qed

definition unused_from :: "nat \<Rightarrow> u32 set" where
  "unused_from i = {j. inum_ok j \<and> i < unat j}"

definition created :: "nat \<Rightarrow> inode_manager \<Rightarrow> bool" where
  "created i m \<longleftrightarrow> files (map num [0..<i]) (replicate i []) m \<and> free_inodes m = unused_from (i + 1)
     \<and> (\<forall>l < i. isize (inode_at m (num l)) = 0 \<and> itype (inode_at m (num l)) \<in> {1, 2}) \<and> free_blocks m = {b. data_block b}"

lemma create_step:
  assumes "created i m" "i < 1000" "t \<in> {1, 2}"
  shows "\<exists>m'. alloc_inode t m = Inr (num i, m') \<and> created (Suc i) m' \<and> itype (inode_at m' (num i)) = ucast t"
proof -
  have f: "files (map num [0..<i]) (replicate i []) m" "t \<in> {1, 2, 3}" and free: "free_inodes m = unused_from (i + 1)"
    using assms by (auto simp: created_def)
  have i: "num i \<in> free_inodes m" using assms(2) free by (simp add: unused_from_def num_simps)
  then have "free_inodes m \<noteq> {}" by blast
  with f obtain n m' now where n: "alloc_inode t m = Inr (n, m')" "files (map num [0..<i] @ [n]) (replicate i [] @ [[]]) m'"
    "n \<in> free_inodes m" "\<forall>j. inum_ok j \<and> j < n \<longrightarrow> itype (inode_at m j) \<noteq> 0" "inode_at m' n = new_inode t now"
    "\<forall>j. inum_ok j \<and> j \<noteq> n \<longrightarrow> inode_at m' j = inode_at m j" "free_blocks m' = free_blocks m"
    by (rule files_create)
  have "\<not> num i < n" using n(4) i by (auto simp: free_inodes_def)
  moreover have "unat (num i) \<le> unat n" using n(3) free assms(2) by (simp add: unused_from_def num_simps)
  ultimately have eq: "n = num i" by (simp add: word_le_nat_alt not_less word_unat_eq_iff)
  have other: "inode_at m' (num l) = inode_at m (num l)" if "l < i" for l
  proof -
    have "unat (num l) \<noteq> unat (num i)" using that assms(2) by (simp add: num_simps)
    then show ?thesis using n(6) eq num_simps(2)[of l] that assms(2) by auto
  qed
  have "free_inodes m' = free_inodes m - {num i}"
    using n(3,5,6) assms(3) unfolding eq by (auto simp: free_inodes_def)
  moreover have "j = num i \<longleftrightarrow> unat j = i + 2" for j
    using num_simps(1)[OF assms(2)] by (simp add: word_unat_eq_iff)
  ultimately have "free_inodes m' = unused_from (Suc i + 1)"
    using free num_simps(1)[OF assms(2)] by (auto simp: unused_from_def)
  moreover have "files (map num [0..<Suc i]) (replicate (Suc i) []) m'"
    using n(2) unfolding eq replicate_append_same by (simp add: replicate_append_same)
  moreover have "itype (inode_at m' (num i)) = ucast t" "isize (inode_at m' (num i)) = 0" using n(5) eq by simp_all
  ultimately have "created (Suc i) m'"
    using assms(1,3) n(7) other unfolding created_def less_Suc_eq by auto
  then show ?thesis using n(1,5) eq by auto
qed

lemma create_turns_pass:
  "created i m \<Longrightarrow> i + n \<le> 50 \<Longrightarrow> \<exists>m'. create_turns n i rand m = Inr (0, m') \<and> created (i + n) m'"
proof (induction n arbitrary: i m)
  case (Suc n)
  let ?t = "if rand i mod 10 < 3 then 1 else 2 :: u32"
  have i: "i < 1000" "inum_ok (num i)" using Suc.prems(2) num_simps(2)[of i] by simp_all
  have t: "?t \<in> {1, 2}" by simp
  obtain m1 where m1: "alloc_inode ?t m = Inr (num i, m1)" "created (Suc i) m1" "itype (inode_at m1 (num i)) = ucast ?t"
    using create_step[OF Suc.prems(1) i(1) t] by blast
  have "ok m1" "leaf (inode_at m1 (num i))"
    using m1(2) i(2) by (auto simp: created_def leaf_def files_def)
  then obtain a where a: "ec_getattr (ucast (num i)) m1 = Inr (OK, a)" "a_type a = scast (ucast ?t :: u16)"
    using client_attr[OF _ i(2)] m1(3) by metis
  have "num i \<noteq> 0" using i(2) by (auto simp: inum_ok_def)
  moreover have "a_type a = ?t" using a(2) by simp
  ultimately have "create_turns (Suc n) i rand m = create_turns n (Suc i) rand m1"
    using a(1) m1(1) ucast_down[OF i(2)] by (simp add: client_create Let_def)
  then show ?case using Suc.IH[OF m1(2)] Suc.prems(2) by simp
qed simp

subsection \<open>Small files\<close>

lemma dec_digits_length: "n < 10 ^ Suc k \<Longrightarrow> length (dec_digits n) \<le> Suc k"
proof (induction k arbitrary: n)
  case (Suc k)
  then show ?case by (subst dec_digits.simps) (auto simp: less_mult_imp_div_less mult.commute)
qed (simp add: dec_digits.simps)

lemma dec_digits_text: "0 \<notin> set (dec_digits n)"
proof
  assume "0 \<in> set (dec_digits n)"
  then have "is_digit 0" by (rule dec_digits_digit)
  then show False by (simp add: is_digit_def)
qed

lemma sprint_number: "0 \<le> d \<Longrightarrow> d < 10000 \<Longrightarrow> sprint d = Inr (dec_digits (nat d))"
  using dec_digits_length[of "nat d" 3] by (simp add: sprint_def nat_less_iff Let_def)

text \<open>The first \<open>i\<close> of the 50 inodes have been looked at, and the files among them hold their numbers.\<close>

definition stored :: "nat \<Rightarrow> (nat \<Rightarrow> int) \<Rightarrow> inode_manager \<Rightarrow> bool" where
  "stored i contents m \<longleftrightarrow> (\<exists>vs. files (map num [0..<50]) vs m
     \<and> (\<forall>l < i. itype (inode_at m (num l)) = 2 \<longrightarrow> 0 \<le> contents l \<and> contents l < 10000 \<and> vs ! l = dec_digits (nat (contents l))))
     \<and> (\<forall>l < 50. isize (inode_at m (num l)) \<le> 100 \<and> itype (inode_at m (num l)) \<in> {1, 2})
     \<and> free_inodes m = unused_from 51 \<and> 2000000 + 2 * (50 - i) \<le> card (free_blocks m)"

lemma stored_attr:
  assumes "stored i contents m" "l < 50"
  shows "\<exists>a. ec_getattr (of_nat (l + 2)) m = Inr (OK, a) \<and> (a_type a = 2 \<longleftrightarrow> itype (inode_at m (num l)) = 2)"
proof -
  have l: "inum_ok (num l)" "ucast (num l) = (of_nat (l + 2) :: u64)" using assms(2) num_simps[of l] by simp_all
  have t: "itype (inode_at m (num l)) = 1 \<or> itype (inode_at m (num l)) = 2" "ok m" "leaf (inode_at m (num l))"
    using assms l(1) unfolding stored_def leaf_def by (auto simp: files_def)
  obtain a where "ec_getattr (of_nat (l + 2)) m = Inr (OK, a)" "a_type a = scast (itype (inode_at m (num l)))"
    using client_attr[OF t(2) l(1) t(3)] unfolding l(2) by blast
  then show ?thesis using t(1) by auto
qed

lemma stored_put:
  assumes "stored i contents m" "i < 50" "0 \<le> d" "d < 10000"
  shows "\<exists>m'. ec_put (of_nat (i + 2)) (dec_digits (nat d)) m = Inr (OK, m') \<and> stored (Suc i) (contents(i := d)) m'"
proof -
  let ?buf = "dec_digits (nat d)" and ?ns = "map num [0..<50]"
  obtain vs where vs: "files ?ns vs m"
    "\<forall>l < i. itype (inode_at m (num l)) = 2 \<longrightarrow> 0 \<le> contents l \<and> contents l < 10000 \<and> vs ! l = dec_digits (nat (contents l))"
    and rest: "\<forall>l < 50. isize (inode_at m (num l)) \<le> 100 \<and> itype (inode_at m (num l)) \<in> {1, 2}"
      "free_inodes m = unused_from 51" "2000000 + 2 * (50 - i) \<le> card (free_blocks m)"
    using assms(1) unfolding stored_def by blast
  have i: "i < length ?ns" "?ns ! i = num i" "inum_ok (num i)" "ucast (num i) = (of_nat (i + 2) :: u64)"
    using assms(2) num_simps[of i] by simp_all
  have len: "length ?buf \<le> 4" using dec_digits_length[of "nat d" 3] assms(3,4) by (simp add: nat_less_iff)
  then have n: "n_blocks (int (length ?buf)) \<le> 1" using n_blocks_int(2)[of "int (length ?buf)"] by linarith
  have "num 50 \<in> free_inodes m" using num_simps[of 50] unfolding rest(2) by (simp add: unused_from_def)
  then have "0 < card (free_inodes m)" by (auto simp: card_gt_0_iff)
  moreover have "n_blocks (int (length ?buf)) < card (free_blocks m)" using n rest(3) by linarith
  ultimately obtain m' where m': "write_file (num i) (?buf @ [0]) (int (length ?buf)) m = Inr m'" "files ?ns (vs[i := ?buf]) m'"
    "card (free_blocks m) \<le> card (free_blocks m') + n_blocks (int (length ?buf)) + 1"
    "free_inodes m' = free_inodes m \<and> isize (inode_at m' (num i)) \<le> 100"
    "itype (inode_at m' (num i)) = itype (inode_at m (num i))"
    "\<forall>j. inum_ok j \<and> itype (inode_at m j) \<noteq> 0 \<and> j \<noteq> num i \<longrightarrow> inode_at m' j = inode_at m j"
    using files_put[OF vs(1) i(1) dec_digits_text[of "nat d"]] len unfolding i(2) by auto
  have other: "inode_at m' (num l) = inode_at m (num l)" if "l < 50" "l \<noteq> i" for l
  proof -
    have "unat (num l) \<noteq> unat (num i)" using that assms(2) num_simps(1)[of l] num_simps(1)[of i] by simp
    moreover have "itype (inode_at m (num l)) \<noteq> 0" using rest(1) that(1) by fastforce
    ultimately show ?thesis using m'(6) num_simps(2)[of l] that(1) by auto
  qed
  have "length vs = 50" using vs(1) by (simp add: files_def)
  then have "\<forall>l < Suc i. itype (inode_at m' (num l)) = 2 \<longrightarrow> 0 \<le> (contents(i := d)) l \<and> (contents(i := d)) l < 10000
      \<and> vs[i := ?buf] ! l = dec_digits (nat ((contents(i := d)) l))"
    using vs(2) other assms(2-4) by (auto simp: less_Suc_eq)
  moreover have "isize (inode_at m' (num l)) \<le> 100 \<and> itype (inode_at m' (num l)) \<in> {1, 2}" if "l < 50" for l
    using rest(1) m'(4,5) other that by (cases "l = i") auto
  moreover have "2000000 + 2 * (50 - Suc i) \<le> card (free_blocks m')" using m'(3) n rest(3) assms(2) by linarith
  ultimately have "stored (Suc i) (contents(i := d)) m'" using m'(2,4) rest(2) unfolding stored_def by blast
  then show ?thesis using client_put[OF i(3), of ?buf m] m'(1) len unfolding i(4) by auto
qed

lemma put_turns_pass:
  "stored i contents m \<Longrightarrow> i + n \<le> 50 \<Longrightarrow>
   \<exists>contents' m'. put_turns n i k rand contents m = Inr (0, contents', m') \<and> stored (i + n) contents' m'"
proof (induction n arbitrary: i k contents m)
  case (Suc n)
  have i: "i < 50" using Suc.prems(2) by simp
  obtain a where a: "ec_getattr (of_nat (i + 2)) m = Inr (OK, a)" "a_type a = 2 \<longleftrightarrow> itype (inode_at m (num i)) = 2"
    using stored_attr[OF Suc.prems(1) i] by blast
  show ?case
  proof (cases "a_type a = 2")
    case True
    let ?d = "int (rand k mod 10000)"
    have d: "0 \<le> ?d" "?d < 10000" by simp_all
    obtain m1 where m1: "ec_put (of_nat (i + 2)) (dec_digits (nat ?d)) m = Inr (OK, m1)" "stored (Suc i) (contents(i := ?d)) m1"
      using stored_put[OF Suc.prems(1) i d] by blast
    have eq: "put_turns (Suc n) i k rand contents m = put_turns n (Suc i) (Suc k) rand (contents(i := ?d)) m1"
      unfolding put_turns.simps Let_def sprint_number[OF d] using a(1) m1(1) True by (simp del: of_nat_add)
    show ?thesis using Suc.IH[OF m1(2)] Suc.prems(2) unfolding eq add_Suc_shift[symmetric] by blast
  next
    case False
    have "2000000 + 2 * (50 - Suc i) \<le> card (free_blocks m)" using Suc.prems(1) unfolding stored_def by linarith
    then have "stored (Suc i) contents m" using Suc.prems(1) False a(2) unfolding stored_def by (auto simp: less_Suc_eq)
    moreover have "put_turns (Suc n) i k rand contents m = put_turns n (Suc i) k rand contents m"
      unfolding put_turns.simps Let_def using a(1) False by (simp del: of_nat_add)
    ultimately show ?thesis using Suc.IH Suc.prems(2) by (metis add_Suc_shift)
  qed
qed auto

lemma get_turns_pass: "stored 50 contents m \<Longrightarrow> i + n \<le> 50 \<Longrightarrow> get_turns n i contents m = Inr 0"
proof (induction n arbitrary: i)
  case (Suc n)
  have i: "i < 50" using Suc.prems(2) by simp
  obtain a where a: "ec_getattr (of_nat (i + 2)) m = Inr (OK, a)" "a_type a = 2 \<longleftrightarrow> itype (inode_at m (num i)) = 2"
    using stored_attr[OF Suc.prems(1) i] by blast
  have n: "inum_ok (num i)" "ucast (num i) = (of_nat (i + 2) :: u64)" using i num_simps[of i] by simp_all
  have IH: "get_turns n (Suc i) contents m = Inr 0" using Suc.IH[OF Suc.prems(1)] Suc.prems(2) by simp
  show ?case
  proof (cases "a_type a = 2")
    case True
    obtain vs where vs: "files (map num [0..<50]) vs m" "0 \<le> contents i" "contents i < 10000" "vs ! i = dec_digits (nat (contents i))"
      using Suc.prems(1) i a(2) True unfolding stored_def by blast
    have "read_file max_depth (num i) m = Inr (vs ! i)" using files_read[OF vs(1), of i] i by simp
    then have "ec_get (of_nat (i + 2)) m = Inr (OK, vs ! i)" using client_get[OF n(1), of m] unfolding n(2) by simp
    then show ?thesis unfolding get_turns.simps Let_def sprint_number[OF vs(2,3)] using a(1) True IH vs(4) by (simp del: of_nat_add)
  next
    case False
    then show ?thesis unfolding get_turns.simps Let_def using a(1) IH by (simp del: of_nat_add)
  qed
qed simp

subsection \<open>Removing\<close>

definition removed :: "nat \<Rightarrow> inode_manager \<Rightarrow> bool" where
  "removed i m \<longleftrightarrow> tidy m \<and> (\<forall>j. inum_ok j \<longrightarrow> leaf (inode_at m j)) \<and> (\<forall>l < i. num l \<in> free_inodes m)
     \<and> unused_from 51 \<subseteq> free_inodes m \<and> 2000000 \<le> card (free_blocks m)"

lemma removed_clears: "removed i m \<Longrightarrow> clears m m' \<Longrightarrow> removed i m'"
  using clears_tidy[of m m'] clears_leaf[of m m'] clears_free[of m m'] card_mono[of "free_blocks m'" "free_blocks m"]
  unfolding removed_def by (meson finite order_trans subsetD)

lemma remove_turns_pass: "removed i m \<Longrightarrow> i + n \<le> 50 \<Longrightarrow> \<exists>m'. remove_turns n i m = Inr (0, m') \<and> removed (i + n) m'"
proof (induction n arbitrary: i m)
  case (Suc n)
  have i: "inum_ok (num i)" "ucast (num i) = (of_nat (i + 2) :: u64)" using Suc.prems(2) num_simps[of i] by simp_all
  have "tidy m" using Suc.prems(1) by (simp add: removed_def)
  from client_remove[OF this i(1)] obtain m1 where m1: "ec_remove (of_nat (i + 2)) m = Inr (OK, m1)" "clears m m1"
    "itype (inode_at m1 (num i)) = 0" unfolding i(2) by blast
  have r: "removed i m1" using Suc.prems(1) m1(2) by (rule removed_clears)
  then have "ok m1" "leaf (inode_at m1 (num i))" using i(1) by (auto simp: removed_def tidy_def)
  from client_attr[OF this(1) i(1) this(2)] obtain a where a: "ec_getattr (of_nat (i + 2)) m1 = Inr (OK, a)" "a_type a = 0"
    unfolding i(2) m1(3) by auto
  have "removed (Suc i) m1" using r m1(3) i(1) by (auto simp: removed_def less_Suc_eq free_inodes_def)
  moreover have "remove_turns (Suc n) i m = remove_turns n (Suc i) m1"
    unfolding remove_turns.simps Let_def using m1(1) a by (simp del: of_nat_add)
  ultimately show ?case using Suc.IH[of "Suc i" m1] Suc.prems(2) by simp
qed auto

lemma stored_removed: "stored 50 contents m \<Longrightarrow> removed 0 m"
proof -
  assume s: "stored 50 contents m"
  then obtain vs where f: "files (map num [0..<50]) vs m" unfolding stored_def by blast
  have "leaf (inode_at m j)" if "inum_ok j" for j
    using f s that by (cases "j \<in> set (map num [0..<50])") (auto simp: files_def stored_def leaf_def)
  then show ?thesis using s files_tidy[OF f] by (auto simp: removed_def stored_def)
qed

lemma card_unused: "i \<le> 1024 \<Longrightarrow> card (unused_from i) = 1024 - i"
proof -
  assume i: "i \<le> 1024"
  have "unused_from i = of_nat ` {i<..1024}"
  proof (intro equalityI subsetI)
    fix j assume "j \<in> unused_from i"
    then have "j = of_nat (unat j)" "i < unat j" "unat j \<le> 1024" by (auto simp: unused_from_def inum_ok_def word_le_nat_alt)
    then show "j \<in> of_nat ` {i<..1024}" by (metis greaterThanAtMost_iff imageI)
  qed (auto simp: unused_from_def inum_ok_def word_le_nat_alt unat_of_nat take_bit_nat_eq_self)
  moreover have "inj_on (of_nat :: nat \<Rightarrow> u32) {i<..1024}"
    by (rule inj_on_inverseI[of _ unat]) (simp add: unat_of_nat take_bit_nat_eq_self)
  ultimately show ?thesis by (simp add: card_image)
qed

subsection \<open>Large files\<close>

text \<open>\<open>n\<close> counts the writes there is room for: an inode and 202 blocks each.\<close>

definition room :: "nat \<Rightarrow> inode_manager \<Rightarrow> bool" where
  "room n m \<longleftrightarrow> n \<le> card (free_inodes m) \<and> 202 * n \<le> card (free_blocks m)"

lemma removed_files: "removed 50 m \<Longrightarrow> files [] [] m \<and> room 1000 m"
proof -
  assume r: "removed 50 m"
  have "unused_from 1 \<subseteq> free_inodes m"
  proof
    fix j assume j: "j \<in> unused_from 1"
    show "j \<in> free_inodes m"
    proof (cases "51 < unat j")
      case False
      moreover have "1 < unat j" using j by (simp add: unused_from_def)
      ultimately have "unat (num (unat j - 2)) = unat j" using num_simps(1)[of "unat j - 2"] by linarith
      then have "num (unat j - 2) = j" by (simp add: word_unat_eq_iff)
      moreover have "unat j - 2 < 50" using False by simp
      ultimately show ?thesis using r unfolding removed_def by metis
    qed (use r j in \<open>auto simp: removed_def unused_from_def\<close>)
  qed
  then have "card (unused_from 1) \<le> card (free_inodes m)" by (intro card_mono) simp_all
  then show ?thesis using r card_unused[of 1] by (auto simp: room_def removed_def tidy_def intro: files_none)
qed

lemma create_files_pass:
  "files ns vs m \<Longrightarrow> room (n + r) m \<Longrightarrow>
   \<exists>ns' vs' m'. create_files n (map ucast ns) m = Inr (0, map ucast ns', m') \<and> files ns' vs' m' \<and> length ns' = length ns + n \<and> room r m'"
proof (induction n arbitrary: ns vs m)
  case (Suc n)
  have free: "free_inodes m \<noteq> {}" using Suc.prems(2) by (auto simp: room_def)
  have t: "(2 :: u32) \<in> {1, 2, 3}" by simp
  obtain i m1 now where i: "alloc_inode 2 m = Inr (i, m1)" "files (ns @ [i]) (vs @ [[]]) m1" "i \<in> free_inodes m"
    "inode_at m1 i = new_inode 2 now" "\<forall>j. inum_ok j \<and> j \<noteq> i \<longrightarrow> inode_at m1 j = inode_at m j" "free_blocks m1 = free_blocks m"
    using files_create[OF Suc.prems(1) t free] by metis
  have "free_inodes m1 = free_inodes m - {i}" using i(3-5) by (auto simp: free_inodes_def)
  then have "card (free_inodes m) = Suc (card (free_inodes m1))" using i(3) by (metis card.remove finite)
  then have "room (n + r) m1" using Suc.prems(2) i(6) by (simp add: room_def)
  moreover have "create_files (Suc n) (map ucast ns) m = create_files n (map ucast (ns @ [i])) m1"
    using i(1) by (simp add: client_create)
  ultimately show ?case using Suc.IH[OF i(2)] by auto
qed auto

lemma large_text_fits: "0 \<notin> set (fst (large_text rand k)) \<and> length (fst (large_text rand k)) \<le> 102400"
proof -
  let ?s = "rand k mod (512 * 200 - 512 * 10) + 512 * 10"
  have "length (takeWhile P xs) \<le> length xs" for P and xs :: bytes by (rule length_takeWhile_le)
  moreover have "?s \<le> 102400" using mod_less_divisor[of "512 * 200 - 512 * 10" "rand k"] by simp
  ultimately show ?thesis by (fastforce simp: large_text_def Let_def dest: set_takeWhileD intro: order_trans)
qed

lemma put_files_pass:
  "files (old @ ns) (content @ vs) m \<Longrightarrow> length old = length content \<Longrightarrow> room (length ns + r) m \<Longrightarrow>
   \<exists>k' content' m'. put_files (map ucast ns) k rand content m = Inr (0, k', content', m') \<and> files (old @ ns) content' m' \<and> room r m'"
proof (induction ns arbitrary: old content vs m k)
  case Nil
  then have "vs = []" by (simp add: files_def)
  then show ?case using Nil by auto
next
  case (Cons n ns)
  obtain s0 k1 where s0: "large_text rand k = (s0, k1)" by (cases "large_text rand k")
  then have tx: "0 \<notin> set s0" "length s0 \<le> 102400" using large_text_fits[of rand k] by simp_all
  have n: "length old < length (old @ n # ns)" "(old @ n # ns) ! length old = n" by simp_all
  then have num: "inum_ok n" using files_inode[OF Cons.prems(1)] by metis
  have len: "n_blocks (int (length s0)) \<le> 200" using tx(2) n_blocks_int(2)[of "int (length s0)"] by linarith
  have free: "0 < card (free_inodes m)" "n_blocks (int (length s0)) < card (free_blocks m)" using Cons.prems(3) len by (auto simp: room_def)
  obtain m1 where m1: "write_file n (s0 @ [0]) (int (length s0)) m = Inr m1"
    "files (old @ n # ns) ((content @ vs)[length old := s0]) m1"
    "card (free_inodes m) \<le> card (free_inodes m1) + 1" "card (free_blocks m) \<le> card (free_blocks m1) + n_blocks (int (length s0)) + 1"
    using files_put[OF Cons.prems(1) n(1) tx free] unfolding n(2) by metis
  obtain v vs' where vs: "vs = v # vs'" using Cons.prems(1,2) by (cases vs) (auto simp: files_def)
  have "files ((old @ [n]) @ ns) ((content @ [s0]) @ vs') m1" using m1(2) Cons.prems(2) vs by simp
  moreover have "room (length ns + r) m1" using Cons.prems(3) m1(3,4) len by (simp add: room_def)
  moreover have "put_files (map ucast (n # ns)) k rand content m = put_files (map ucast ns) k1 rand (content @ [s0]) m1"
    using s0 client_put[OF num, of s0 m] tx(2) m1(1) by simp
  ultimately show ?case using Cons.IH[of "old @ [n]" "content @ [s0]" vs' m1 k1] Cons.prems(2) by simp
qed

lemma get_files_pass: "\<forall>(i, v) \<in> set xs. ec_get i m = Inr (OK, v) \<Longrightarrow> get_files xs m = Inr 0"
  by (induction xs) auto

lemma files_get:
  assumes "files ns vs m"
  shows "get_files (zip (map ucast ns) vs) m = Inr 0"
proof (rule get_files_pass)
  have "ec_get (ucast (ns ! k)) m = Inr (OK, vs ! k)" if "k < length ns" for k
    using files_read[OF assms that] client_get files_inode[OF assms that] by simp
  then show "\<forall>(i, v) \<in> set (zip (map ucast ns) vs). ec_get i m = Inr (OK, v)" by (auto simp: in_set_zip)
qed

lemma rounds_pass:
  "files ns vs m \<Longrightarrow> room (length ns * n) m \<Longrightarrow> \<exists>vs' m'. rounds n (map ucast ns) k rand m = Inr (0, m') \<and> files ns vs' m'"
proof (induction n arbitrary: vs m k)
  case (Suc n)
  have "room (length ns + length ns * n) m" using Suc.prems(2) by simp
  then obtain k' content' m1 where m1: "put_files (map ucast ns) k rand [] m = Inr (0, k', content', m1)"
    "files ns content' m1" "room (length ns * n) m1"
    using put_files_pass[of "[]" ns "[]" vs m "length ns * n" k rand] Suc.prems(1) by auto
  show ?case using Suc.IH[OF m1(2,3), of k'] m1(1) files_get[OF m1(2)] by simp
qed auto

lemma remove_files_pass: "tidy m \<Longrightarrow> \<forall>n \<in> set ns. inum_ok n \<Longrightarrow> \<exists>m'. remove_files (map ucast ns) m = Inr (0, m')"
proof (induction ns arbitrary: m)
  case (Cons n ns)
  obtain m1 where "ec_remove (ucast n) m = Inr (OK, m1)" "clears m m1" using client_remove[OF Cons.prems(1), of n] Cons.prems(2) by auto
  then show ?case using Cons.IH[OF clears_tidy[OF _ Cons.prems(1)]] Cons.prems(2) by simp
qed simp

subsection \<open>The score\<close>

text \<open>
  C8: The tester, started without arguments, scores 100 points and exits with status 0: on a new disk its four
  tests pass one after the other, whatever \<open>rand\<close> and the clock return.
\<close>

theorem tester_scores_100: "tester_main 1 rand1 rand2 contents rand4 clk = Inr (0, Some 100)"
proof -
  obtain m where m: "inode_manager_init clk = Inr (Some m)" "files [] [] m" "free_inodes m = {j. inum_ok j \<and> j \<noteq> 1}"
    "free_blocks m = {b. data_block b}" by (rule files_init)
  have "j \<noteq> 1 \<longleftrightarrow> 1 < unat j" if "inum_ok j" for j
    using that by (auto simp: inum_ok_def word_le_nat_alt word_unat_eq_iff)
  then have "created 0 m" using m(2-4) by (auto simp: created_def unused_from_def)
  then obtain m1 where m1: "test_create_and_getattr rand1 m = Inr (0, m1)" "created 50 m1"
    using create_turns_pass[of 0 m 50 rand1] by (auto simp: test_create_and_getattr_def)
  have "stored 0 contents m1" using m1(2) card_data_blocks unfolding stored_def created_def by auto
  then obtain contents1 m2 where m2: "put_turns 50 0 0 rand2 contents m1 = Inr (0, contents1, m2)" "stored 50 contents1 m2"
    using put_turns_pass[of 0 contents m1 50 0 rand2] by auto
  then have put_get: "test_put_and_get rand2 contents m1 = Inr (0, m2)"
    using get_turns_pass[OF m2(2), of 0 50] by (simp only: test_put_and_get_def) simp
  obtain m3 where m3: "test_remove m2 = Inr (0, m3)" "removed 50 m3"
    using remove_turns_pass[OF stored_removed[OF m2(2)], of 50] by (auto simp: test_remove_def)
  have f: "files [] [] m3" "room (50 + 500) m3" using removed_files[OF m3(2)] by (auto simp: room_def)
  obtain ns vs m4 where m4: "create_files 50 [] m3 = Inr (0, map ucast ns, m4)" "files ns vs m4" "length ns = 50" "room 500 m4"
    using create_files_pass[OF f] by auto
  obtain vs' m5 where m5: "rounds 10 (map ucast ns) 0 rand4 m4 = Inr (0, m5)" "files ns vs' m5"
    using rounds_pass[OF m4(2), of 10 0 rand4] m4(3,4) by auto
  have "\<forall>n \<in> set ns. inum_ok n" using files_inode[OF m5(2)] by (auto simp: in_set_conv_nth)
  then obtain m6 where "remove_files (map ucast ns) m5 = Inr (0, m6)" using remove_files_pass[OF files_tidy[OF m5(2)]] by blast
  then have "test_indirect rand4 m3 = Inr (0, m6)" using m4(1) m5(1) by (simp only: test_indirect_def) simp
  then show ?thesis using m(1) m1(1) put_get m3(1) by (simp add: tester_main_def)
qed

end
