(* ===== verification/Spec2Isabelle.thy ===== *)
theory Spec2Isabelle imports Fuse_Main Fs_Large_Properties Threads Fuse_Runs Store_Properties Rpc_Fifo Extent_Main Chfs_Large Tester_Properties begin

text \<open>
  InodeFS is a file system for teaching. A FUSE process answers the requests of libfuse (\<open>fuse.cc\<close>) with
  the operations of \<open>chfs_client\<close>, names and bytes at offsets, which it carries out on an \<open>extent_client\<close>. That
  one calls an \<open>extent_server\<close>, here in the same process, which passes every call on to an \<open>inode_manager\<close>: inodes,
  files and directories on a \<open>block_manager\<close> with a bitmap, on a disk in memory of 2097152 blocks
  of 512 bytes. Beside this, \<open>extent_smain.cc\<close> offers the server over the RPC library in \<open>rpc/\<close>, of which the
  repository has the headers, and \<open>part1_tester.cc\<close> tests the client.

  Theories, from the bottom up:
  \<^item> \<open>Prelude\<close>: words and bytes, the ways a run can fail (\<open>fault\<close>) and their sequencing (\<open>bindF\<close>, collection
    \<open>run\<close>), loops over tables of numbers, byte codecs (locale \<open>codec\<close>).
  \<^item> \<open>Block_Layer\<close>: classes \<open>disk\<close> and \<open>block_manager\<close> of \<open>inode_manager.cc\<close>. Locale \<open>block_store\<close> is what the
    layers above rely on, interpreted as \<open>bs\<close>.
  \<^item> \<open>Inode_Layer\<close>: the record \<open>inode_manager\<close>, the inode in its block, allocation and freeing. Locale
    \<open>volume\<close> extends \<open>block_store\<close>, interpreted as \<open>vol\<close>; \<open>vol.ext\<close> says that a state keeps what another has.
    \<open>Store_Properties\<close> has the properties of these two layers.
  \<^item> \<open>File_Layer\<close>: the methods on files. \<open>File_Content\<close> defines what a file holds (\<open>file_at\<close>, an inductive
    predicate over the disk), \<open>File_Write\<close> shows what \<open>write_file\<close> makes, \<open>File_Progress\<close> when it returns,
    \<open>File_Properties\<close> and \<open>File_Attributes\<close> have the properties, and \<open>File_Store\<close> is about several files side by side.
  \<^item> \<open>Dir_Layer\<close>: the methods on directories. \<open>Dir_Content\<close> refines them to a list of entries (\<open>dir_at\<close>), and
    \<open>Dir_Properties\<close> has the properties.
  \<^item> \<open>Extent\<close>: \<open>extent_server\<close> and \<open>extent_client\<close>. Locale \<open>extent_store\<close>, interpreted as \<open>xs\<close>, is the contract for
    files of at most 100 blocks.
  \<^item> \<open>Chfs_Client\<close>: class \<open>chfs_client\<close>. \<open>Chfs_Dirs\<close> has its properties on names, on top of the locale
    \<open>name_store\<close>, interpreted as \<open>ns\<close>; \<open>Chfs_Files\<close> those on contents, on top of \<open>xs\<close>, and \<open>Chfs_Large\<close> those
    on the contents of files with a table.
  \<^item> \<open>Fuse_Server\<close>: the handlers and their table (\<open>fuseserver_oper\<close>). \<open>Fuse_Properties\<close> is about single requests
    and short sequences of them. \<open>Pointer_Safety\<close> has what every request keeps, whatever its arguments (\<open>safe\<close>, with a
    rule for each method in the collection \<open>wp\<close>), and \<open>Fuse_Runs\<close> lifts it to all sequences of
    requests (\<open>served\<close>, an inductive predicate).
  \<^item> \<open>Fs_Spec\<close>: an abstract file system, of nodes and a number of free blocks, and what it answers to each request
    (\<open>fs_step\<close>, partial: None where it says nothing). \<open>Node_Store\<close> relates a node to the inode, the directory or the
    file that holds it, with the blocks it owns and, for a large file, the table and the pieces it leads to.
    \<open>Node_Steps\<close> has the relation for the whole disk (\<open>rel\<close>), \<open>Node_Removal\<close>, \<open>Node_Bytes\<close> and \<open>Node_Large\<close> show what
    removing, writing up to 51200 bytes and resizing, and writing more do to it and leave
    alone; block 0, where pointers that were never set lead, stays blank. \<open>Fs_Refinement\<close> has the simulation:
    locale \<open>simulation\<close>, of one step and then of runs, interpreted as \<open>fs\<close> on the specification and the
    handlers. \<open>Fs_Properties\<close> has what follows, \<open>Fs_Large_Properties\<close> the life of a large file, and \<open>Fuse_Main\<close>
    is \<open>main\<close> of \<open>fuse.cc\<close>.
  \<^item> \<open>Rpc_Fifo\<close>: the queue of \<open>rpc/fifo.h\<close> and the threads in it (\<open>thread_step\<close>, a step relation over the turns
    that run with the mutex held). \<open>Rpc_Marshall\<close>: what \<open>rpc/marshall.h\<close> defines. \<open>Rpc_Call\<close>: the templates of
    \<open>rpc/rpc.h\<close> for calls and handlers. \<open>Extent_Rpc\<close>: the table of \<open>extent_smain.cc\<close> and the \<open>attr\<close> operators;
    \<open>Extent_Main\<close>: its \<open>main\<close> and runs of remote calls.
    \<open>Threads\<close>: the threads of \<open>rpc/method_thread.h\<close> (\<open>turns\<close>, an inductive predicate over their interleavings) and
    the jobs of \<open>rpc/thr_pool.h\<close>.
  \<^item> \<open>Tester\<close> and \<open>Tester_Properties\<close>: \<open>part1_tester.cc\<close>.

  The state is the one record \<open>inode_manager\<close> from the inode table up to the handlers: the objects in between
  hold only pointers to one another. Methods are functions of the state that return an error or the results with
  the new state. A \<open>fault\<close> is an exception, an access out of bounds or through a null pointer, a failed
  \<open>VERIFY\<close>, or a run without end; a C++ compiler promises nothing after most of these, so
  theorems say which calls end in one. The clock is a function of the number of the call, and \<open>rand\<close>
  too, nothing being assumed of either.

  What the groups of properties show. Server: from a new disk it refines the abstract file system, answer by
  answer up to the time stamps, with a disk that stays consistent (\<open>consistent\<close>: blocks, bitmap, tables and
  directories), and \<open>main\<close> serves it. The abstract
  file system is faithful to the code where the code is not what one would wish: a directory
  can be unlinked with its entries, whose nodes then have no name, zero bytes at the end of a file are
  not read, every write costs the blocks of the whole file, bytes that were truncated come back, a
  file that is grown reports a size of its own, the pieces of a large file stay when it is overwritten, and the block of
  its table is lost when it is removed. Files: what reading returns after writing, for every
  size, which zero bytes are lost, when writing returns, that it disturbs no other file and never reuses blocks, what
  resizing and removing do. Directories: adding and removing refine operations on a list of entries up to
  100, and what goes wrong past this. Names and contents: creating, finding, removing, reading and writing
  at offsets as operations on lists of entries and bytes, less zero bytes at the end. Requests: the life of a
  name from one request to the next, with its error numbers, listings that go on where one left off, links. All
  runs of requests, also those that the specification leaves out: no inode points into the
  bitmap, the inode table or past the disk. Threads: each makes its call once, whatever the
  order. RPC: queue order, its limit and its wake-ups, round trips of headers and containers, requests that fit
  the handlers of methods with as many arguments and no other, and, if messages arrive, a process that serves the
  calls of its clients. The tester passes, whatever the random numbers are.

  Bounds and fuel. The methods that recurse along the disk take the number of levels they may go down,
  \<open>max_depth\<close> = 1025 at calls from outside: there are 1024 inodes, so a run that goes deeper has met one twice
  on its way down and never ends in the code (\<open>Diverges\<close>). \<open>file_at_card\<close> and \<open>read_file_at\<close> show that it
  is enough for every file. \<open>write_file\<close> and the loops over bitmaps, inodes and offsets terminate by a measure.
  The contracts \<open>extent_store\<close> and \<open>name_store\<close> are about files of at most 51200 bytes and directories of
  at most 100 entries, the part of an inode without a table. The theorems of \<open>File_Properties\<close> have no such
  limit but for when a large write returns, which is up to 127 pieces, as are those of \<open>Chfs_Large\<close>.

  \<open>fs_step\<close> covers every request on the nodes it knows, as long as names have at most 508 bytes, directories to which
  an entry is added have less than 100, files are written to at most 6502400 bytes (100 blocks and 126 pieces of
  as many) and set to at most 51200, the numbers of pieces are not written or resized as if they were files, and
  enough blocks and inodes are free.

  What is not modelled: printing; the time between \<open>malloc\<close> and \<open>free\<close>, and what leaks there; the one byte
  that \<open>read_file\<close> stores behind its buffer on the stack and the one it reads in front of its result; the
  padding in structures; want of memory, so that a string may be as long as \<open>max_size\<close> allows. The bodies of the RPC library that are in a binary archive (operators for basic
  types, connections, retransmission, the reply window, the pool of threads): the first are arguments with
  the laws \<open>codes\<close> and \<open>packs\<close>, and so are \<open>addJob\<close> and \<open>call1\<close>, which sends a request. \<open>delivers\<close> says of \<open>call1\<close> that
  messages arrive once; the calls of a process (\<open>process_serves_calls\<close>) assume it, and the fit of requests and
  handlers (\<open>request_fits_handler\<close>) does not. A method that a thread runs is one step of \<open>turns\<close>: what it does to
  shared memory is not interleaved with other threads.
  \<open>rpc/connection.h\<close> and \<open>pollmgr.h\<close> declare such classes, \<open>slock.h\<close>, \<open>jsl_log.h\<close> and \<open>verify.h\<close> are a guard of a mutex
  and macros. \<open>gettime.cc\<close> is built on macOS only, around calls of its kernel. libfuse is an argument: its encoding
  of directory entries, what its calls return, the requests it passes on.

  Left to do: the refinement for directories of more than 100 entries (beyond \<open>overflow_is_shared\<close>), for files of more
  than 6502400 bytes, which use the last entry of the table, and for sizes above 51200 that are set and not written.
\<close>

end
